(* ===== verification/H1_Prelude.thy ===== *)
theory H1_Prelude
  imports Main "HOL-Library.Sublist" "HOL-Library.Word"
begin

text \<open>
  Shared vocabulary of the development.  A byte (\<^verbatim>\<open>u8\<close>) is a \<^typ>\<open>char\<close>, which has exactly
  256 values, and \<^verbatim>\<open>Bytes\<close>, \<^verbatim>\<open>BytesMut\<close>, \<^verbatim>\<open>&[u8]\<close> and \<^verbatim>\<open>&str\<close> are lists of them: the
  reference counting and slicing of the \<^verbatim>\<open>bytes\<close> crate is not observable in the values.
  \<^verbatim>\<open>SmallVec\<close> is a list.  A Rust \<^verbatim>\<open>Result<T, E>\<close> is \<open>'e + 't\<close> with \<open>Inl\<close> for \<^verbatim>\<open>Err\<close>; a
  computation that may panic returns an \<open>option\<close> whose \<open>None\<close> is the panic.  A \<^verbatim>\<open>u64\<close> is a
  \<^typ>\<open>nat\<close> with its wrap-around and its checked operations written out.

  The theory holds the pieces of the Rust standard library the sources use (ASCII
  classification, \<^verbatim>\<open>eq_ignore_ascii_case\<close>, \<^verbatim>\<open>slice::split\<close>, \<^verbatim>\<open>position\<close>, UTF-8 validation,
  \<^verbatim>\<open>str\<close> slicing) and the documented results of the searches of the \<^verbatim>\<open>memchr\<close> crate, with the
  lemmas the component theories share.
\<close>

type_synonym byte = char
type_synonym bytes = "char list"

named_theorems ascii_defs \<open>the ASCII classification predicates, unfolded\<close>
named_theorems return_iff \<open>when a computation over results returns Ok\<close>

section \<open>Results\<close>

definition bind_result :: "'e + 'a \<Rightarrow> ('a \<Rightarrow> 'e + 'b) \<Rightarrow> 'e + 'b" where
  "bind_result r f = (case r of Inl e \<Rightarrow> Inl e | Inr x \<Rightarrow> f x)"

definition ok_or :: "'a option \<Rightarrow> 'e \<Rightarrow> 'e + 'a" where
  "ok_or m e = (case m of None \<Rightarrow> Inl e | Some x \<Rightarrow> Inr x)"

definition is_ok :: "'e + 'a \<Rightarrow> bool" where
  "is_ok r = (case r of Inl _ \<Rightarrow> False | Inr _ \<Rightarrow> True)"

definition result_ok :: "'e + 'a \<Rightarrow> 'a option" where
  "result_ok r = (case r of Inl _ \<Rightarrow> None | Inr x \<Rightarrow> Some x)"

lemma result_ok_simps [simp]:
  "result_ok (Inl e) = None"
  "result_ok (Inr x) = Some x"
  by (simp_all add: result_ok_def)

lemma result_ok_Some_iff: "result_ok r = Some x \<longleftrightarrow> r = Inr x"
  by (cases r) auto

lemma bind_result_simps [simp]:
  "bind_result (Inl e) f = Inl e"
  "bind_result (Inr x) f = f x"
  by (simp_all add: bind_result_def)

lemma ok_or_simps [simp]:
  "ok_or None e = Inl e"
  "ok_or (Some x) e = Inr x"
  by (simp_all add: ok_or_def)

lemma is_ok_simps [simp]:
  "\<not> is_ok (Inl e)"
  "is_ok (Inr x)"
  by (simp_all add: is_ok_def)

lemma bind_result_Inr_iff [return_iff]:
  "bind_result r f = Inr y \<longleftrightarrow> (\<exists>x. r = Inr x \<and> f x = Inr y)"
  by (cases r) auto

lemma bind_result_Inl_iff:
  "bind_result r f = Inl e \<longleftrightarrow> r = Inl e \<or> (\<exists>x. r = Inr x \<and> f x = Inl e)"
  by (cases r) auto

lemma ok_or_Inr_iff [return_iff]: "ok_or m e = Inr x \<longleftrightarrow> m = Some x"
  by (cases m) auto

section \<open>ASCII classification (\<^verbatim>\<open>u8::is_ascii_*\<close>)\<close>

abbreviation byte_of :: "byte \<Rightarrow> nat" where
  "byte_of \<equiv> of_char"

abbreviation CR :: byte where "CR \<equiv> CHR 0x0D"
abbreviation LF :: byte where "LF \<equiv> CHR 0x0A"
abbreviation SP :: byte where "SP \<equiv> CHR 0x20"
abbreviation HT :: byte where "HT \<equiv> CHR 0x09"
abbreviation CRLF :: bytes where "CRLF \<equiv> [CR, LF]"

definition is_ascii :: "byte \<Rightarrow> bool" where
  [ascii_defs]: "is_ascii b \<longleftrightarrow> byte_of b < 128"

definition is_ascii_digit :: "byte \<Rightarrow> bool" where
  [ascii_defs]: "is_ascii_digit b \<longleftrightarrow> 48 \<le> byte_of b \<and> byte_of b \<le> 57"

definition is_ascii_uppercase :: "byte \<Rightarrow> bool" where
  [ascii_defs]: "is_ascii_uppercase b \<longleftrightarrow> 65 \<le> byte_of b \<and> byte_of b \<le> 90"

definition is_ascii_lowercase :: "byte \<Rightarrow> bool" where
  [ascii_defs]: "is_ascii_lowercase b \<longleftrightarrow> 97 \<le> byte_of b \<and> byte_of b \<le> 122"

definition is_ascii_alphabetic :: "byte \<Rightarrow> bool" where
  [ascii_defs]: "is_ascii_alphabetic b \<longleftrightarrow> is_ascii_uppercase b \<or> is_ascii_lowercase b"

definition is_ascii_alphanumeric :: "byte \<Rightarrow> bool" where
  [ascii_defs]: "is_ascii_alphanumeric b \<longleftrightarrow> is_ascii_alphabetic b \<or> is_ascii_digit b"

definition is_ascii_hexdigit :: "byte \<Rightarrow> bool" where
  [ascii_defs]: "is_ascii_hexdigit b \<longleftrightarrow> is_ascii_digit b
     \<or> (65 \<le> byte_of b \<and> byte_of b \<le> 70) \<or> (97 \<le> byte_of b \<and> byte_of b \<le> 102)"

definition is_ascii_whitespace :: "byte \<Rightarrow> bool" where
  [ascii_defs]: "is_ascii_whitespace b \<longleftrightarrow> byte_of b \<in> {9, 10, 12, 13, 32}"

definition to_ascii_lowercase :: "byte \<Rightarrow> byte" where
  "to_ascii_lowercase b = (if is_ascii_uppercase b then char_of (byte_of b + 32) else b)"

abbreviation lower :: "bytes \<Rightarrow> bytes" where
  "lower \<equiv> map to_ascii_lowercase"

definition eq_ignore_ascii_case :: "bytes \<Rightarrow> bytes \<Rightarrow> bool" where
  "eq_ignore_ascii_case a b \<longleftrightarrow> list_all2 (\<lambda>x y. to_ascii_lowercase x = to_ascii_lowercase y) a b"

lemma eq_ignore_ascii_case_iff: "eq_ignore_ascii_case a b \<longleftrightarrow> lower a = lower b"
  by (auto simp: eq_ignore_ascii_case_def list_eq_iff_nth_eq list_all2_conv_all_nth)

lemma byte_of_char_of [simp]: "n < 256 \<Longrightarrow> byte_of (char_of n) = n"
  by simp

lemma byte_of_less: "byte_of b < 256"
  by simp

lemma byte_of_inject: "byte_of a = byte_of b \<longleftrightarrow> a = b"
  by simp

lemma byte_of_to_ascii_lowercase:
  "byte_of (to_ascii_lowercase b) = (if is_ascii_uppercase b then byte_of b + 32 else byte_of b)"
  by (auto simp: to_ascii_lowercase_def ascii_defs)

lemma to_ascii_lowercase_idem [simp]:
  "to_ascii_lowercase (to_ascii_lowercase b) = to_ascii_lowercase b"
  by (simp only: byte_of_inject [symmetric] byte_of_to_ascii_lowercase) (auto simp: ascii_defs byte_of_to_ascii_lowercase)

lemma lower_idem [simp]: "lower (lower s) = lower s"
  by simp

lemma not_uppercase_to_ascii_lowercase [simp]: "\<not> is_ascii_uppercase (to_ascii_lowercase b)"
  by (auto simp: ascii_defs byte_of_to_ascii_lowercase)

lemma to_ascii_lowercase_id_iff: "to_ascii_lowercase b = b \<longleftrightarrow> \<not> is_ascii_uppercase b"
  by (simp only: byte_of_inject [symmetric] byte_of_to_ascii_lowercase) (auto simp: ascii_defs)

lemma lower_id_iff: "lower s = s \<longleftrightarrow> (\<forall>b \<in> set s. \<not> is_ascii_uppercase b)"
  by (simp add: to_ascii_lowercase_id_iff list_eq_iff_nth_eq all_set_conv_all_nth)

section \<open>Searching and splitting slices\<close>

text \<open>\<^verbatim>\<open>iter().position(p)\<close>, and with it \<^verbatim>\<open>memchr::memchr\<close>: the first index that satisfies \<open>p\<close>.\<close>

fun position :: "('a \<Rightarrow> bool) \<Rightarrow> 'a list \<Rightarrow> nat option" where
  "position p [] = None"
| "position p (x # xs) = (if p x then Some 0 else map_option Suc (position p xs))"

definition memchr :: "byte \<Rightarrow> bytes \<Rightarrow> nat option" where
  "memchr b = position (\<lambda>x. x = b)"

text \<open>\<^verbatim>\<open>memmem::find\<close> and \<^verbatim>\<open>windows(n).position(..)\<close>: the first index where \<open>pat\<close> occurs.\<close>

fun find_sub :: "'a list \<Rightarrow> 'a list \<Rightarrow> nat option" where
  "find_sub pat [] = (if pat = [] then Some 0 else None)"
| "find_sub pat (x # xs) =
     (if prefix pat (x # xs) then Some 0 else map_option Suc (find_sub pat xs))"

text \<open>\<^verbatim>\<open>slice::split(p)\<close>: always at least one piece, the separators dropped.\<close>

fun split_on :: "('a \<Rightarrow> bool) \<Rightarrow> 'a list \<Rightarrow> 'a list list" where
  "split_on p [] = [[]]"
| "split_on p (x # xs) =
     (if p x then [] # split_on p xs
      else (case split_on p xs of [] \<Rightarrow> [[x]] | y # ys \<Rightarrow> (x # y) # ys))"

abbreviation split_commas :: "bytes \<Rightarrow> bytes list" where
  "split_commas \<equiv> split_on (\<lambda>b. b = CHR '','')"

lemma position_None_iff: "position p xs = None \<longleftrightarrow> (\<forall>x \<in> set xs. \<not> p x)"
  by (induction xs) auto

lemma position_Some_iff:
  "position p xs = Some i \<longleftrightarrow> i < length xs \<and> p (xs ! i) \<and> (\<forall>j < i. \<not> p (xs ! j))"
proof (induction xs arbitrary: i)
  case Nil
  then show ?case by simp
next
  case (Cons x xs)
  then show ?case by (cases i) (auto simp: nth_Cons split: nat.splits)
qed

lemma position_append:
  "position p (xs @ ys) =
     (case position p xs of Some i \<Rightarrow> Some i
      | None \<Rightarrow> map_option (\<lambda>i. length xs + i) (position p ys))"
proof (induction xs)
  case Nil
  then show ?case by (cases "position p ys") auto
next
  case (Cons x xs)
  then show ?case by (cases "position p ys") (auto split: option.splits)
qed

lemma position_append_first:
  "\<forall>x \<in> set xs. \<not> p x \<Longrightarrow> p y \<Longrightarrow> position p (xs @ y # ys) = Some (length xs)"
  by (induction xs) auto

lemma position_SomeD:
  assumes "position p xs = Some i"
  obtains ys y zs where "xs = ys @ y # zs" "length ys = i" "p y" "\<forall>x \<in> set ys. \<not> p x"
proof -
  from assms have i: "i < length xs" "p (xs ! i)" "\<forall>j < i. \<not> p (xs ! j)"
    by (simp_all add: position_Some_iff)
  then have "xs = take i xs @ xs ! i # drop (Suc i) xs"
    by (simp add: id_take_nth_drop)
  moreover have "\<forall>x \<in> set (take i xs). \<not> p x"
    using i by (auto simp: in_set_conv_nth)
  ultimately show thesis using i that by force
qed

lemma position_cong [fundef_cong]:
  "xs = ys \<Longrightarrow> (\<And>x. x \<in> set ys \<Longrightarrow> p x = q x) \<Longrightarrow> position p xs = position q ys"
  by (induction xs arbitrary: ys) auto

lemma find_sub_None_iff: "find_sub pat xs = None \<longleftrightarrow> \<not> sublist pat xs"
  by (induction xs) (auto simp: sublist_Cons_right)

lemma find_sub_Some_iff:
  "find_sub pat xs = Some i \<longleftrightarrow>
     i \<le> length xs \<and> prefix pat (drop i xs) \<and> (\<forall>j < i. \<not> prefix pat (drop j xs))"
proof (induction xs arbitrary: i)
  case Nil
  then show ?case by auto
next
  case (Cons x xs)
  show ?case
  proof (cases i)
    case 0
    then show ?thesis by simp
  next
    case (Suc k)
    have "(\<forall>j < Suc k. \<not> prefix pat (drop j (x # xs)))
        \<longleftrightarrow> \<not> prefix pat (x # xs) \<and> (\<forall>j < k. \<not> prefix pat (drop j xs))"
      by (auto simp: less_Suc_eq_0_disj)
    then show ?thesis using Cons Suc by auto
  qed
qed

text \<open>
  The searches are determined by their documented contracts: a function that returns the
  first match and \<open>None\<close> only without one is the function above.
\<close>

lemma memchr_unique:
  assumes "\<And>b xs i. f b xs = Some i \<Longrightarrow> i < length xs \<and> xs ! i = b \<and> b \<notin> set (take i xs)"
    and "\<And>b xs. f b xs = None \<Longrightarrow> b \<notin> set xs"
  shows "f b xs = memchr b xs"
proof (cases "f b xs")
  case None
  then have "b \<notin> set xs" by (rule assms(2))
  then have "memchr b xs = None" by (auto simp: memchr_def position_None_iff)
  with None show ?thesis by simp
next
  case (Some i)
  from assms(1) [OF Some] have "\<forall>j < i. xs ! j \<noteq> b"
    by (metis (no_types, lifting) in_set_conv_nth length_take min.absorb4 nth_take)
  with assms(1) [OF Some] have "memchr b xs = Some i"
    by (simp add: memchr_def position_Some_iff)
  with Some show ?thesis by simp
qed

lemma memmem_unique:
  assumes "\<And>pat xs i. f pat xs = Some i \<Longrightarrow>
      i \<le> length xs \<and> prefix pat (drop i xs) \<and> (\<forall>j < i. \<not> prefix pat (drop j xs))"
    and "\<And>pat xs. f pat xs = None \<Longrightarrow> \<not> sublist pat xs"
  shows "f pat xs = find_sub pat xs"
proof (cases "f pat xs")
  case None
  with assms(2) show ?thesis by (metis find_sub_None_iff)
next
  case (Some i)
  with assms(1) show ?thesis by (metis find_sub_Some_iff)
qed

lemma find_eq: "find (\<lambda>w. w = x) xs = (if x \<in> set xs then Some x else None)"
  by (induction xs) auto

lemma dropWhile_none: "\<forall>x \<in> set xs. \<not> p x \<Longrightarrow> dropWhile p xs = xs"
  by (cases xs) auto

lemma split_on_not_Nil [simp]: "split_on p xs \<noteq> []"
  by (cases xs) (auto split: list.splits)

lemma split_on_no_sep: "\<forall>x \<in> set xs. \<not> p x \<Longrightarrow> split_on p xs = [xs]"
  by (induction xs) auto

lemma split_on_append_sep:
  "\<forall>x \<in> set xs. \<not> p x \<Longrightarrow> p y \<Longrightarrow> split_on p (xs @ y # ys) = xs # split_on p ys"
  by (induction xs) auto

lemma split_on_pieces: "ys \<in> set (split_on p xs) \<Longrightarrow> set ys \<subseteq> set xs \<and> (\<forall>y \<in> set ys. \<not> p y)"
proof (induction xs arbitrary: ys)
  case Nil
  then show ?case by simp
next
  case (Cons x xs)
  then show ?case by (fastforce split: if_splits list.splits)
qed

section \<open>Machine integers\<close>

text \<open>\<^verbatim>\<open>u64\<close> arithmetic on \<^typ>\<open>nat\<close>: the checked operations, and the wrapping results of the plain ones.\<close>

abbreviation u64_range :: nat where
  "u64_range \<equiv> 2 ^ 64"

definition checked_add_u64 :: "nat \<Rightarrow> nat \<Rightarrow> nat option" where
  "checked_add_u64 a b = (if a + b < u64_range then Some (a + b) else None)"

definition checked_mul_u64 :: "nat \<Rightarrow> nat \<Rightarrow> nat option" where
  "checked_mul_u64 a b = (if a * b < u64_range then Some (a * b) else None)"

definition wrapping_add_u64 :: "nat \<Rightarrow> nat \<Rightarrow> nat" where
  "wrapping_add_u64 a b = (a + b) mod u64_range"

definition wrapping_sub_u64 :: "nat \<Rightarrow> nat \<Rightarrow> nat" where
  "wrapping_sub_u64 a b = (a + (u64_range - b mod u64_range)) mod u64_range"

lemma checked_add_u64_Some_iff:
  "checked_add_u64 a b = Some c \<longleftrightarrow> c = a + b \<and> a + b < u64_range"
  by (auto simp: checked_add_u64_def)

lemma wrapping_add_u64_exact: "a + b < u64_range \<Longrightarrow> wrapping_add_u64 a b = a + b"
  by (simp add: wrapping_add_u64_def)

lemma wrapping_sub_u64_exact:
  assumes "b \<le> a" and "a < u64_range"
  shows "wrapping_sub_u64 a b = a - b"
proof -
  from assms have "a + (u64_range - b mod u64_range) = (a - b) + u64_range"
    by simp
  then have "wrapping_sub_u64 a b = (a - b) mod u64_range"
    unfolding wrapping_sub_u64_def by (simp only: mod_add_self2)
  with assms show ?thesis by simp
qed

section \<open>UTF-8 (\<^verbatim>\<open>std::str::from_utf8\<close>) and \<^verbatim>\<open>str\<close> slicing\<close>

definition byte_in :: "byte \<Rightarrow> nat \<Rightarrow> nat \<Rightarrow> bool" where
  "byte_in b lo hi \<longleftrightarrow> lo \<le> byte_of b \<and> byte_of b \<le> hi"

abbreviation is_continuation :: "byte \<Rightarrow> bool" where
  "is_continuation b \<equiv> byte_in b 0x80 0xBF"

text \<open>The second byte of a three- or four-byte sequence: no overlong form, no surrogate, at most U+10FFFF.\<close>

definition utf8_second :: "byte \<Rightarrow> byte \<Rightarrow> bool" where
  "utf8_second a b \<longleftrightarrow>
     (if byte_of a = 0xE0 then byte_in b 0xA0 0xBF
      else if byte_of a = 0xED then byte_in b 0x80 0x9F
      else if byte_of a = 0xF0 then byte_in b 0x90 0xBF
      else if byte_of a = 0xF4 then byte_in b 0x80 0x8F
      else is_continuation b)"

fun utf8_valid :: "bytes \<Rightarrow> bool" where
  "utf8_valid [] = True"
| "utf8_valid (a # s) =
    (if byte_of a < 0x80 then utf8_valid s
     else if byte_in a 0xC2 0xDF then
       (case s of b # r \<Rightarrow> is_continuation b \<and> utf8_valid r | _ \<Rightarrow> False)
     else if byte_in a 0xE0 0xEF then
       (case s of b # c # r \<Rightarrow> utf8_second a b \<and> is_continuation c \<and> utf8_valid r
        | _ \<Rightarrow> False)
     else if byte_in a 0xF0 0xF4 then
       (case s of b # c # d # r \<Rightarrow>
          utf8_second a b \<and> is_continuation c \<and> is_continuation d \<and> utf8_valid r
        | _ \<Rightarrow> False)
     else False)"

lemma utf8_valid_ascii: "\<forall>b \<in> set s. is_ascii b \<Longrightarrow> utf8_valid s"
  by (induction s) (auto simp: is_ascii_def)

text \<open>\<^verbatim>\<open>str::is_char_boundary\<close>; \<^verbatim>\<open>&t[i..j]\<close> panics (\<open>None\<close>) off a boundary or out of range.\<close>

definition is_char_boundary :: "bytes \<Rightarrow> nat \<Rightarrow> bool" where
  "is_char_boundary t i \<longleftrightarrow>
     i = 0 \<or> i = length t \<or> (i < length t \<and> \<not> is_continuation (t ! i))"

definition str_slice :: "bytes \<Rightarrow> nat \<Rightarrow> nat \<Rightarrow> bytes option" where
  "str_slice t i j =
     (if i \<le> j \<and> is_char_boundary t i \<and> is_char_boundary t j
      then Some (take (j - i) (drop i t)) else None)"

lemma utf8_valid_first: "utf8_valid (b # s) \<Longrightarrow> \<not> is_continuation b"
  by (auto simp: byte_in_def split: if_splits)

lemma utf8_second_continuation: "utf8_second a b \<Longrightarrow> is_continuation b"
  by (auto simp: utf8_second_def byte_in_def split: if_splits)

lemma utf8_valid_Cons1: "is_ascii a \<Longrightarrow> utf8_valid (a # s) = utf8_valid s"
  by (simp add: is_ascii_def)

lemma utf8_valid_Cons_cases:
  assumes "utf8_valid (a # s)"
  obtains "is_ascii a" "utf8_valid s"
  | b r where "s = b # r" "is_continuation b" "utf8_valid r" "\<And>x. utf8_valid (a # b # x) = utf8_valid x"
  | b c r where "s = b # c # r" "is_continuation b" "is_continuation c" "utf8_valid r"
      "\<And>x. utf8_valid (a # b # c # x) = utf8_valid x"
  | b c d r where "s = b # c # d # r" "is_continuation b" "is_continuation c" "is_continuation d"
      "utf8_valid r" "\<And>x. utf8_valid (a # b # c # d # x) = utf8_valid x"
proof -
  consider (w1) "byte_of a < 0x80"
    | (w2) "\<not> byte_of a < 0x80" "byte_in a 0xC2 0xDF"
    | (w3) "\<not> byte_of a < 0x80" "\<not> byte_in a 0xC2 0xDF" "byte_in a 0xE0 0xEF"
    | (w4) "\<not> byte_of a < 0x80" "\<not> byte_in a 0xC2 0xDF" "\<not> byte_in a 0xE0 0xEF" "byte_in a 0xF0 0xF4"
    using assms by (auto split: if_splits)
  then show thesis
  proof cases
    case w1
    with assms that(1) show thesis by (simp add: is_ascii_def)
  next
    case w2
    with assms that(2) show thesis by (simp split: list.splits)
  next
    case w3
    with assms that(3) show thesis by (auto split: list.splits dest: utf8_second_continuation)
  next
    case w4
    with assms that(4) show thesis by (auto split: list.splits dest: utf8_second_continuation)
  qed
qed

lemma utf8_valid_split_ascii:
  assumes "utf8_valid (s @ b # r)" and "is_ascii b"
  shows "utf8_valid s \<and> utf8_valid (b # r)"
  using assms(1)
proof (induction s rule: length_induct)
  case (1 s)
  have b: "\<not> is_continuation b"
    using assms(2) by (simp add: byte_in_def is_ascii_def)
  show ?case
  proof (cases s)
    case Nil
    with 1 show ?thesis by simp
  next
    case (Cons a s')
    note IH = 1(1) [rule_format]
    from 1(2) Cons have "utf8_valid (a # (s' @ b # r))" by simp
    then show ?thesis
    proof (cases rule: utf8_valid_Cons_cases)
      case 1
      with IH [of s'] Cons show ?thesis by (simp add: utf8_valid_Cons1 del: utf8_valid.simps(2))
    next
      case (2 x y)
      with b obtain u where "s' = x # u" by (cases s') auto
      with 2 IH [of u] Cons show ?thesis by (simp del: utf8_valid.simps(2))
    next
      case (3 x y z)
      with b obtain u where "s' = x # y # u" by (cases s'; cases "tl s'") auto
      with 3 IH [of u] Cons show ?thesis by (simp del: utf8_valid.simps(2))
    next
      case (4 x y z w)
      with b obtain u where "s' = x # y # z # u" by (cases s'; cases "tl s'"; cases "tl (tl s')") auto
      with 4 IH [of u] Cons show ?thesis by (simp del: utf8_valid.simps(2))
    qed
  qed
qed

lemma utf8_valid_after_ascii:
  assumes "utf8_valid t" and "i < length t" and "is_ascii (t ! i)"
  shows "is_char_boundary t i" and "is_char_boundary t (Suc i)"
proof -
  from assms(2) have t: "t = take i t @ t ! i # drop (Suc i) t"
    by (simp add: id_take_nth_drop)
  with assms have v: "utf8_valid (t ! i # drop (Suc i) t)"
    by (metis utf8_valid_split_ascii)
  show "is_char_boundary t i"
    using utf8_valid_first [OF v] assms(2) by (simp add: is_char_boundary_def)
  from v assms(3) have w: "utf8_valid (drop (Suc i) t)"
    by (simp add: is_ascii_def)
  show "is_char_boundary t (Suc i)"
  proof (cases "Suc i < length t")
    case True
    then have "drop (Suc i) t = t ! Suc i # drop (Suc (Suc i)) t"
      by (simp add: Cons_nth_drop_Suc)
    with w utf8_valid_first have "\<not> is_continuation (t ! Suc i)"
      by metis
    with True show ?thesis by (simp add: is_char_boundary_def)
  next
    case False
    with assms(2) show ?thesis by (simp add: is_char_boundary_def)
  qed
qed

lemma is_char_boundary_ends [simp]: "is_char_boundary t 0" "is_char_boundary t (length t)"
  by (simp_all add: is_char_boundary_def)

lemma str_slice_Some:
  "i \<le> j \<Longrightarrow> is_char_boundary t i \<Longrightarrow> is_char_boundary t j \<Longrightarrow>
   str_slice t i j = Some (take (j - i) (drop i t))"
  by (simp add: str_slice_def)

end
