(* ===== verification/H1_Bytestr.thy ===== *)
theory H1_Bytestr
  imports H1_Prelude "HOL-Library.List_Lexorder" "HOL-Library.Char_ord"
begin

text \<open>
  \<^verbatim>\<open>src/src/bytestr.rs\<close>: the crate's string type, a byte string that carries a UTF-8
  invariant.  The field is private, so every value is built by one of the constructors
  below; \<open>byte_str_ok\<close> is the invariant they establish, and under it reading the string back
  (\<open>as_str\<close>, which re-validates) never loses its contents.
\<close>

datatype byte_str = ByteStr bytes

fun as_bytes :: "byte_str \<Rightarrow> bytes" where
  "as_bytes (ByteStr b) = b"

definition from_utf8 :: "bytes \<Rightarrow> unit + byte_str" where
  "from_utf8 b = (if utf8_valid b then Inr (ByteStr b) else Inl ())"

definition from_static :: "bytes \<Rightarrow> byte_str" where
  "from_static s = ByteStr s"

definition as_str :: "byte_str \<Rightarrow> bytes" where
  "as_str s = (if utf8_valid (as_bytes s) then as_bytes s else '''')"

definition into_bytes :: "byte_str \<Rightarrow> bytes" where
  "into_bytes s = as_bytes s"

definition byte_str_len :: "byte_str \<Rightarrow> nat" where
  "byte_str_len s = length (as_bytes s)"

definition byte_str_is_empty :: "byte_str \<Rightarrow> bool" where
  "byte_str_is_empty s \<longleftrightarrow> as_bytes s = []"

definition into_owned :: "byte_str \<Rightarrow> bytes" where
  "into_owned s = as_str s"

text \<open>\<^verbatim>\<open>From<&str>\<close> and \<^verbatim>\<open>From<String>\<close>; \<^verbatim>\<open>From<Bytes>\<close> gives the empty string on invalid input.\<close>

definition byte_str_from_str :: "bytes \<Rightarrow> byte_str" where
  "byte_str_from_str s = ByteStr s"

definition byte_str_from_bytes :: "bytes \<Rightarrow> byte_str" where
  "byte_str_from_bytes b = (case from_utf8 b of Inl _ \<Rightarrow> ByteStr [] | Inr s \<Rightarrow> s)"

definition byte_str_eq_str :: "byte_str \<Rightarrow> bytes \<Rightarrow> bool" where
  "byte_str_eq_str s t \<longleftrightarrow> as_bytes s = t"

text \<open>\<^verbatim>\<open>Hash\<close> feeds the \<^verbatim>\<open>str\<close>, not the bytes, to the hasher, which is a parameter.\<close>

definition byte_str_hash :: "(bytes \<Rightarrow> 'h \<Rightarrow> 'h) \<Rightarrow> byte_str \<Rightarrow> 'h \<Rightarrow> 'h" where
  "byte_str_hash str_hash s st = str_hash (as_str s) st"

text \<open>\<^verbatim>\<open>PartialOrd\<close> and \<^verbatim>\<open>Ord\<close>: by string content, in the byte order of \<^verbatim>\<open>str::cmp\<close>.\<close>

definition byte_str_le :: "byte_str \<Rightarrow> byte_str \<Rightarrow> bool" where
  "byte_str_le s t \<longleftrightarrow> as_str s \<le> as_str t"

instantiation byte_str :: preorder
begin

definition less_eq_byte_str :: "byte_str \<Rightarrow> byte_str \<Rightarrow> bool" where
  "less_eq_byte_str s t \<longleftrightarrow> byte_str_le s t"

definition less_byte_str :: "byte_str \<Rightarrow> byte_str \<Rightarrow> bool" where
  "less_byte_str s t \<longleftrightarrow> byte_str_le s t \<and> \<not> byte_str_le t s"

instance
  by standard (auto simp: less_eq_byte_str_def less_byte_str_def byte_str_le_def)

end

definition byte_str_ok :: "byte_str \<Rightarrow> bool" where
  "byte_str_ok s \<longleftrightarrow> utf8_valid (as_bytes s)"

lemma from_utf8_iff: "from_utf8 b = Inr s \<longleftrightarrow> utf8_valid b \<and> s = ByteStr b"
  by (auto simp: from_utf8_def)

lemma byte_str_ok_ByteStr [simp]: "byte_str_ok (ByteStr b) \<longleftrightarrow> utf8_valid b"
  by (simp add: byte_str_ok_def)

lemma as_str_ok [simp]: "byte_str_ok s \<Longrightarrow> as_str s = as_bytes s"
  by (simp add: as_str_def byte_str_ok_def)

lemma byte_str_eqI: "as_bytes s = as_bytes t \<Longrightarrow> s = t"
  by (cases s; cases t) simp

lemma utf8_valid_as_str: "utf8_valid (as_str s)"
  by (simp add: as_str_def)

text \<open>The order is total, and antisymmetric on strings that satisfy the invariant.\<close>

lemma byte_str_le_total: "s \<le> t \<or> t \<le> (s :: byte_str)"
  by (auto simp: less_eq_byte_str_def byte_str_le_def)

lemma byte_str_le_antisym:
  "byte_str_ok s \<Longrightarrow> byte_str_ok t \<Longrightarrow> s \<le> t \<Longrightarrow> t \<le> s \<Longrightarrow> s = t"
  by (auto simp: less_eq_byte_str_def byte_str_le_def intro: byte_str_eqI)

text \<open>
  \<^verbatim>\<open>Borrow<str>\<close> is sound: a key equal to a \<^verbatim>\<open>str\<close> hashes as that \<^verbatim>\<open>str\<close> does, so a map keyed by
  \<^verbatim>\<open>ByteStr\<close> can be searched with a \<^verbatim>\<open>&str\<close>.
\<close>

lemma byte_str_hash_borrow:
  "byte_str_ok s \<Longrightarrow> byte_str_eq_str s t \<Longrightarrow> byte_str_hash str_hash s st = str_hash t st"
  by (simp add: byte_str_hash_def byte_str_eq_str_def)

lemma byte_str_from_bytes_ok: "byte_str_ok (byte_str_from_bytes b)"
  by (auto simp: byte_str_from_bytes_def from_utf8_def)

end
