(* ===== verification/H1_Header.thy ===== *)
theory H1_Header
  imports H1_Bytestr
begin

text \<open>
  \<^verbatim>\<open>src/src/header.rs\<close>: interned field names and the header list, with the field syntax the other
  components share: \<open>is_tchar\<close>, \<open>trim_ows\<close> (of \<^verbatim>\<open>framing.rs\<close>), \<open>valid_field_name\<close> and
  \<open>valid_field_value\<close> (of \<^verbatim>\<open>write.rs\<close>).  The main facts: interning identifies exactly the names
  that are equal up to ASCII case, and \<open>canonical\<close> maps every spelling of a well-known name to
  its own constructor, so a decision taken on constructors is a decision on the wire name.
\<close>

datatype header_id =
    Host | ContentLength | ContentType | TransferEncoding | Connection | Expect | 
    Upgrade | Date | Server | Accept | AcceptEncoding | AcceptLanguage | 
    Authorization | CacheControl | Cookie | SetCookie | Etag | IfNoneMatch | 
    IfModifiedSince | LastModified | Location | Referer | UserAgent | Vary | 
    Allow | Trailer | Te | ContentEncoding | ContentLanguage | Range | 
    IfMatch | IfUnmodifiedSince | Origin
  | OtherHeader byte_str

definition WELL_KNOWN :: "header_id list" where
  "WELL_KNOWN =
    [Host, ContentLength, ContentType, TransferEncoding, Connection, Expect, 
     Upgrade, Date, Server, Accept, AcceptEncoding, AcceptLanguage, 
     Authorization, CacheControl, Cookie, SetCookie, Etag, IfNoneMatch, 
     IfModifiedSince, LastModified, Location, Referer, UserAgent, Vary, 
     Allow, Trailer, Te, ContentEncoding, ContentLanguage, Range, 
     IfMatch, IfUnmodifiedSince, Origin]"

text \<open>The macro \<^verbatim>\<open>m!\<close>: the first literal the name equals, ignoring ASCII case.\<close>

fun m_literals :: "bytes \<Rightarrow> (bytes \<times> header_id) list \<Rightarrow> header_id option" where
  "m_literals name [] = None"
| "m_literals name ((lit, variant) # rest) =
     (if eq_ignore_ascii_case name lit then Some variant else m_literals name rest)"

definition header_from_bytes :: "bytes \<Rightarrow> header_id option" where
  "header_from_bytes name =
    (let n = length name in
     if n = 2 then m_literals name [(''te'', Te)]
     else if n = 4 then m_literals name
       [(''host'', Host), (''date'', Date), (''vary'', Vary), (''etag'', Etag)]
     else if n = 5 then m_literals name [(''allow'', Allow), (''range'', Range)]
     else if n = 6 then m_literals name
       [(''accept'', Accept), (''expect'', Expect), (''cookie'', Cookie), (''server'', Server),
        (''origin'', Origin)]
     else if n = 7 then m_literals name
       [(''upgrade'', Upgrade), (''trailer'', Trailer), (''referer'', Referer)]
     else if n = 8 then m_literals name [(''if-match'', IfMatch), (''location'', Location)]
     else if n = 10 then m_literals name
       [(''connection'', Connection), (''set-cookie'', SetCookie), (''user-agent'', UserAgent)]
     else if n = 12 then m_literals name [(''content-type'', ContentType)]
     else if n = 13 then m_literals name
       [(''authorization'', Authorization), (''cache-control'', CacheControl),
        (''if-none-match'', IfNoneMatch), (''last-modified'', LastModified)]
     else if n = 14 then m_literals name [(''content-length'', ContentLength)]
     else if n = 15 then m_literals name
       [(''accept-encoding'', AcceptEncoding), (''accept-language'', AcceptLanguage)]
     else if n = 16 then m_literals name
       [(''content-encoding'', ContentEncoding), (''content-language'', ContentLanguage)]
     else if n = 17 then m_literals name
       [(''transfer-encoding'', TransferEncoding), (''if-modified-since'', IfModifiedSince)]
     else if n = 19 then m_literals name [(''if-unmodified-since'', IfUnmodifiedSince)]
     else None)"

fun header_as_str :: "header_id \<Rightarrow> bytes" where
  "header_as_str Host = ''host''"
| "header_as_str ContentLength = ''content-length''"
| "header_as_str ContentType = ''content-type''"
| "header_as_str TransferEncoding = ''transfer-encoding''"
| "header_as_str Connection = ''connection''"
| "header_as_str Expect = ''expect''"
| "header_as_str Upgrade = ''upgrade''"
| "header_as_str Date = ''date''"
| "header_as_str Server = ''server''"
| "header_as_str Accept = ''accept''"
| "header_as_str AcceptEncoding = ''accept-encoding''"
| "header_as_str AcceptLanguage = ''accept-language''"
| "header_as_str Authorization = ''authorization''"
| "header_as_str CacheControl = ''cache-control''"
| "header_as_str Cookie = ''cookie''"
| "header_as_str SetCookie = ''set-cookie''"
| "header_as_str Etag = ''etag''"
| "header_as_str IfNoneMatch = ''if-none-match''"
| "header_as_str IfModifiedSince = ''if-modified-since''"
| "header_as_str LastModified = ''last-modified''"
| "header_as_str Location = ''location''"
| "header_as_str Referer = ''referer''"
| "header_as_str UserAgent = ''user-agent''"
| "header_as_str Vary = ''vary''"
| "header_as_str Allow = ''allow''"
| "header_as_str Trailer = ''trailer''"
| "header_as_str Te = ''te''"
| "header_as_str ContentEncoding = ''content-encoding''"
| "header_as_str ContentLanguage = ''content-language''"
| "header_as_str Range = ''range''"
| "header_as_str IfMatch = ''if-match''"
| "header_as_str IfUnmodifiedSince = ''if-unmodified-since''"
| "header_as_str Origin = ''origin''"
| "header_as_str (OtherHeader s) = as_str s"

fun canonical :: "header_id \<Rightarrow> header_id" where
  "canonical (OtherHeader name) =
     (case header_from_bytes (as_bytes name) of
        Some known \<Rightarrow>
          (case find (\<lambda>w. w = known) WELL_KNOWN of Some w \<Rightarrow> w | None \<Rightarrow> OtherHeader name)
      | None \<Rightarrow> OtherHeader name)"
| "canonical h = h"

definition into_canonical :: "header_id \<Rightarrow> header_id" where
  "into_canonical h = (case canonical h of OtherHeader _ \<Rightarrow> h | known \<Rightarrow> known)"

definition is_hop_by_hop :: "header_id \<Rightarrow> bool" where
  "is_hop_by_hop h \<longleftrightarrow> h \<in> {Connection, TransferEncoding, Te, Trailer, Upgrade}"

definition forbidden_in_trailers :: "header_id \<Rightarrow> bool" where
  "forbidden_in_trailers h \<longleftrightarrow>
     h \<in> {TransferEncoding, ContentLength, Host, Connection, Expect, Te, Trailer, Upgrade,
          CacheControl, Authorization, SetCookie}"

type_synonym header_vec = "(header_id \<times> bytes) list"

definition header_get :: "header_vec \<Rightarrow> header_id \<Rightarrow> bytes option" where
  "header_get v i = map_option snd (find (\<lambda>(k, _). k = i) v)"

definition header_get_str :: "header_vec \<Rightarrow> header_id \<Rightarrow> bytes option" where
  "header_get_str v i =
     (case header_get v i of Some b \<Rightarrow> if utf8_valid b then Some b else None | None \<Rightarrow> None)"

definition header_all :: "header_vec \<Rightarrow> header_id \<Rightarrow> bytes list" where
  "header_all v i = map snd (filter (\<lambda>(k, _). k = i) v)"

definition header_count :: "header_vec \<Rightarrow> header_id \<Rightarrow> nat" where
  "header_count v i = length (filter (\<lambda>(k, _). k = i) v)"

definition intern :: "bytes \<Rightarrow> header_id" where
  "intern name =
     (case header_from_bytes name of
        Some i \<Rightarrow> i
      | None \<Rightarrow>
          if \<exists>b \<in> set name. is_ascii_uppercase b then OtherHeader (byte_str_from_str (lower name))
          else OtherHeader (byte_str_from_str name))"

definition is_tchar :: "byte \<Rightarrow> bool" where
  "is_tchar b \<longleftrightarrow> is_ascii_alphanumeric b \<or> b \<in> set ''!#$%&*+-.^_`|~'' \<or> b = CHR 0x27"

definition is_ows :: "byte \<Rightarrow> bool" where
  "is_ows b \<longleftrightarrow> b = SP \<or> b = HT"

fun trim_ows_front :: "bytes \<Rightarrow> bytes" where
  "trim_ows_front [] = []"
| "trim_ows_front (b # rest) = (if is_ows b then trim_ows_front rest else b # rest)"

fun trim_ows_back :: "bytes \<Rightarrow> bytes" where
  "trim_ows_back s = (if s \<noteq> [] \<and> is_ows (last s) then trim_ows_back (butlast s) else s)"

declare trim_ows_back.simps [simp del]

definition trim_ows :: "bytes \<Rightarrow> bytes" where
  "trim_ows s = trim_ows_back (trim_ows_front s)"

definition value_has_token :: "bytes \<Rightarrow> bytes \<Rightarrow> bool" where
  "value_has_token val token \<longleftrightarrow>
     (\<exists>t \<in> set (split_commas val). eq_ignore_ascii_case (trim_ows t) token)"

definition valid_field_name :: "bytes \<Rightarrow> bool" where
  "valid_field_name name \<longleftrightarrow> name \<noteq> [] \<and> list_all is_tchar name"

definition valid_field_value :: "bytes \<Rightarrow> bool" where
  "valid_field_value val \<longleftrightarrow> \<not> list_ex (\<lambda>b. b = CR \<or> b = LF \<or> b = CHR 0x00) val"

section \<open>Interning\<close>

definition well_known :: "header_id \<Rightarrow> bool" where
  "well_known h \<longleftrightarrow> (\<forall>s. h \<noteq> OtherHeader s)"

lemma well_known_OtherHeader [simp]: "\<not> well_known (OtherHeader s)"
  by (simp add: well_known_def)

lemma well_known_iff: "well_known h \<longleftrightarrow> h \<in> set WELL_KNOWN"
  by (cases h) (simp_all add: well_known_def WELL_KNOWN_def)

lemma lower_header_as_str: "well_known h \<Longrightarrow> lower (header_as_str h) = header_as_str h"
  by (cases h) (simp_all add: to_ascii_lowercase_def ascii_defs)

lemma m_literals_Some:
  "m_literals name tbl = Some i \<Longrightarrow> \<exists>lit. (lit, i) \<in> set tbl \<and> lower name = lower lit"
  by (induction name tbl rule: m_literals.induct) (auto simp: eq_ignore_ascii_case_iff split: if_splits)

definition literals_ok :: "(bytes \<times> header_id) list \<Rightarrow> bool" where
  "literals_ok tbl \<longleftrightarrow> list_all (\<lambda>(l, h). well_known h \<and> l = header_as_str h) tbl"

lemma m_literals_ok:
  "m_literals name tbl = Some i \<Longrightarrow> literals_ok tbl \<Longrightarrow>
   well_known i \<and> lower name = header_as_str i"
  using m_literals_Some [of name tbl i] lower_header_as_str [of i]
  by (fastforce simp: literals_ok_def list_all_iff)

lemma header_from_bytes_SomeD:
  "header_from_bytes name = Some i \<Longrightarrow> well_known i \<and> lower name = header_as_str i"
  unfolding header_from_bytes_def Let_def
  by (simp only: split: if_split_asm; (erule m_literals_ok, simp add: literals_ok_def well_known_def)?)
     simp_all

lemma header_from_bytes_of_str:
  assumes "well_known i" and "lower name = header_as_str i"
  shows "header_from_bytes name = Some i"
proof -
  from assms(2) have "length name = length (header_as_str i)"
    by (metis length_map)
  with assms show ?thesis
    by (cases i) (simp_all add: header_from_bytes_def eq_ignore_ascii_case_iff to_ascii_lowercase_def ascii_defs)
qed

lemma header_from_bytes_iff:
  "header_from_bytes name = Some i \<longleftrightarrow> well_known i \<and> lower name = header_as_str i"
  using header_from_bytes_SomeD header_from_bytes_of_str by blast

lemma header_from_bytes_cong: "lower a = lower b \<Longrightarrow> header_from_bytes a = header_from_bytes b"
  by (metis header_from_bytes_iff option.exhaust)

lemma header_as_str_inj:
  "well_known i \<Longrightarrow> well_known j \<Longrightarrow> header_as_str i = header_as_str j \<Longrightarrow> i = j"
  by (metis header_from_bytes_of_str lower_header_as_str option.inject)

lemma intern_other:
  "header_from_bytes name = None \<Longrightarrow> intern name = OtherHeader (ByteStr (lower name))"
  using lower_id_iff [of name] by (auto simp: intern_def byte_str_from_str_def)

lemma intern_well_known: "header_from_bytes name = Some i \<Longrightarrow> intern name = i"
  by (simp add: intern_def)

lemma intern_eq_well_known_iff:
  "well_known i \<Longrightarrow> intern name = i \<longleftrightarrow> lower name = header_as_str i"
  by (cases "header_from_bytes name")
     (auto simp: intern_other intern_well_known header_from_bytes_of_str
       dest: header_from_bytes_SomeD)

lemma intern_cong: "lower a = lower b \<Longrightarrow> intern a = intern b"
  by (cases "header_from_bytes a")
     (auto simp: intern_other intern_well_known header_from_bytes_cong [of a b])

lemma intern_inj: "intern a = intern b \<Longrightarrow> lower a = lower b"
proof (cases "header_from_bytes a")
  case None
  assume eq: "intern a = intern b"
  with None have "header_from_bytes b = None"
    by (cases "header_from_bytes b")
       (auto simp: intern_other intern_well_known dest: header_from_bytes_SomeD)
  with None eq show ?thesis by (simp add: intern_other)
next
  case (Some i)
  assume "intern a = intern b"
  with Some show ?thesis
    by (metis header_from_bytes_SomeD intern_eq_well_known_iff intern_well_known)
qed

definition header_ok :: "header_id \<Rightarrow> bool" where
  "header_ok h \<longleftrightarrow> (case h of OtherHeader s \<Rightarrow> byte_str_ok s | _ \<Rightarrow> True)"

lemma header_ok_OtherHeader [simp]: "header_ok (OtherHeader s) \<longleftrightarrow> byte_str_ok s"
  by (simp add: header_ok_def)

lemma well_known_header_ok [simp]: "well_known h \<Longrightarrow> header_ok h"
  by (cases h) (simp_all add: header_ok_def)

lemma canonical_well_known [simp]: "well_known h \<Longrightarrow> canonical h = h"
  by (cases h) simp_all

lemma canonical_OtherHeader:
  "canonical (OtherHeader s) =
     (case header_from_bytes (as_bytes s) of Some i \<Rightarrow> i | None \<Rightarrow> OtherHeader s)"
  by (auto simp: find_eq well_known_iff [symmetric] split: option.splits
      dest: header_from_bytes_SomeD)

declare canonical.simps(1) [simp del]

lemma canonical_idem [simp]: "canonical (canonical h) = canonical h"
  by (cases h) (auto simp: canonical_OtherHeader dest: header_from_bytes_SomeD split: option.splits)

lemma canonical_eq_iff:
  assumes "header_ok h" and "well_known k"
  shows "canonical h = k \<longleftrightarrow> lower (header_as_str h) = header_as_str k"
proof (cases "well_known h")
  case True
  with assms show ?thesis by (auto simp: lower_header_as_str dest: header_as_str_inj)
next
  case False
  then obtain s where "h = OtherHeader s" by (cases h) (auto simp: well_known_def)
  with assms show ?thesis
    by (auto simp: canonical_OtherHeader header_from_bytes_of_str split: option.splits
        dest: header_from_bytes_SomeD)
qed

lemma canonical_intern: "canonical (intern name) = intern name"
proof (cases "header_from_bytes name")
  case None
  then have "header_from_bytes (lower name) = None"
    by (simp add: header_from_bytes_cong [of "lower name" name])
  with None show ?thesis by (simp add: intern_other canonical_OtherHeader)
next
  case (Some i)
  then show ?thesis using header_from_bytes_SomeD [OF Some] by (simp add: intern_well_known)
qed

section \<open>Field values and lists\<close>

lemma trim_ows_front_eq: "trim_ows_front s = dropWhile is_ows s"
  by (induction s) auto

lemma trim_ows_back_eq: "trim_ows_back s = rev (dropWhile is_ows (rev s))"
proof (induction s rule: rev_induct)
  case Nil
  then show ?case by (subst trim_ows_back.simps) simp
next
  case (snoc b s)
  then show ?case by (subst trim_ows_back.simps) simp
qed

lemma trim_ows_eq: "trim_ows s = rev (dropWhile is_ows (rev (dropWhile is_ows s)))"
  by (simp add: trim_ows_def trim_ows_front_eq trim_ows_back_eq)

lemma set_trim_ows: "set (trim_ows s) \<subseteq> set s"
  by (auto simp: trim_ows_eq dest!: set_dropWhileD)

lemma trim_ows_no_ows: "\<forall>b \<in> set s. \<not> is_ows b \<Longrightarrow> trim_ows s = s"
  by (simp add: trim_ows_eq dropWhile_none)

lemma trim_ows_ends:
  assumes "trim_ows s \<noteq> []"
  shows "\<not> is_ows (hd (trim_ows s)) \<and> \<not> is_ows (last (trim_ows s))"
proof -
  define u where "u = dropWhile is_ows s"
  have t: "trim_ows s = rev (dropWhile is_ows (rev u))"
    by (simp add: trim_ows_eq u_def)
  from assms t have ne: "dropWhile is_ows (rev u) \<noteq> []" by auto
  then have "\<not> is_ows (last (trim_ows s))"
    by (simp add: t last_rev hd_dropWhile)
  moreover obtain v where v: "u = trim_ows s @ v"
    by (metis t rev_append rev_rev_ident takeWhile_dropWhile_id)
  with assms have "hd (trim_ows s) = hd u" "u \<noteq> []" by auto
  then have "\<not> is_ows (hd (trim_ows s))"
    by (metis hd_dropWhile u_def)
  ultimately show ?thesis by simp
qed

lemma trim_ows_split:
  obtains p q where "s = p @ trim_ows s @ q" "\<forall>b \<in> set p. is_ows b" "\<forall>b \<in> set q. is_ows b"
proof
  let ?u = "dropWhile is_ows s"
  have "rev ?u = takeWhile is_ows (rev ?u) @ dropWhile is_ows (rev ?u)" by simp
  then have "?u = trim_ows s @ rev (takeWhile is_ows (rev ?u))"
    by (metis rev_append rev_rev_ident trim_ows_eq)
  then show "s = takeWhile is_ows s @ trim_ows s @ rev (takeWhile is_ows (rev ?u))"
    by (metis takeWhile_dropWhile_id)
  show "\<forall>b \<in> set (takeWhile is_ows s). is_ows b"
    by (auto dest: set_takeWhileD)
  show "\<forall>b \<in> set (rev (takeWhile is_ows (rev ?u))). is_ows b"
    by (auto dest: set_takeWhileD)
qed

lemma header_get_Some: "header_get v i = Some b \<Longrightarrow> (i, b) \<in> set v"
  by (auto simp: header_get_def find_Some_iff dest: nth_mem)

lemma header_get_None_iff: "header_get v i = None \<longleftrightarrow> i \<notin> fst ` set v"
  by (force simp: header_get_def find_None_iff)

lemma header_get_all: "header_get v i = (case header_all v i of [] \<Rightarrow> None | b # _ \<Rightarrow> Some b)"
  by (induction v) (auto simp: header_get_def header_all_def)

lemma length_header_all [simp]: "length (header_all v i) = header_count v i"
  by (simp add: header_all_def header_count_def)

lemma header_count_0_iff: "header_count v i = 0 \<longleftrightarrow> i \<notin> fst ` set v"
  by (force simp: header_count_def filter_empty_conv)

lemma is_tchar_not_ctl:
  "is_tchar b \<Longrightarrow> b \<noteq> CR \<and> b \<noteq> LF \<and> b \<noteq> CHR '':'' \<and> b \<noteq> SP \<and> b \<noteq> HT \<and> b \<noteq> CHR '',''"
  by (auto simp: is_tchar_def ascii_defs)

lemma is_tchar_not_nul: "is_tchar b \<Longrightarrow> b \<noteq> CHR 0x00"
  by (auto simp: is_tchar_def ascii_defs)

lemma is_tchar_ascii: "is_tchar b \<Longrightarrow> is_ascii b"
  by (auto simp: is_tchar_def ascii_defs)

lemma is_tchar_lower: "is_tchar b \<Longrightarrow> is_tchar (to_ascii_lowercase b)"
  by (auto simp: is_tchar_def ascii_defs to_ascii_lowercase_def)

lemma header_as_str_intern: "utf8_valid (lower name) \<Longrightarrow> header_as_str (intern name) = lower name"
  by (cases "header_from_bytes name")
     (auto simp: intern_other intern_well_known as_str_def dest: header_from_bytes_SomeD)

lemma valid_field_name_lower: "valid_field_name name \<Longrightarrow> valid_field_name (lower name)"
  by (simp add: valid_field_name_def list_all_iff is_tchar_lower)

lemma valid_field_name_utf8: "valid_field_name name \<Longrightarrow> utf8_valid name"
  by (auto simp: valid_field_name_def list_all_iff intro!: utf8_valid_ascii dest: is_tchar_ascii)

lemma valid_field_name_intern:
  "valid_field_name name \<Longrightarrow>
   header_as_str (intern name) = lower name \<and> valid_field_name (header_as_str (intern name))
   \<and> header_ok (intern name)"
proof -
  assume v: "valid_field_name name"
  then have l: "valid_field_name (lower name)" by (rule valid_field_name_lower)
  then have u: "utf8_valid (lower name)" by (rule valid_field_name_utf8)
  moreover have "header_ok (intern name)"
    using u by (cases "header_from_bytes name")
      (auto simp: intern_other intern_well_known byte_str_ok_def dest: header_from_bytes_SomeD)
  ultimately show ?thesis using l by (simp add: header_as_str_intern)
qed

text \<open>Interning a field name decides field-name equality exactly: two names intern to the same
  id precisely when they are equal ignoring ASCII case, so an escaped or oddly cased name can
  neither alias nor dodge a well-known header.\<close>

lemma intern_decides_name_equality:
  "(intern a = intern b \<longleftrightarrow> eq_ignore_ascii_case a b)
   \<and> (well_known i \<longrightarrow> (intern a = i \<longleftrightarrow> eq_ignore_ascii_case a (header_as_str i)))"
  using intern_inj [of a b] intern_cong [of a b] intern_eq_well_known_iff [of i a]
    lower_header_as_str [of i]
  by (auto simp: eq_ignore_ascii_case_iff)

end
