(* ===== verification/H1_Method.thy ===== *)
theory H1_Method
  imports H1_Bytestr
begin

text \<open>
  \<^verbatim>\<open>src/src/method.rs\<close>: the request method and the protocol version.  Well-known methods are
  unit constructors; any other token is carried as it was received.
\<close>

datatype http_method =
    Get | Head | Post | Put | Delete | Connect | Options | Trace | Patch | Query
  | OtherMethod byte_str

definition method_from_bytes :: "bytes \<Rightarrow> http_method option" where
  "method_from_bytes token =
     (if length token = 3 then
        (if token = ''GET'' then Some Get
         else if token = ''PUT'' then Some Put else None)
      else if length token = 4 then
        (if token = ''HEAD'' then Some Head
         else if token = ''POST'' then Some Post else None)
      else if length token = 5 then
        (if token = ''PATCH'' then Some Patch
         else if token = ''TRACE'' then Some Trace
         else if token = ''QUERY'' then Some Query else None)
      else if length token = 6 then
        (if token = ''DELETE'' then Some Delete else None)
      else if length token = 7 then
        (if token = ''CONNECT'' then Some Connect
         else if token = ''OPTIONS'' then Some Options else None)
      else None)"

fun method_as_str :: "http_method \<Rightarrow> bytes" where
  "method_as_str Get = ''GET''"
| "method_as_str Head = ''HEAD''"
| "method_as_str Post = ''POST''"
| "method_as_str Put = ''PUT''"
| "method_as_str Delete = ''DELETE''"
| "method_as_str Connect = ''CONNECT''"
| "method_as_str Options = ''OPTIONS''"
| "method_as_str Trace = ''TRACE''"
| "method_as_str Patch = ''PATCH''"
| "method_as_str Query = ''QUERY''"
| "method_as_str (OtherMethod s) = as_str s"

definition is_safe :: "http_method \<Rightarrow> bool" where
  "is_safe m \<longleftrightarrow> m \<in> {Get, Head, Options, Trace, Query}"

definition expects_response_body :: "http_method \<Rightarrow> bool" where
  "expects_response_body m \<longleftrightarrow> m \<noteq> Head"

definition method_from_str :: "bytes \<Rightarrow> http_method" where
  "method_from_str token =
     (case method_from_bytes token of Some m \<Rightarrow> m | None \<Rightarrow> OtherMethod (byte_str_from_str token))"

definition method_eq_str :: "http_method \<Rightarrow> bytes \<Rightarrow> bool" where
  "method_eq_str m s \<longleftrightarrow> method_as_str m = s"

datatype version = Http10 | Http11

definition version_from_httparse :: "nat \<Rightarrow> version option" where
  "version_from_httparse minor =
     (if minor = 0 then Some Http10 else if minor = 1 then Some Http11 else None)"

fun version_as_bytes :: "version \<Rightarrow> bytes" where
  "version_as_bytes Http10 = ''HTTP/1.0''"
| "version_as_bytes Http11 = ''HTTP/1.1''"

definition well_known_method :: "http_method \<Rightarrow> bool" where
  "well_known_method m \<longleftrightarrow> (\<forall>s. m \<noteq> OtherMethod s)"

lemma well_known_method_simps [simp]:
  "well_known_method Get" "well_known_method Head" "well_known_method Post"
  "well_known_method Put" "well_known_method Delete" "well_known_method Connect"
  "well_known_method Options" "well_known_method Trace" "well_known_method Patch"
  "well_known_method Query" "\<not> well_known_method (OtherMethod s)"
  by (simp_all add: well_known_method_def)

lemma method_from_bytes_as_str:
  "well_known_method m \<Longrightarrow> method_from_bytes (method_as_str m) = Some m"
  by (cases m) (simp_all add: method_from_bytes_def)

text \<open>The length dispatch decides exactly the case-sensitive token comparison.\<close>

lemma method_from_bytes_iff:
  "method_from_bytes t = Some m \<longleftrightarrow> well_known_method m \<and> method_as_str m = t"
proof
  assume "method_from_bytes t = Some m"
  then show "well_known_method m \<and> method_as_str m = t"
    unfolding method_from_bytes_def by (simp split: if_split_asm)
qed (auto simp: method_from_bytes_as_str)

lemma method_as_str_from_str: "utf8_valid t \<Longrightarrow> method_as_str (method_from_str t) = t"
  by (auto simp: method_from_str_def byte_str_from_str_def method_from_bytes_iff split: option.splits)

end
