(* ===== verification/H1_Head.thy ===== *)
theory H1_Head
  imports H1_Header H1_Method
begin

text \<open>
  \<^verbatim>\<open>src/src/head.rs\<close>: the parsed request head.  The target's \<^verbatim>\<open>?\<close> index and authority range are
  cached beside it; the accessors slice the target at the cached offsets with \<^verbatim>\<open>&t[i..j]\<close>,
  which panics out of range or off a character boundary.  An accessor therefore returns an
  \<open>option\<close> whose \<open>None\<close> is that panic.  \<open>head_wf\<close> says the caches agree with the target;
  \<open>head_new\<close> and \<open>set_target\<close> establish it, and under it no accessor panics.
\<close>

record head =
  head_method :: http_method
  head_target :: byte_str
  head_version :: version
  head_headers :: header_vec
  query_at :: "nat option"
  authority_at :: "(nat \<times> nat) option"

definition find_query :: "byte_str \<Rightarrow> nat option" where
  "find_query t = position (\<lambda>b. b = CHR ''?'') (as_bytes t)"

definition valid_scheme :: "bytes \<Rightarrow> bool" where
  "valid_scheme scheme \<longleftrightarrow>
     (case scheme of [] \<Rightarrow> False | b # _ \<Rightarrow> is_ascii_alphabetic b) \<and>
     list_all (\<lambda>b. is_ascii_alphanumeric b \<or> b \<in> set ''+-.'') scheme"

definition find_absolute_authority :: "bytes \<Rightarrow> (nat \<times> nat) option" where
  "find_absolute_authority target =
     (if target = [] \<or> hd target \<in> set ''/*'' then None
      else (case find_sub ''://'' target of
          None \<Rightarrow> None
        | Some i \<Rightarrow>
            if \<not> valid_scheme (take i target) then None
            else
              (let start = i + 3;
                   end = (case position (\<lambda>b. b \<in> set ''/?#'') (drop start target) of
                            None \<Rightarrow> length target
                          | Some n \<Rightarrow> start + n)
               in Some (start, end))))"

definition head_new :: "http_method \<Rightarrow> byte_str \<Rightarrow> version \<Rightarrow> header_vec \<Rightarrow> head" where
  "head_new m t v hs =
     \<lparr>head_method = m, head_target = t, head_version = v, head_headers = hs,
      query_at = find_query t, authority_at = find_absolute_authority (as_bytes t)\<rparr>"

definition set_target :: "head \<Rightarrow> byte_str \<Rightarrow> head" where
  "set_target h t =
     h\<lparr>query_at := find_query t,
       authority_at := find_absolute_authority (as_bytes t),
       head_target := t\<rparr>"

definition get :: "head \<Rightarrow> header_id \<Rightarrow> bytes option" where
  "get h = header_get (head_headers h)"

definition get_str :: "head \<Rightarrow> header_id \<Rightarrow> bytes option" where
  "get_str h = header_get_str (head_headers h)"

definition all_values :: "head \<Rightarrow> header_id \<Rightarrow> bytes list" where
  "all_values h = header_all (head_headers h)"

definition count :: "head \<Rightarrow> header_id \<Rightarrow> nat" where
  "count h = header_count (head_headers h)"

definition path :: "head \<Rightarrow> bytes option" where
  "path h =
     (let t = as_str (head_target h);
          end = (case query_at h of Some q \<Rightarrow> q | None \<Rightarrow> length t)
      in case authority_at h of
           Some (_, path_start) \<Rightarrow>
             if path_start < end then str_slice t path_start end else Some ''/''
         | None \<Rightarrow> str_slice t 0 end)"

definition authority :: "head \<Rightarrow> bytes option option" where
  "authority h =
     (case authority_at h of
        Some (start, end) \<Rightarrow> map_option Some (str_slice (as_str (head_target h)) start end)
      | None \<Rightarrow>
          if head_method h = Connect then Some (Some (as_str (head_target h)))
          else Some (case get_str h Host of
                       Some v \<Rightarrow> if v = [] then None else Some v
                     | None \<Rightarrow> None))"

definition absolute_scheme :: "head \<Rightarrow> bytes option option" where
  "absolute_scheme h =
     (case authority_at h of
        Some (start, _) \<Rightarrow>
          if start < 3 then None
          else map_option Some (str_slice (as_str (head_target h)) 0 (start - 3))
      | None \<Rightarrow> Some None)"

definition query :: "head \<Rightarrow> bytes option option" where
  "query h =
     (let t = as_str (head_target h) in
      case query_at h of
        Some i \<Rightarrow> map_option Some (str_slice t (i + 1) (length t))
      | None \<Rightarrow> Some None)"

definition connection_has_token :: "head \<Rightarrow> bytes \<Rightarrow> bool" where
  "connection_has_token h token \<longleftrightarrow>
     list_ex (\<lambda>v. value_has_token v token) (all_values h Connection)"

definition is_keep_alive :: "head \<Rightarrow> bool" where
  "is_keep_alive h =
     (case head_version h of
        Http11 \<Rightarrow> \<not> connection_has_token h ''close''
      | Http10 \<Rightarrow> connection_has_token h ''keep-alive'')"

section \<open>The invariant\<close>

definition head_wf :: "head \<Rightarrow> bool" where
  "head_wf h \<longleftrightarrow> byte_str_ok (head_target h)
     \<and> query_at h = find_query (head_target h)
     \<and> authority_at h = find_absolute_authority (as_bytes (head_target h))"

lemma head_new_wf: "byte_str_ok t \<Longrightarrow> head_wf (head_new m t v hs)"
  by (simp add: head_wf_def head_new_def)

lemma set_target_wf: "byte_str_ok t \<Longrightarrow> head_wf (set_target h t)"
  by (simp add: head_wf_def set_target_def)

lemma head_wfD:
  assumes "head_wf h"
  shows "utf8_valid (as_bytes (head_target h))"
    and "as_str (head_target h) = as_bytes (head_target h)"
    and "find_query (head_target h) = query_at h"
    and "find_absolute_authority (as_bytes (head_target h)) = authority_at h"
  using assms by (auto simp: head_wf_def byte_str_ok_def as_str_def)

lemma head_new_simps [simp]:
  "head_method (head_new m t v hs) = m"
  "head_target (head_new m t v hs) = t"
  "head_version (head_new m t v hs) = v"
  "head_headers (head_new m t v hs) = hs"
  by (simp_all add: head_new_def)

lemma find_absolute_authority_Some:
  assumes "find_absolute_authority t = Some (s, e)"
  obtains i where "s = i + 3" "prefix ''://'' (drop i t)" "valid_scheme (take i t)"
    "s \<le> e" "e \<le> length t" "i + 3 \<le> length t"
    "e < length t \<Longrightarrow> t ! e \<in> set ''/?#''"
    "\<forall>k. s \<le> k \<and> k < e \<longrightarrow> t ! k \<notin> set ''/?#''"
proof -
  from assms obtain i where i: "find_sub ''://'' t = Some i" "valid_scheme (take i t)" "s = i + 3"
    and e: "e = (case position (\<lambda>b. b \<in> set ''/?#'') (drop s t) of None \<Rightarrow> length t | Some n \<Rightarrow> s + n)"
    by (auto simp: find_absolute_authority_def Let_def split: if_splits option.splits)
  from i(1) have p: "prefix ''://'' (drop i t)"
    by (simp add: find_sub_Some_iff)
  then have len: "i + 3 \<le> length t"
    by (auto dest!: prefix_length_le)
  show thesis
  proof (cases "position (\<lambda>b. b \<in> set ''/?#'') (drop s t)")
    case None
    with e have [simp]: "e = length t" by simp
    from None have "\<forall>b \<in> set (drop s t). b \<notin> set ''/?#''"
      by (simp only: position_None_iff)
    then have "t ! k \<notin> set ''/?#''" if "s \<le> k" "k < e" for k
      using that nth_mem [of "k - s" "drop s t"] by simp
    with that i p len show thesis by simp
  next
    case (Some n)
    with e have [simp]: "e = s + n" by simp
    from Some have n: "n < length (drop s t)" "drop s t ! n \<in> set ''/?#''"
      "\<forall>j < n. drop s t ! j \<notin> set ''/?#''"
      by (simp only: position_Some_iff; simp)+
    have "t ! k \<notin> set ''/?#''" if "s \<le> k" "k < e" for k
      using n(3) [rule_format, of "k - s"] that n(1) by simp
    with that i p len n show thesis by simp
  qed
qed

lemma find_query_Some_iff:
  "find_query t = Some q \<longleftrightarrow> q < length (as_bytes t) \<and> as_bytes t ! q = CHR ''?''
     \<and> (\<forall>j < q. as_bytes t ! j \<noteq> CHR ''?'')"
  by (simp add: find_query_def position_Some_iff)

lemma prefix_drop_nth:
  assumes "prefix p (drop i t)" and "k < length p"
  shows "t ! (i + k) = p ! k"
proof -
  from assms obtain r where r: "drop i t = p @ r" by (auto simp: prefix_def)
  with assms(2) have "i \<le> length t" by (cases "i \<le> length t") auto
  then have "t ! (i + k) = drop i t ! k" by simp
  with r assms(2) show ?thesis by (simp add: nth_append)
qed

lemma authority_boundaries:
  assumes "utf8_valid t" and "find_absolute_authority t = Some (s, e)"
  shows "is_char_boundary t s" "is_char_boundary t e" "is_char_boundary t (s - 3)"
    "s \<le> e" "3 \<le> s" "e \<le> length t"
proof -
  from assms(2) obtain i where i: "s = i + 3" "prefix ''://'' (drop i t)" "s \<le> e" "e \<le> length t"
      "i + 3 \<le> length t" and e: "e < length t \<Longrightarrow> t ! e \<in> set ''/?#''"
    by (rule find_absolute_authority_Some) blast
  have c: "t ! i = CHR '':''" "t ! (i + 2) = CHR ''/''"
    using prefix_drop_nth [OF i(2), of 0] prefix_drop_nth [OF i(2), of 2] by simp_all
  show "is_char_boundary t (s - 3)"
    using utf8_valid_after_ascii(1) [OF assms(1), of i] i c by (simp add: is_ascii_def)
  show "is_char_boundary t s"
    using utf8_valid_after_ascii(2) [OF assms(1), of "i + 2"] i c
    by (simp add: is_ascii_def numeral_3_eq_3)
  show "is_char_boundary t e"
  proof (cases "e < length t")
    case True
    with e have "is_ascii (t ! e)" by (auto simp: is_ascii_def)
    with True show ?thesis by (simp add: utf8_valid_after_ascii(1) assms(1))
  next
    case False
    with i show ?thesis by simp
  qed
  show "s \<le> e" "3 \<le> s" "e \<le> length t"
    using i by simp_all
qed

lemma query_boundaries:
  assumes "utf8_valid (as_bytes t)" and "find_query t = Some q"
  shows "is_char_boundary (as_bytes t) q" "is_char_boundary (as_bytes t) (Suc q)"
    "q < length (as_bytes t)"
  using assms utf8_valid_after_ascii [of "as_bytes t" q]
  by (simp_all add: find_query_Some_iff is_ascii_def)

text \<open>The accessors of a well-formed head, without the panic.\<close>

lemma absolute_scheme_eq:
  assumes "head_wf h"
  shows "absolute_scheme h =
    Some (map_option (\<lambda>(s, _). take (s - 3) (as_bytes (head_target h))) (authority_at h))"
proof (cases "authority_at h")
  case (Some se)
  obtain s e where se: "se = (s, e)" by (cases se)
  note wf = head_wfD [OF assms]
  from authority_boundaries [OF wf(1)] wf(4) Some se show ?thesis
    by (simp add: absolute_scheme_def str_slice_Some wf(2))
qed (simp add: absolute_scheme_def)

lemma authority_absolute:
  assumes "head_wf h" and "authority_at h = Some (s, e)"
  shows "authority h = Some (Some (take (e - s) (drop s (as_bytes (head_target h)))))"
proof -
  note wf = head_wfD [OF assms(1)]
  from authority_boundaries [OF wf(1)] wf(4) assms(2) show ?thesis
    by (simp add: authority_def str_slice_Some wf(2))
qed

lemma query_eq:
  assumes "head_wf h"
  shows "query h = Some (map_option (\<lambda>q. drop (Suc q) (as_bytes (head_target h))) (query_at h))"
proof (cases "query_at h")
  case (Some q)
  note wf = head_wfD [OF assms]
  from query_boundaries [OF wf(1)] wf(3) Some show ?thesis
    by (simp add: query_def str_slice_Some wf(2))
qed (simp add: query_def)

lemma path_eq:
  assumes "head_wf h"
  shows "path h =
    (let t = as_bytes (head_target h);
         e = (case query_at h of Some q \<Rightarrow> q | None \<Rightarrow> length t)
     in case authority_at h of
          Some (_, p) \<Rightarrow> Some (if p < e then take (e - p) (drop p t) else ''/'')
        | None \<Rightarrow> Some (take e t))"
proof -
  define t where "t = as_bytes (head_target h)"
  define e where "e = (case query_at h of Some q \<Rightarrow> q | None \<Rightarrow> length t)"
  note wf = head_wfD [OF assms]
  have t: "as_str (head_target h) = t"
    by (simp add: wf(2) t_def)
  have e: "is_char_boundary t e"
    using query_boundaries(1) [OF wf(1)] wf(3) by (auto simp: e_def t_def split: option.splits)
  have a: "is_char_boundary t p" if "authority_at h = Some (s, p)" for s p
    using authority_boundaries(2) [OF wf(1)] wf(4) that by (simp add: t_def)
  have "path h = (case authority_at h of
      Some (_, p) \<Rightarrow> if p < e then str_slice t p e else Some ''/'' | None \<Rightarrow> str_slice t 0 e)"
    unfolding path_def Let_def t e_def ..
  then show ?thesis
    unfolding Let_def t_def [symmetric] e_def [symmetric]
    using a e by (auto simp: str_slice_Some split: option.splits)
qed

lemma accessors_total:
  assumes "head_wf h"
  shows "path h \<noteq> None \<and> query h \<noteq> None \<and> authority h \<noteq> None \<and> absolute_scheme h \<noteq> None"
proof -
  have "authority h \<noteq> None"
    using authority_absolute [OF assms] by (cases "authority_at h") (auto simp: authority_def)
  moreover have "path h \<noteq> None"
    by (auto simp: path_eq [OF assms] Let_def split: option.splits)
  ultimately show ?thesis
    by (simp add: query_eq [OF assms] absolute_scheme_eq [OF assms])
qed

text \<open>A target that is not in absolute form is its path and, after the first \<^verbatim>\<open>?\<close>, its query.\<close>

lemma target_path_query:
  assumes "head_wf h" and "authority_at h = None" and "path h = Some p" and "query h = Some q"
  shows "as_bytes (head_target h) = p @ (case q of None \<Rightarrow> [] | Some s \<Rightarrow> CHR ''?'' # s)"
proof (cases "query_at h")
  case None
  with assms show ?thesis by (auto simp: path_eq query_eq)
next
  case (Some i)
  with assms have "i < length (as_bytes (head_target h))" "as_bytes (head_target h) ! i = CHR ''?''"
    using head_wfD(3) [OF assms(1)] by (simp_all add: find_query_Some_iff)
  with Some assms show ?thesis
    by (auto simp: path_eq query_eq Let_def) (metis append_take_drop_id Cons_nth_drop_Suc)
qed

end
