(* ===== verification/H1_Limits.thy ===== *)
theory H1_Limits
  imports H1_Prelude
begin

text \<open>
  \<^verbatim>\<open>src/src/limits.rs\<close>: per-connection resource limits.  Durations are natural numbers of
  nanoseconds.
\<close>

type_synonym duration = nat

definition from_secs :: "nat \<Rightarrow> duration" where
  "from_secs n = n * 1000000000"

definition from_millis :: "nat \<Rightarrow> duration" where
  "from_millis n = n * 1000000"

definition MAX_HEADERS_CEILING :: nat where
  "MAX_HEADERS_CEILING = 128"

definition DEFAULT_MAX_CONNECTIONS_PER_WORKER :: nat where
  "DEFAULT_MAX_CONNECTIONS_PER_WORKER = 10000"

record limits =
  max_head_bytes :: nat
  max_headers :: nat
  max_body_bytes :: nat
  header_timeout :: duration
  body_timeout :: duration
  handler_timeout :: "duration option"
  idle_timeout :: duration
  write_timeout :: duration
  max_connections :: nat

definition clamp_max_headers :: "limits \<Rightarrow> limits" where
  "clamp_max_headers l =
     (if max_headers l > MAX_HEADERS_CEILING then l\<lparr>max_headers := MAX_HEADERS_CEILING\<rparr> else l)"

definition default_limits :: limits where
  "default_limits =
    \<lparr>max_head_bytes = 16 * 1024,
     max_headers = 96,
     max_body_bytes = 2 * 1024 * 1024,
     header_timeout = from_secs 10,
     body_timeout = from_secs 30,
     handler_timeout = None,
     idle_timeout = from_secs 75,
     write_timeout = from_secs 30,
     max_connections = DEFAULT_MAX_CONNECTIONS_PER_WORKER\<rparr>"

text \<open>What every \<^verbatim>\<open>Limits\<close> a connection is given satisfies: the fields fit their Rust types and the clamp ran.\<close>

definition limits_ok :: "limits \<Rightarrow> bool" where
  "limits_ok l \<longleftrightarrow> max_headers l \<le> MAX_HEADERS_CEILING \<and> max_body_bytes l < u64_range"

lemma clamp_max_headers_ok:
  "max_body_bytes l < u64_range \<Longrightarrow> limits_ok (clamp_max_headers l)"
  by (simp add: clamp_max_headers_def limits_ok_def)

lemma clamp_max_headers_frame:
  "max_headers (clamp_max_headers l) = min (max_headers l) MAX_HEADERS_CEILING \<and>
   clamp_max_headers l = l\<lparr>max_headers := max_headers (clamp_max_headers l)\<rparr>"
  by (simp add: clamp_max_headers_def)

lemma default_limits_ok: "limits_ok default_limits"
  by (simp add: limits_ok_def default_limits_def MAX_HEADERS_CEILING_def)

end
