(* ===== verification/H1_Parse.thy ===== *)
theory H1_Parse
  imports H1_Head H1_Limits
begin

text \<open>
  \<^verbatim>\<open>src/src/parse.rs\<close>: request head parsing in two independent passes, \<open>prescan\<close> and the
  tokenizer.  The tokenizer is the \<^verbatim>\<open>httparse\<close> crate, a parameter of the definitions that
  call it: a function from the length of the caller's header array and the bytes of the head
  to an error or a status with the request it filled in.  Nothing is assumed of it here;
  \<open>httparse_scratch_ok\<close> states the one documented fact a theorem below relies on.
\<close>

datatype parse_error =
    BareCr | BareLf | ObsFold | WhitespaceBeforeColon | InvalidHeaderName | InvalidRequestLine
  | InvalidMethod | NonUtf8Target | InvalidTarget | UnsupportedVersion | HeadTooLarge
  | TooManyHeaders

definition parse_error_status :: "parse_error \<Rightarrow> nat" where
  "parse_error_status e =
     (case e of
        HeadTooLarge \<Rightarrow> 431 | TooManyHeaders \<Rightarrow> 431
      | UnsupportedVersion \<Rightarrow> 505
      | _ \<Rightarrow> 400)"

section \<open>The tokenizer's interface\<close>

datatype httparse_error =
    HpHeaderName | HpHeaderValue | HpNewLine | HpStatus | HpToken | HpTooManyHeaders | HpVersion

datatype httparse_status = Complete nat | Partial

record httparse_request =
  req_method :: "bytes option"
  req_path :: "bytes option"
  req_version :: "nat option"
  req_headers :: "(bytes \<times> bytes) list"

type_synonym httparse = "nat \<Rightarrow> bytes \<Rightarrow> httparse_error + (httparse_status \<times> httparse_request)"

section \<open>Finding and checking the head\<close>

definition begins_request :: "bytes \<Rightarrow> bool" where
  "begins_request s \<longleftrightarrow> list_ex (\<lambda>b. b \<noteq> CR \<and> b \<noteq> LF) s"

definition find_head_end :: "bytes \<Rightarrow> nat option" where
  "find_head_end buf = map_option (\<lambda>i. i + 4) (find_sub (CRLF @ CRLF) buf)"

definition get_at :: "bytes \<Rightarrow> nat \<Rightarrow> byte option" where
  "get_at s i = (if i < length s then Some (s ! i) else None)"

text \<open>\<^verbatim>\<open>memchr_iter\<close>: every position of a byte, in order.\<close>

definition memchr_iter :: "byte \<Rightarrow> bytes \<Rightarrow> nat list" where
  "memchr_iter b s = filter (\<lambda>i. s ! i = b) [0..<length s]"

fun prescan_crs :: "bytes \<Rightarrow> nat list \<Rightarrow> parse_error + unit" where
  "prescan_crs head [] = Inr ()"
| "prescan_crs head (i # is) =
     (if get_at head (i + 1) \<noteq> Some LF then Inl BareCr
      else if get_at head (i + 2) \<in> {Some SP, Some HT} then Inl ObsFold
      else prescan_crs head is)"

fun prescan_lfs :: "bytes \<Rightarrow> nat list \<Rightarrow> parse_error + unit" where
  "prescan_lfs head [] = Inr ()"
| "prescan_lfs head (i # is) =
     (if i = 0 \<or> head ! (i - 1) \<noteq> CR then Inl BareLf else prescan_lfs head is)"

definition prescan :: "bytes \<Rightarrow> parse_error + unit" where
  "prescan head =
     bind_result (prescan_crs head (memchr_iter CR head))
       (\<lambda>_. prescan_lfs head (memchr_iter LF head))"

section \<open>The request target\<close>

definition uri_char :: "byte \<Rightarrow> bool" where
  "uri_char b \<longleftrightarrow>
     is_ascii_alphanumeric b \<or> b \<in> set ''-._~:/?[]@!$&()*+,;=%'' \<or> b = CHR 0x27"

definition target_byte_ok :: "bytes \<Rightarrow> nat \<Rightarrow> bool" where
  "target_byte_ok target i \<longleftrightarrow>
     (target ! i = CHR ''%'' \<longrightarrow>
        i + 3 \<le> length target \<and> is_ascii_hexdigit (target ! (i + 1))
        \<and> is_ascii_hexdigit (target ! (i + 2)))
     \<and> uri_char (target ! i)"

definition validate_target :: "bytes \<Rightarrow> parse_error + unit" where
  "validate_target target =
     (if target = [] then Inl InvalidTarget
      else if list_all (target_byte_ok target) [0..<length target] then Inr ()
      else Inl InvalidTarget)"

definition validate_target_form :: "bytes \<Rightarrow> http_method \<Rightarrow> parse_error + unit" where
  "validate_target_form target m =
     (if target = ''*'' then
        (if m = Options then Inr () else Inl InvalidTarget)
      else if m = Connect then
        (let has_scheme = (find_sub ''://'' target \<noteq> None);
             has_colon = (CHR '':'' \<in> set target)
         in if \<not> has_scheme \<and> has_colon \<and> \<not> prefix ''/'' target then Inr ()
            else Inl InvalidTarget)
      else if prefix ''/'' target then Inr ()
      else (case find_sub ''://'' target of
          Some i \<Rightarrow> if valid_scheme (take i target) then Inr () else Inl InvalidTarget
        | None \<Rightarrow> Inl InvalidTarget))"

definition validate_request_target :: "bytes \<Rightarrow> http_method \<Rightarrow> parse_error + unit" where
  "validate_request_target target m =
     bind_result (validate_target target) (\<lambda>_. validate_target_form target m)"

section \<open>Assembling the head\<close>

definition map_httparse :: "httparse_error \<Rightarrow> parse_error" where
  "map_httparse e =
     (case e of
        HpHeaderName \<Rightarrow> WhitespaceBeforeColon
      | HpVersion \<Rightarrow> UnsupportedVersion
      | HpToken \<Rightarrow> InvalidMethod
      | HpTooManyHeaders \<Rightarrow> TooManyHeaders
      | _ \<Rightarrow> InvalidRequestLine)"

definition parse_method :: "bytes \<Rightarrow> parse_error + http_method" where
  "parse_method token =
     (case method_from_bytes token of
        Some m \<Rightarrow> Inr m
      | None \<Rightarrow>
          if token = [] then Inl InvalidMethod
          else (case from_utf8 token of
              Inl _ \<Rightarrow> Inl InvalidMethod
            | Inr s \<Rightarrow> Inr (OtherMethod s)))"

definition parse_field_name :: "bytes \<Rightarrow> parse_error + header_id" where
  "parse_field_name name =
     (case header_from_bytes name of
        Some i \<Rightarrow> Inr i
      | None \<Rightarrow>
          (let lowered = (if list_ex is_ascii_uppercase name then lower name else name)
           in case from_utf8 lowered of
                Inl _ \<Rightarrow> Inl InvalidHeaderName
              | Inr s \<Rightarrow> Inr (OtherHeader s)))"

fun parse_fields :: "(bytes \<times> bytes) list \<Rightarrow> parse_error + header_vec" where
  "parse_fields [] = Inr []"
| "parse_fields ((name, val) # rest) =
     bind_result (parse_field_name name) (\<lambda>i.
       bind_result (parse_fields rest) (\<lambda>hs. Inr ((i, val) # hs)))"

definition finish_parse_head ::
    "httparse_status \<times> httparse_request \<Rightarrow> limits \<Rightarrow> parse_error + head" where
  "finish_parse_head parsed l =
     (case parsed of
        (Partial, _) \<Rightarrow> Inl InvalidRequestLine
      | (Complete _, req) \<Rightarrow>
          bind_result (ok_or (Option.bind (req_version req) version_from_httparse) UnsupportedVersion)
            (\<lambda>v. bind_result (ok_or (req_method req) InvalidRequestLine)
            (\<lambda>method_token. bind_result (parse_method method_token)
            (\<lambda>m. bind_result (ok_or (req_path req) InvalidRequestLine)
            (\<lambda>target_token. bind_result (validate_request_target target_token m)
            (\<lambda>_. case from_utf8 target_token of
                Inl _ \<Rightarrow> Inl NonUtf8Target
              | Inr target \<Rightarrow>
                  if length (req_headers req) > max_headers l then Inl TooManyHeaders
                  else bind_result (parse_fields (req_headers req))
                    (\<lambda>hs. Inr (head_new m target v hs))))))))"

definition HEADER_SCRATCH_TIER1 :: nat where
  "HEADER_SCRATCH_TIER1 = 32"

definition parse_head_region ::
    "httparse \<Rightarrow> bytes \<Rightarrow> nat \<Rightarrow> limits \<Rightarrow> parse_error + head" where
  "parse_head_region hp buf head_len l =
     (if head_len > max_head_bytes l then Inl HeadTooLarge
      else
        (let region = take head_len buf in
         bind_result (prescan region) (\<lambda>_.
           case hp HEADER_SCRATCH_TIER1 region of
             Inr parsed \<Rightarrow> finish_parse_head parsed l
           | Inl e \<Rightarrow>
               if e = HpTooManyHeaders \<and> max_headers l > HEADER_SCRATCH_TIER1 then
                 (case hp MAX_HEADERS_CEILING region of
                    Inl e' \<Rightarrow> Inl (map_httparse e')
                  | Inr parsed \<Rightarrow> finish_parse_head parsed l)
               else Inl (map_httparse e))))"

definition parse_head :: "httparse \<Rightarrow> bytes \<Rightarrow> limits \<Rightarrow> parse_error + (head \<times> nat) option" where
  "parse_head hp buf l =
     (case find_head_end buf of
        None \<Rightarrow> if length buf > max_head_bytes l then Inl HeadTooLarge else Inr None
      | Some head_len \<Rightarrow>
          bind_result (parse_head_region hp buf head_len l) (\<lambda>h. Inr (Some (h, head_len))))"

section \<open>Line endings\<close>

text \<open>
  A single-pass reference for the two vectorized scans: line endings are exactly CRLF, and no
  line but the first starts with SP or HTAB.
\<close>

fun strict_lines :: "bytes \<Rightarrow> bool" where
  "strict_lines [] = True"
| "strict_lines (b # s) =
     (if b = CR then
        (case s of
           c # r \<Rightarrow> c = LF \<and> (case r of d # _ \<Rightarrow> d \<noteq> SP \<and> d \<noteq> HT | [] \<Rightarrow> True) \<and> strict_lines r
         | [] \<Rightarrow> False)
      else b \<noteq> LF \<and> strict_lines s)"

definition crlf_at :: "bytes \<Rightarrow> nat \<Rightarrow> bool" where
  "crlf_at h i \<longleftrightarrow>
     (h ! i = CR \<longrightarrow> get_at h (Suc i) = Some LF \<and> get_at h (Suc (Suc i)) \<notin> {Some SP, Some HT})
     \<and> (h ! i = LF \<longrightarrow> i \<noteq> 0 \<and> h ! (i - 1) = CR)"

lemma set_memchr_iter: "set (memchr_iter b s) = {i. i < length s \<and> s ! i = b}"
  by (auto simp: memchr_iter_def)

lemma prescan_crs_iff:
  "prescan_crs h is = Inr () \<longleftrightarrow>
     (\<forall>i \<in> set is. get_at h (Suc i) = Some LF \<and> get_at h (Suc (Suc i)) \<notin> {Some SP, Some HT})"
  by (induction h "is" rule: prescan_crs.induct) (auto simp: numeral_2_eq_2)

lemma prescan_lfs_iff:
  "prescan_lfs h is = Inr () \<longleftrightarrow> (\<forall>i \<in> set is. i \<noteq> 0 \<and> h ! (i - 1) = CR)"
  by (induction h "is" rule: prescan_lfs.induct) auto

lemma prescan_index_iff: "prescan h = Inr () \<longleftrightarrow> (\<forall>i < length h. crlf_at h i)"
  by (auto simp: prescan_def return_iff prescan_crs_iff prescan_lfs_iff set_memchr_iter crlf_at_def)

lemma get_at_Cons [simp]:
  "get_at (x # xs) 0 = Some x"
  "get_at (x # xs) (Suc i) = get_at xs i"
  "get_at [] i = None"
  by (simp_all add: get_at_def)

lemma crlf_at_skip1:
  "x \<noteq> CR \<Longrightarrow> (\<forall>i < length xs. crlf_at (x # xs) (Suc i)) \<longleftrightarrow> (\<forall>i < length xs. crlf_at xs i)"
  by (rule all_cong1, rename_tac i, case_tac i) (auto simp: crlf_at_def)

lemma strict_lines_index_iff: "strict_lines h \<longleftrightarrow> (\<forall>i < length h. crlf_at h i)"
proof (induction h rule: strict_lines.induct)
  case 1
  then show ?case by simp
next
  case (2 b s)
  show ?case
  proof (cases "b = CR")
    case False
    have "crlf_at (b # s) 0 \<longleftrightarrow> b \<noteq> LF"
      using False by (auto simp: crlf_at_def)
    with False 2(2) show ?thesis
      by (simp add: All_less_Suc2 crlf_at_skip1)
  next
    case True
    show ?thesis
    proof (cases s)
      case Nil
      with True show ?thesis by (simp add: crlf_at_def)
    next
      case (Cons c r)
      have "crlf_at (b # s) 0 \<longleftrightarrow> c = LF \<and> (case r of d # _ \<Rightarrow> d \<noteq> SP \<and> d \<noteq> HT | [] \<Rightarrow> True)"
        using True Cons by (cases r) (auto simp: crlf_at_def)
      moreover have "crlf_at (b # s) (Suc 0)" if "c = LF"
        using True Cons that by (simp add: crlf_at_def)
      moreover have "(\<forall>i < length r. crlf_at (b # s) (Suc (Suc i))) \<longleftrightarrow> (\<forall>i < length r. crlf_at r i)"
        if "c = LF"
        using Cons that True
        by (intro all_cong1, rename_tac i, case_tac i) (auto simp: crlf_at_def)
      ultimately show ?thesis
        using True Cons 2(1) [OF True Cons] by (auto simp: All_less_Suc2)
    qed
  qed
qed

lemma prescan_strict_lines: "prescan h = Inr () \<longleftrightarrow> strict_lines h"
  by (simp add: prescan_index_iff strict_lines_index_iff)

section \<open>The target\<close>

text \<open>The grammar the index loop of \<open>validate_target\<close> accepts: URI characters, every \<^verbatim>\<open>%\<close> a complete percent-encoding.\<close>

fun uri_chars :: "bytes \<Rightarrow> bool" where
  "uri_chars [] = True"
| "uri_chars (b # s) =
     (if b = CHR ''%'' then
        (case s of
           c # d # r \<Rightarrow> is_ascii_hexdigit c \<and> is_ascii_hexdigit d \<and> uri_chars r
         | _ \<Rightarrow> False)
      else uri_char b \<and> uri_chars s)"

lemma hexdigit_uri_char: "is_ascii_hexdigit b \<Longrightarrow> uri_char b \<and> b \<noteq> CHR ''%''"
  by (auto simp: uri_char_def ascii_defs)

lemma target_byte_ok_Cons [simp]:
  "target_byte_ok (b # s) (Suc i) = target_byte_ok s i"
  by (simp add: target_byte_ok_def add.commute)

lemma target_byte_ok_0:
  "target_byte_ok (b # s) 0 \<longleftrightarrow>
     (b = CHR ''%'' \<longrightarrow> (\<exists>c d r. s = c # d # r \<and> is_ascii_hexdigit c \<and> is_ascii_hexdigit d))
     \<and> uri_char b"
  by (cases s; cases "tl s") (auto simp: target_byte_ok_def)

lemma uri_chars_index_iff: "uri_chars t \<longleftrightarrow> (\<forall>i < length t. target_byte_ok t i)"
proof (induction t rule: uri_chars.induct)
  case 1
  then show ?case by simp
next
  case (2 b s)
  show ?case
  proof (cases "b = CHR ''%''")
    case False
    with 2(2) show ?thesis by (auto simp: All_less_Suc2 target_byte_ok_0)
  next
    case True
    have pct: "uri_char (CHR ''%'')" by (simp add: uri_char_def)
    show ?thesis
    proof (cases "\<exists>c d r. s = c # d # r \<and> is_ascii_hexdigit c \<and> is_ascii_hexdigit d")
      case False
      with True show ?thesis
        by (auto simp: All_less_Suc2 target_byte_ok_0 split: list.splits)
    next
      case hex: True
      then obtain c d r where s: "s = c # d # r" and cd: "is_ascii_hexdigit c" "is_ascii_hexdigit d"
        by blast
      have "target_byte_ok (c # d # r) 0" "target_byte_ok (d # r) 0"
        using cd hexdigit_uri_char by (auto simp: target_byte_ok_0)
      with 2(1) [OF True s] True s cd pct show ?thesis
        by (auto simp: All_less_Suc2 target_byte_ok_0)
    qed
  qed
qed

lemma validate_target_iff: "validate_target t = Inr () \<longleftrightarrow> t \<noteq> [] \<and> uri_chars t"
  by (auto simp: validate_target_def uri_chars_index_iff list_all_iff)

lemma uri_chars_all: "uri_chars t \<Longrightarrow> \<forall>b \<in> set t. uri_char b"
  by (auto simp: uri_chars_index_iff target_byte_ok_def in_set_conv_nth)

lemma uri_char_ascii: "uri_char b \<Longrightarrow> is_ascii b \<and> b \<noteq> CHR ''#'' \<and> b \<noteq> SP \<and> b \<noteq> CR \<and> b \<noteq> LF"
  by (auto simp: uri_char_def ascii_defs)

lemma validate_request_target_ok:
  "validate_request_target t m = Inr () \<longleftrightarrow>
     t \<noteq> [] \<and> uri_chars t \<and> validate_target_form t m = Inr ()"
  by (auto simp: validate_request_target_def return_iff validate_target_iff)

lemma valid_target_utf8: "validate_request_target t m = Inr () \<Longrightarrow> utf8_valid t"
  using uri_chars_all uri_char_ascii by (auto simp: validate_request_target_ok intro!: utf8_valid_ascii)

lemma origin_form_path:
  assumes wf: "head_wf h" and t: "as_bytes (head_target h) = CHR ''/'' # r"
  shows "\<exists>p. path h = Some (CHR ''/'' # p)"
proof -
  have "authority_at h = None"
    using head_wfD(4) [OF wf] t by (simp add: find_absolute_authority_def)
  moreover have "query_at h \<noteq> Some 0"
    using head_wfD(3) [OF wf] t by (auto simp: find_query_Some_iff dest: sym)
  ultimately show ?thesis
    using t by (auto simp: path_eq [OF wf] Let_def take_Cons' split: option.splits)
qed

lemma absolute_form_path:
  assumes wf: "head_wf h" and a: "authority_at h = Some (s, e)"
    and u: "uri_chars (as_bytes (head_target h))"
  shows "\<exists>p. path h = Some (CHR ''/'' # p)"
proof -
  define t where "t = as_bytes (head_target h)"
  define q where "q = (case query_at h of Some q \<Rightarrow> q | None \<Rightarrow> length t)"
  have "find_absolute_authority t = Some (s, e)"
    using head_wfD(4) [OF wf] a t_def by simp
  then have e: "e \<le> length t" "e < length t \<Longrightarrow> t ! e \<in> set ''/?#''"
    by (auto elim: find_absolute_authority_Some)
  have q: "q \<le> length t" "\<And>j. j < q \<Longrightarrow> t ! j \<noteq> CHR ''?''"
    using head_wfD(3) [OF wf]
    by (auto simp: q_def t_def find_query_def position_None_iff position_Some_iff split: option.splits)
  have "\<exists>p. take (q - e) (drop e t) = CHR ''/'' # p" if "e < q"
  proof -
    from that q(1) have lt: "e < length t" by simp
    have "t ! e \<noteq> CHR ''#''"
      using uri_chars_all [OF u] uri_char_ascii lt t_def nth_mem by blast
    with e(2) [OF lt] q(2) [OF that] have "t ! e = CHR ''/''" by simp
    with lt that show ?thesis by (simp add: take_Cons' Cons_nth_drop_Suc [symmetric])
  qed
  then show ?thesis
    using a by (simp add: path_eq [OF wf] Let_def t_def [symmetric] q_def [symmetric])
qed

lemma valid_target_forms:
  assumes "validate_request_target t m = Inr ()" and "m \<noteq> Connect" and "t \<noteq> ''*''"
  shows "(\<exists>r. t = CHR ''/'' # r) \<or> (\<exists>se. find_absolute_authority t = Some se)"
proof -
  from assms have "prefix ''/'' t \<or> (\<exists>i. find_sub ''://'' t = Some i \<and> valid_scheme (take i t))"
    by (auto simp: validate_request_target_ok validate_target_form_def split: if_splits option.splits)
  then show ?thesis
  proof
    assume "prefix ''/'' t"
    then show ?thesis by (auto simp: prefix_def)
  next
    assume "\<exists>i. find_sub ''://'' t = Some i \<and> valid_scheme (take i t)"
    then obtain i where i: "find_sub ''://'' t = Some i" "valid_scheme (take i t)" by blast
    then obtain b r where "take i t = b # r" "is_ascii_alphabetic b"
      by (auto simp: valid_scheme_def split: list.splits)
    then have "t \<noteq> []" "hd t = b" "hd t \<notin> set ''/*''"
      by (cases t; cases i; auto simp: ascii_defs)+
    with i show ?thesis by (auto simp: find_absolute_authority_def Let_def)
  qed
qed

section \<open>The parsed head\<close>

lemma parse_field_name_intern:
  "parse_field_name name = Inr i \<Longrightarrow> i = intern name \<and> header_ok i"
  by (auto simp: parse_field_name_def intern_def from_utf8_iff byte_str_from_str_def Let_def
      list_ex_iff split: option.splits sum.splits if_splits dest: header_from_bytes_SomeD)

lemma parse_fields_intern:
  "parse_fields fs = Inr hs \<Longrightarrow> hs = map (\<lambda>(n, v). (intern n, v)) fs \<and> list_all (header_ok \<circ> fst) hs"
  by (induction fs arbitrary: hs rule: parse_fields.induct)
     (auto simp: return_iff dest!: parse_field_name_intern)

text \<open>What a successful parse of a request guarantees, whatever the tokenizer returned.\<close>

definition parsed_head_ok :: "limits \<Rightarrow> httparse_request \<Rightarrow> head \<Rightarrow> bool" where
  "parsed_head_ok l req h \<longleftrightarrow>
     head_wf h
     \<and> req_path req = Some (as_bytes (head_target h))
     \<and> validate_request_target (as_bytes (head_target h)) (head_method h) = Inr ()
     \<and> head_headers h = map (\<lambda>(n, v). (intern n, v)) (req_headers req)
     \<and> length (head_headers h) \<le> max_headers l
     \<and> list_all (header_ok \<circ> fst) (head_headers h)"

lemma finish_parse_head_ok:
  assumes "finish_parse_head parsed l = Inr h"
  shows "\<exists>n req. parsed = (Complete n, req) \<and> parsed_head_ok l req h"
proof -
  obtain st req where p: "parsed = (st, req)" by (cases parsed)
  with assms obtain n where st: "st = Complete n"
    by (cases st) (auto simp: finish_parse_head_def)
  from assms p st obtain v mt m tt hs where
    "req_path req = Some tt" "validate_request_target tt m = Inr ()" "utf8_valid tt"
    "length (req_headers req) \<le> max_headers l" "parse_fields (req_headers req) = Inr hs"
    "h = head_new m (ByteStr tt) v hs"
    by (auto simp: finish_parse_head_def return_iff from_utf8_def not_less split: if_splits)
  moreover from this parse_fields_intern have "hs = map (\<lambda>(n, v). (intern n, v)) (req_headers req)"
    "list_all (header_ok \<circ> fst) hs" by blast+
  ultimately have "parsed_head_ok l req h"
    by (simp add: parsed_head_ok_def head_new_wf)
  with p st show ?thesis by blast
qed

lemma parse_head_region_ok:
  assumes "parse_head_region hp buf n l = Inr h"
  shows "n \<le> max_head_bytes l \<and> strict_lines (take n buf) \<and>
    (\<exists>k m req. k \<in> {HEADER_SCRATCH_TIER1, MAX_HEADERS_CEILING} \<and>
       hp k (take n buf) = Inr (Complete m, req) \<and> parsed_head_ok l req h)"
  using assms
  by (auto simp: parse_head_region_def Let_def return_iff prescan_strict_lines [symmetric]
      split: if_splits sum.splits dest!: finish_parse_head_ok)

text \<open>
  The documented effect of the header array: a parse that fits in it does not depend on its
  length, and one that does not fit reports \<^verbatim>\<open>TooManyHeaders\<close>.
\<close>

definition httparse_scratch_ok :: "httparse \<Rightarrow> bool" where
  "httparse_scratch_ok hp \<longleftrightarrow>
     (\<forall>n m s. n \<le> m \<longrightarrow> hp n s \<noteq> Inl HpTooManyHeaders \<longrightarrow> hp m s = hp n s)"

definition parse_head_region_single ::
    "httparse \<Rightarrow> bytes \<Rightarrow> nat \<Rightarrow> limits \<Rightarrow> parse_error + head" where
  "parse_head_region_single hp buf head_len l =
     (if head_len > max_head_bytes l then Inl HeadTooLarge
      else bind_result (prescan (take head_len buf)) (\<lambda>_.
        case hp MAX_HEADERS_CEILING (take head_len buf) of
          Inl e \<Rightarrow> Inl (map_httparse e)
        | Inr parsed \<Rightarrow> finish_parse_head parsed l))"

lemma parse_head_region_tiers:
  assumes "httparse_scratch_ok hp" and "HEADER_SCRATCH_TIER1 < max_headers l"
  shows "parse_head_region hp buf n l = parse_head_region_single hp buf n l"
proof (cases "hp HEADER_SCRATCH_TIER1 (take n buf) = Inl HpTooManyHeaders")
  case True
  with assms show ?thesis
    by (auto simp: parse_head_region_def parse_head_region_single_def Let_def)
next
  case False
  then have "hp MAX_HEADERS_CEILING (take n buf) = hp HEADER_SCRATCH_TIER1 (take n buf)"
    using assms(1) by (simp add: httparse_scratch_ok_def HEADER_SCRATCH_TIER1_def MAX_HEADERS_CEILING_def)
  with False show ?thesis
    by (auto simp: parse_head_region_def parse_head_region_single_def Let_def split: sum.splits
        intro!: arg_cong [where f = "bind_result (prescan (take n buf))"])
qed

section \<open>Heads built from lines\<close>

text \<open>A head written line by line, and what this crate's own scans make of it.\<close>

definition head_lines :: "bytes list \<Rightarrow> bytes" where
  "head_lines ls = concat (map (\<lambda>l. l @ CRLF) ls)"

definition line_ok :: "bytes \<Rightarrow> bool" where
  "line_ok l \<longleftrightarrow> l \<noteq> [] \<and> hd l \<noteq> SP \<and> hd l \<noteq> HT \<and> CR \<notin> set l \<and> LF \<notin> set l"

lemma head_lines_simps [simp]:
  "head_lines [] = []"
  "head_lines (l # ls) = l @ CRLF @ head_lines ls"
  "head_lines (ls @ ks) = head_lines ls @ head_lines ks"
  by (simp_all add: head_lines_def)

lemma find_sub_skip:
  assumes "c \<notin> set l"
  shows "find_sub (c # p) (l @ s) = map_option (\<lambda>i. length l + i) (find_sub (c # p) s)"
  using assms
proof (induction l)
  case Nil
  then show ?case by (cases "find_sub (c # p) s") auto
next
  case (Cons b l)
  then show ?case by (cases "find_sub (c # p) s") auto
qed

lemma find_head_end_lines:
  assumes "ls \<noteq> []" and "\<forall>l \<in> set ls. line_ok l"
  shows "find_head_end (head_lines ls @ CRLF @ rest) = Some (length (head_lines ls) + 2)"
proof -
  have "find_sub (CRLF @ CRLF) (head_lines ls @ CRLF @ rest) = Some (length (head_lines ls) - 2)"
    using assms
  proof (induction ls rule: list_nonempty_induct)
    case (single l)
    then show ?case using find_sub_skip [of CR l "[LF, CR, LF]" "CRLF @ CRLF @ rest"]
      by (simp add: line_ok_def)
  next
    case (cons l ls)
    obtain k ks where ls: "ls = k # ks" using cons(1) by (cases ls) auto
    with cons obtain c k' where k: "k = c # k'" "c \<noteq> CR" by (cases k) (auto simp: line_ok_def)
    have "find_sub (CRLF @ CRLF) (l @ CRLF @ head_lines ls @ CRLF @ rest) =
        map_option (\<lambda>i. length l + 2 + i) (find_sub (CRLF @ CRLF) (head_lines ls @ CRLF @ rest))"
      using find_sub_skip [of CR l "[LF, CR, LF]" "CRLF @ head_lines ls @ CRLF @ rest"] cons(3) k(2)
      by (cases "find_sub (CRLF @ CRLF) (head_lines ls @ CRLF @ rest)")
         (auto simp: line_ok_def ls k(1) option.map_comp comp_def)
    with cons show ?case by (simp add: ls)
  qed
  moreover have "2 \<le> length (head_lines ls)" using assms(1) by (cases ls) simp_all
  ultimately show ?thesis by (simp add: find_head_end_def)
qed

lemma strict_lines_line:
  "CR \<notin> set l \<Longrightarrow> LF \<notin> set l \<Longrightarrow> strict_lines (l @ s) \<longleftrightarrow> strict_lines s"
  by (induction l) auto

lemma strict_lines_head_lines:
  "\<forall>l \<in> set ls. line_ok l \<Longrightarrow> strict_lines (head_lines ls @ CRLF)"
proof (induction ls)
  case (Cons l ls)
  have "case head_lines ls @ CRLF of d # _ \<Rightarrow> d \<noteq> SP \<and> d \<noteq> HT | [] \<Rightarrow> True"
    using Cons(2) by (cases ls) (auto simp: line_ok_def split: list.splits, (metis hd_append2 list.sel(1))+)
  with Cons show ?case
    using strict_lines_line [of l "CRLF @ head_lines ls @ CRLF"] by (simp add: line_ok_def)
qed simp

section \<open>What parsing promises\<close>

text \<open>
  A tokenizer for the witnesses: it accepts the one request line \<^verbatim>\<open>GET /a?b HTTP/1.1\<close> with a
  \<^verbatim>\<open>Host\<close> field, and reports the header array as too short when it has no slot.
\<close>

definition sample_region :: bytes where
  "sample_region = ''GET /a?b HTTP/1.1'' @ CRLF @ ''Host: x'' @ CRLF @ CRLF"

definition sample_httparse :: httparse where
  "sample_httparse n s =
     (if s = sample_region then
        (if n = 0 then Inl HpTooManyHeaders
         else Inr (Complete (length s),
           \<lparr>req_method = Some ''GET'', req_path = Some ''/a?b'', req_version = Some 1,
            req_headers = [(''Host'', ''x'')]\<rparr>))
      else Inl HpToken)"

lemma sample_parses: "\<exists>h. parse_head sample_httparse sample_region default_limits = Inr (Some (h, 30))"
proof -
  have "find_head_end sample_region = Some 30"
    by (simp add: sample_region_def find_head_end_def)
  moreover have "strict_lines sample_region"
    by (simp add: sample_region_def)
  then have "prescan sample_region = Inr ()"
    by (simp add: prescan_strict_lines)
  moreover have "take 30 sample_region = sample_region"
    by (simp add: sample_region_def)
  moreover have "validate_request_target ''/a?b'' Get = Inr ()"
    by (simp add: validate_request_target_ok validate_target_form_def uri_char_def ascii_defs)
  moreover have "method_from_bytes ''GET'' = Some Get" "header_from_bytes ''Host'' = Some Host"
    by code_simp+
  ultimately show ?thesis
    by (simp add: parse_head_def parse_head_region_def sample_httparse_def finish_parse_head_def
        version_from_httparse_def parse_method_def from_utf8_iff from_utf8_def utf8_valid_ascii
        is_ascii_def parse_field_name_def default_limits_def HEADER_SCRATCH_TIER1_def)
qed

text \<open>C13. Whatever the tokenizer reports, a head that parses fits the size limit, ends at the first
  blank line, has only CRLF line endings and no folded line, a target whose every byte is a URI
  character and every percent sign a complete escape, at most \<^verbatim>\<open>max_headers\<close> fields with
  canonical names, and offset caches that agree with its target.\<close>

theorem parse_head_sound:
  assumes "parse_head hp buf l = Inr (Some (h, n))"
  shows "find_head_end buf = Some n \<and> n \<le> max_head_bytes l \<and> strict_lines (take n buf)
    \<and> head_wf h \<and> as_bytes (head_target h) \<noteq> [] \<and> uri_chars (as_bytes (head_target h))
    \<and> length (head_headers h) \<le> max_headers l
    \<and> list_all (\<lambda>(i, _). canonical i = i \<and> header_ok i) (head_headers h)"
proof -
  from assms have n: "find_head_end buf = Some n" and r: "parse_head_region hp buf n l = Inr h"
    by (auto simp: parse_head_def return_iff split: option.splits if_splits)
  from parse_head_region_ok [OF r] obtain req where ok: "n \<le> max_head_bytes l"
      "strict_lines (take n buf)" "parsed_head_ok l req h" by blast
  then have "list_all (\<lambda>(i, _). canonical i = i \<and> header_ok i) (head_headers h)"
    by (fastforce simp: parsed_head_ok_def list_all_iff canonical_intern)
  with n ok show ?thesis
    by (auto simp: parsed_head_ok_def validate_request_target_ok)
qed

theorem parse_head_sound_witness:
  "\<exists>h. parse_head sample_httparse sample_region default_limits = Inr (Some (h, 30)) \<and> head_wf h"
proof -
  from sample_parses obtain h where "parse_head sample_httparse sample_region default_limits = Inr (Some (h, 30))"
    by blast
  with parse_head_sound [OF this] show ?thesis by blast
qed

text \<open>C23. The two vectorized passes over the head together accept exactly the heads a byte-by-byte
  reading accepts: every CR is followed by LF, every LF is preceded by CR, and no line but the
  first begins with a space or a tab.\<close>

theorem prescan_is_strict: "prescan h = Inr () \<longleftrightarrow> strict_lines h"
  by (rule prescan_strict_lines)

text \<open>C14. Every request that is not \<^verbatim>\<open>CONNECT\<close> and not \<^verbatim>\<open>OPTIONS *\<close> has, once parsed, a path that
  starts with a slash, in origin form and in absolute form alike; no accessor of the parsed head
  panics, and for a target that is not in absolute form path and query give the target back.\<close>

theorem parsed_path_starts_with_slash:
  assumes "parse_head hp buf l = Inr (Some (h, n))"
  shows "\<exists>p q a s. path h = Some p \<and> query h = Some q \<and> authority h = Some a
    \<and> absolute_scheme h = Some s
    \<and> (head_method h \<noteq> Connect \<and> as_bytes (head_target h) \<noteq> ''*'' \<longrightarrow> (\<exists>r. p = CHR ''/'' # r))
    \<and> (authority_at h = None \<longrightarrow>
         as_bytes (head_target h) = p @ (case q of None \<Rightarrow> [] | Some s \<Rightarrow> CHR ''?'' # s))"
proof -
  from assms have r: "parse_head_region hp buf n l = Inr h"
    by (auto simp: parse_head_def return_iff split: option.splits if_splits)
  from parse_head_region_ok [OF r] have wf: "head_wf h"
    and v: "validate_request_target (as_bytes (head_target h)) (head_method h) = Inr ()"
    by (auto simp: parsed_head_ok_def)
  from accessors_total [OF wf] obtain p q a s where acc: "path h = Some p" "query h = Some q"
    "authority h = Some a" "absolute_scheme h = Some s" by auto
  have "\<exists>r. p = CHR ''/'' # r" if "head_method h \<noteq> Connect" "as_bytes (head_target h) \<noteq> ''*''"
    using valid_target_forms [OF v that]
  proof
    assume "\<exists>r. as_bytes (head_target h) = CHR ''/'' # r"
    with origin_form_path [OF wf] acc(1) show ?thesis by auto
  next
    assume "\<exists>se. find_absolute_authority (as_bytes (head_target h)) = Some se"
    then obtain s e where "authority_at h = Some (s, e)" using head_wfD(4) [OF wf] by auto
    with absolute_form_path [OF wf] v acc(1) show ?thesis by (auto simp: validate_request_target_ok)
  qed
  with acc target_path_query [OF wf _ acc(1,2)] show ?thesis
    by (intro exI [of _ p] exI [of _ q] exI [of _ a] exI [of _ s]) simp
qed

theorem parsed_path_starts_with_slash_witness:
  "\<exists>h p. parse_head sample_httparse sample_region default_limits = Inr (Some (h, 30)) \<and> path h = Some p"
proof -
  from sample_parses obtain h where "parse_head sample_httparse sample_region default_limits = Inr (Some (h, 30))"
    by blast
  with parsed_path_starts_with_slash [OF this] show ?thesis by blast
qed

text \<open>The parser never asks for more input than the limit allows: it returns \<open>Ok(None)\<close>
  only for a buffer without a blank line that still fits \<^verbatim>\<open>max_head_bytes\<close>, and a head or a
  buffer over the limit is refused with \<^verbatim>\<open>HeadTooLarge\<close>, status 431.\<close>

lemma parse_head_bounded_buffering:
  "(parse_head hp buf l = Inr None \<longleftrightarrow>
      \<not> sublist (CRLF @ CRLF) buf \<and> length buf \<le> max_head_bytes l)
   \<and> (length buf > max_head_bytes l \<and> \<not> sublist (CRLF @ CRLF) buf \<longrightarrow>
        parse_head hp buf l = Inl HeadTooLarge)
   \<and> (find_head_end buf = Some n \<and> n > max_head_bytes l \<longrightarrow>
        parse_head hp buf l = Inl HeadTooLarge)
   \<and> parse_error_status HeadTooLarge = 431"
  using find_sub_None_iff [of "CRLF @ CRLF" buf]
  by (auto simp: parse_head_def find_head_end_def parse_head_region_def return_iff
      parse_error_status_def split: option.splits)

end
