(* ===== verification/H1_Digits.thy ===== *)
theory H1_Digits
  imports H1_Prelude
begin

text \<open>
  The interface between the crate's readers and writers of numbers.  \<open>positional\<close> collects what a
  checked digit-by-digit reader (\<^verbatim>\<open>parse_content_length\<close>, \<^verbatim>\<open>parse_len\<close>, the size loop of
  \<^verbatim>\<open>parse_chunk_size\<close>) and a least-significant-digit-first writer (\<^verbatim>\<open>write_u64\<close>, \<^verbatim>\<open>write_hex\<close>)
  promise, for any base, and derives from it the value a reader returns, when it refuses, that
  it reads back what the writer wrote, and how many bytes the writer needs.  It is interpreted
  in decimal and in hexadecimal by the theories that define those functions.
\<close>

locale positional =
  fixes base :: nat
    and digit :: "byte \<Rightarrow> nat option"
    and reader :: "nat \<Rightarrow> bytes \<Rightarrow> nat option"
    and digit_byte :: "nat \<Rightarrow> byte"
    and printer :: "nat \<Rightarrow> bytes"
  assumes base_ge: "2 \<le> base"
    and digit_less: "digit b = Some d \<Longrightarrow> d < base"
    and digit_digit_byte: "d < base \<Longrightarrow> digit (digit_byte d) = Some d"
    and reader_Nil: "reader acc [] = Some acc"
    and reader_Cons: "reader acc (b # bs) =
      Option.bind (digit b) (\<lambda>d. Option.bind (checked_mul_u64 acc base)
        (\<lambda>n. Option.bind (checked_add_u64 n d) (\<lambda>m. reader m bs)))"
    and printer_rec: "printer n =
      (if n < base then [digit_byte n] else printer (n div base) @ [digit_byte (n mod base)])"
begin

definition is_digits :: "bytes \<Rightarrow> bool" where
  "is_digits bs \<longleftrightarrow> (\<forall>b \<in> set bs. digit b \<noteq> None)"

definition digits_value :: "nat \<Rightarrow> bytes \<Rightarrow> nat" where
  "digits_value = foldl (\<lambda>acc b. acc * base + the (digit b))"

lemma digits_value_simps [simp]:
  "digits_value acc [] = acc"
  "digits_value acc (b # bs) = digits_value (acc * base + the (digit b)) bs"
  by (simp_all add: digits_value_def)

lemma digits_value_append: "digits_value acc (as @ bs) = digits_value (digits_value acc as) bs"
  by (simp add: digits_value_def)

lemma is_digits_simps [simp]:
  "is_digits []"
  "is_digits (b # bs) \<longleftrightarrow> digit b \<noteq> None \<and> is_digits bs"
  "is_digits (as @ bs) \<longleftrightarrow> is_digits as \<and> is_digits bs"
  by (auto simp: is_digits_def)

lemma digits_value_ge: "acc \<le> digits_value acc bs"
proof (induction bs arbitrary: acc)
  case (Cons b bs)
  have "acc \<le> acc * base" using base_ge by simp
  also have "\<dots> \<le> acc * base + the (digit b)" by simp
  also have "\<dots> \<le> digits_value acc (b # bs)" using Cons by simp
  finally show ?case .
qed simp

text \<open>The reader succeeds exactly on digit strings whose value fits, and returns that value.\<close>

lemma reader_iff:
  assumes "acc < u64_range"
  shows "reader acc bs = Some n \<longleftrightarrow> is_digits bs \<and> digits_value acc bs = n \<and> n < u64_range"
  using assms
proof (induction bs arbitrary: acc)
  case Nil
  then show ?case by (auto simp: reader_Nil)
next
  case (Cons b bs)
  show ?case
  proof (cases "digit b")
    case None
    then show ?thesis by (simp add: reader_Cons)
  next
    case (Some d)
    let ?v = "acc * base + d"
    show ?thesis
    proof (cases "?v < u64_range")
      case True
      then have "acc * base < u64_range" by simp
      with True Some Cons.IH [OF True] show ?thesis
        by (simp add: reader_Cons checked_mul_u64_def checked_add_u64_def)
    next
      case False
      then have "reader acc (b # bs) = None"
        using Some by (auto simp: reader_Cons checked_mul_u64_def checked_add_u64_def)
      moreover have "u64_range \<le> digits_value acc (b # bs)"
        using False digits_value_ge [of ?v bs] Some by (simp add: not_less)
      ultimately show ?thesis by auto
    qed
  qed
qed

lemma printer_digits: "is_digits (printer n) \<and> printer n \<noteq> [] \<and> digits_value 0 (printer n) = n"
proof (induction n rule: less_induct)
  case (less n)
  show ?case
  proof (cases "n < base")
    case True
    then show ?thesis by (subst (1 2 3) printer_rec) (simp add: digit_digit_byte)
  next
    case False
    then have "n div base < n" using base_ge by simp
    moreover have "n mod base < base" using base_ge by simp
    ultimately show ?thesis
      using less [of "n div base"] False
      by (subst (1 2 3) printer_rec) (simp add: digits_value_append digit_digit_byte)
  qed
qed

lemma reader_printer: "n < u64_range \<Longrightarrow> reader 0 (printer n) = Some n"
  using printer_digits [of n] by (simp add: reader_iff)

lemma printer_length: "n < base ^ Suc k \<Longrightarrow> length (printer n) \<le> Suc k"
proof (induction k arbitrary: n)
  case 0
  then show ?case by (subst printer_rec) simp
next
  case (Suc k)
  show ?case
  proof (cases "n < base")
    case True
    then show ?thesis by (subst printer_rec) simp
  next
    case False
    have "n div base < base ^ Suc k"
      using Suc.prems by (simp add: less_mult_imp_div_less mult.commute)
    with Suc.IH False show ?thesis by (subst printer_rec) simp
  qed
qed

lemma printer_set: "b \<in> set (printer n) \<Longrightarrow> \<exists>d < base. b = digit_byte d"
proof (induction n rule: less_induct)
  case (less n)
  show ?case
  proof (cases "n < base")
    case True
    with less.prems show ?thesis by (subst (asm) printer_rec) auto
  next
    case False
    then have "n div base < n" "n mod base < base" using base_ge by simp_all
    with less False show ?thesis by (subst (asm) (2) printer_rec) auto
  qed
qed

lemma printer_0: "printer n = [digit_byte 0] \<longleftrightarrow> n = 0"
proof
  assume "printer n = [digit_byte 0]"
  with printer_digits [of n] show "n = 0"
    using digit_digit_byte [of 0] base_ge by simp
next
  assume "n = 0"
  then show "printer n = [digit_byte 0]" using base_ge by (subst printer_rec) simp
qed

end

section \<open>The writers' digit loops\<close>

definition dec_digit :: "byte \<Rightarrow> nat option" where
  "dec_digit b = (if is_ascii_digit b then Some (byte_of b - 48) else None)"

definition dec_byte :: "nat \<Rightarrow> byte" where
  "dec_byte d = char_of (48 + d)"

text \<open>\<^verbatim>\<open>write_u64\<close> fills a scratch array from its end; the bytes it then appends are these.\<close>

fun dec_digits :: "nat \<Rightarrow> bytes" where
  "dec_digits n = (if n < 10 then [dec_byte n] else dec_digits (n div 10) @ [dec_byte (n mod 10)])"

declare dec_digits.simps [simp del]

definition hex_digit :: "byte \<Rightarrow> nat option" where
  "hex_digit b =
     (if is_ascii_digit b then Some (byte_of b - 48)
      else if 97 \<le> byte_of b \<and> byte_of b \<le> 102 then Some (byte_of b - 97 + 10)
      else if 65 \<le> byte_of b \<and> byte_of b \<le> 70 then Some (byte_of b - 65 + 10)
      else None)"

definition hex_byte :: "nat \<Rightarrow> byte" where
  "hex_byte d = ''0123456789abcdef'' ! d"

fun hex_digits :: "nat \<Rightarrow> bytes" where
  "hex_digits n = (if n < 16 then [hex_byte n] else hex_digits (n div 16) @ [hex_byte (n mod 16)])"

declare hex_digits.simps [simp del]

lemma dec_digit_dec_byte: "d < 10 \<Longrightarrow> dec_digit (dec_byte d) = Some d"
  by (simp add: dec_digit_def dec_byte_def ascii_defs)

lemma dec_digit_less: "dec_digit b = Some d \<Longrightarrow> d < 10"
  by (auto simp: dec_digit_def ascii_defs split: if_splits)

lemma hex_digit_hex_byte: "d < 16 \<Longrightarrow> hex_digit (hex_byte d) = Some d"
proof -
  assume "d < 16"
  have "list_all (\<lambda>d. hex_digit (hex_byte d) = Some d) [0..<16]"
    by code_simp
  with \<open>d < 16\<close> show ?thesis by (simp add: list_all_iff)
qed

lemma hex_digit_less: "hex_digit b = Some d \<Longrightarrow> d < 16"
  by (auto simp: hex_digit_def ascii_defs split: if_splits)

lemma hex_digit_iff: "hex_digit b \<noteq> None \<longleftrightarrow> is_ascii_hexdigit b"
  by (auto simp: hex_digit_def ascii_defs)

end
