(* ===== verification/H1_Framing.thy ===== *)
theory H1_Framing
  imports H1_Head H1_Limits H1_Digits
begin

text \<open>
  \<^verbatim>\<open>src/src/framing.rs\<close>: how long the request body is.  \<open>decide\<close> follows the source rule by rule;
  like the accessors of \<^verbatim>\<open>Head\<close> it slices the target, so it returns an \<open>option\<close> whose \<open>None\<close> is a
  panic, and a lemma shows that no head the crate builds reaches it.
\<close>

datatype body_kind = BodyNone | Length nat | Chunked

datatype framing_error =
    LengthAndTransferEncoding | DuplicateContentLength | InvalidContentLength | ChunkedNotFinal
  | UnsupportedTransferEncoding | TransferEncodingOnHttp10 | MissingHost | MultipleHost
  | InvalidHost | InvalidAuthority | UnsupportedScheme | HostMismatch | FramingBodyTooLarge

definition framing_error_status :: "framing_error \<Rightarrow> nat" where
  "framing_error_status e =
     (case e of FramingBodyTooLarge \<Rightarrow> 413 | UnsupportedTransferEncoding \<Rightarrow> 501 | _ \<Rightarrow> 400)"

section \<open>Authorities\<close>

definition reg_name_byte :: "byte \<Rightarrow> bool" where
  "reg_name_byte c \<longleftrightarrow> is_ascii_alphanumeric c \<or> c \<in> set ''-._~!$&()*+,;='' \<or> c = CHR 0x27"

fun reg_name_loop :: "bytes \<Rightarrow> bool" where
  "reg_name_loop [] = True"
| "reg_name_loop (b # s) =
     (if b = CHR ''%'' then
        (case s of
           c # d # r \<Rightarrow> is_ascii_hexdigit c \<and> is_ascii_hexdigit d \<and> reg_name_loop r
         | _ \<Rightarrow> False)
      else reg_name_byte b \<and> reg_name_loop s)"

definition valid_reg_name :: "bytes \<Rightarrow> bool" where
  "valid_reg_name host \<longleftrightarrow> (if list_all reg_name_byte host then True else reg_name_loop host)"

text \<open>The port after the host: \<open>None\<close> rejects, \<open>Some None\<close> is an absent or empty port.\<close>

definition parse_port :: "bytes \<Rightarrow> nat option option" where
  "parse_port rest =
     (case rest of
        [] \<Rightarrow> Some None
      | c # digits \<Rightarrow>
          if c \<noteq> CHR '':'' then None
          else if digits = [] then Some None
          else if length digits > 5 \<or> \<not> list_all is_ascii_digit digits then None
          else
            (let n = foldl (\<lambda>n d. n * 10 + (byte_of d - 48)) 0 digits
             in if n < 65536 then Some (Some n) else None))"

definition parse_authority :: "bytes \<Rightarrow> (bytes \<times> nat option) option" where
  "parse_authority a =
     (let host_rest =
        (if a \<noteq> [] \<and> hd a = CHR ''['' then
           (case position (\<lambda>b. b = CHR '']'') a of
              None \<Rightarrow> None
            | Some close \<Rightarrow>
                (let inner = take (close - 1) (drop 1 a) in
                 if inner = [] \<or> \<not> list_all (\<lambda>b. is_ascii_hexdigit b \<or> b \<in> set '':.'') inner
                 then None
                 else Some (take (close + 1) a, drop (close + 1) a)))
         else
           (let end = (case position (\<lambda>b. b = CHR '':'') a of Some e \<Rightarrow> e | None \<Rightarrow> length a);
                host = take end a
            in if host = [] \<or> \<not> valid_reg_name host then None else Some (host, drop end a)))
      in case host_rest of
           None \<Rightarrow> None
         | Some (host, rest) \<Rightarrow>
             (case parse_port rest of None \<Rightarrow> None | Some port \<Rightarrow> Some (host, port)))"

definition host_of_field :: "bytes option \<Rightarrow> framing_error + (bytes \<times> nat option) option" where
  "host_of_field host_field =
     (case host_field of
        Some v \<Rightarrow>
          if v \<noteq> [] then bind_result (ok_or (parse_authority v) InvalidHost) (\<lambda>p. Inr (Some p))
          else Inr None
      | None \<Rightarrow> Inr None)"

definition check_connect ::
    "bytes \<Rightarrow> bool \<Rightarrow> (bytes \<times> nat option) option \<Rightarrow> framing_error + unit" where
  "check_connect target empty_host host =
     (case parse_authority target of
        Some (target_host, Some target_port) \<Rightarrow>
          if empty_host then Inl HostMismatch
          else (case host of
              None \<Rightarrow> Inr ()
            | Some (h, port) \<Rightarrow>
                (let same_port = (case port of
                     Some p \<Rightarrow> target_port = p
                   | None \<Rightarrow> target_port = 80 \<or> target_port = 443)
                 in if \<not> eq_ignore_ascii_case h target_host \<or> \<not> same_port
                    then Inl HostMismatch else Inr ()))
      | _ \<Rightarrow> Inl InvalidAuthority)"

definition unwrap_or :: "'a option \<Rightarrow> 'a \<Rightarrow> 'a" where
  "unwrap_or m d = (case m of Some x \<Rightarrow> x | None \<Rightarrow> d)"

definition scheme_port :: "bytes \<Rightarrow> nat option" where
  "scheme_port scheme =
     (if eq_ignore_ascii_case scheme ''http'' then Some 80
      else if eq_ignore_ascii_case scheme ''https'' then Some 443
      else None)"

definition check_absolute ::
    "nat \<Rightarrow> bytes \<Rightarrow> bool \<Rightarrow> (bytes \<times> nat option) option \<Rightarrow> framing_error + unit" where
  "check_absolute default_port auth empty_host host =
     (case parse_authority auth of
        None \<Rightarrow> Inl InvalidAuthority
      | Some (target_host, target_port) \<Rightarrow>
          if empty_host then Inl HostMismatch
          else (case host of
              None \<Rightarrow> Inr ()
            | Some (h, port) \<Rightarrow>
                if eq_ignore_ascii_case h target_host
                   \<and> unwrap_or port default_port = unwrap_or target_port default_port
                then Inr () else Inl HostMismatch))"

definition check_authority :: "head \<Rightarrow> (framing_error + unit) option" where
  "check_authority h =
     (let host_field = get h Host;
          empty_host = (host_field = Some [])
      in case host_of_field host_field of
           Inl e \<Rightarrow> Some (Inl e)
         | Inr host \<Rightarrow>
             if head_method h = Connect
             then Some (check_connect (as_bytes (head_target h)) empty_host host)
             else (case absolute_scheme h of
                 None \<Rightarrow> None
               | Some None \<Rightarrow> Some (Inr ())
               | Some (Some scheme) \<Rightarrow>
                   (case scheme_port scheme of
                      None \<Rightarrow> Some (Inl UnsupportedScheme)
                    | Some default_port \<Rightarrow>
                        (case authority h of
                           None \<Rightarrow> None
                         | Some a \<Rightarrow>
                             Some (check_absolute default_port (unwrap_or a []) empty_host host)))))"

section \<open>The framing fields\<close>

fun count_framing :: "header_vec \<Rightarrow> nat \<times> bool \<times> bool \<Rightarrow> nat \<times> bool \<times> bool" where
  "count_framing [] acc = acc"
| "count_framing ((i, _) # rest) (host_count, has_len, has_te) =
     count_framing rest
       (if i = Host then (host_count + 1, has_len, has_te)
        else if i = ContentLength then (host_count, True, has_te)
        else if i = TransferEncoding then (host_count, has_len, True)
        else (host_count, has_len, has_te))"

fun te_codings :: "bytes list \<Rightarrow> framing_error + bytes list" where
  "te_codings [] = Inr []"
| "te_codings (v # vs) =
     (if \<not> list_all is_ascii v then Inl ChunkedNotFinal
      else bind_result (te_codings vs) (\<lambda>cs.
        Inr (filter (\<lambda>c. c \<noteq> []) (map trim_ows (split_commas v)) @ cs)))"

abbreviation is_chunked_coding :: "bytes \<Rightarrow> bool" where
  "is_chunked_coding c \<equiv> eq_ignore_ascii_case c ''chunked''"

definition decide_te :: "bytes list \<Rightarrow> framing_error + body_kind" where
  "decide_te values =
     bind_result (te_codings values) (\<lambda>codings.
       let chunked_count = length (filter is_chunked_coding codings) in
       if chunked_count = 1 \<and> codings \<noteq> [] \<and> is_chunked_coding (last codings) then
         (if length codings = 1 then Inr Chunked else Inl UnsupportedTransferEncoding)
       else if chunked_count \<ge> 1 then Inl ChunkedNotFinal
       else Inl UnsupportedTransferEncoding)"

fun content_length_fold :: "nat \<Rightarrow> bytes \<Rightarrow> framing_error + nat" where
  "content_length_fold acc [] = Inr acc"
| "content_length_fold acc (b # bs) =
     (if \<not> is_ascii_digit b then Inl InvalidContentLength
      else bind_result
        (ok_or (Option.bind (checked_mul_u64 acc 10) (\<lambda>n. checked_add_u64 n (byte_of b - 48)))
          InvalidContentLength)
        (\<lambda>acc'. content_length_fold acc' bs))"

definition parse_content_length :: "bytes \<Rightarrow> framing_error + nat" where
  "parse_content_length bs =
     (if bs = [] then Inl InvalidContentLength else content_length_fold 0 bs)"

fun agree_elements :: "nat option \<Rightarrow> bytes list \<Rightarrow> framing_error + nat option" where
  "agree_elements agreed [] = Inr agreed"
| "agree_elements agreed (e # es) =
     bind_result (parse_content_length (trim_ows e)) (\<lambda>n.
       case agreed of
         None \<Rightarrow> agree_elements (Some n) es
       | Some prev \<Rightarrow>
           if prev = n then agree_elements agreed es else Inl DuplicateContentLength)"

fun agree_values :: "nat option \<Rightarrow> bytes list \<Rightarrow> framing_error + nat option" where
  "agree_values agreed [] = Inr agreed"
| "agree_values agreed (v # vs) =
     bind_result (agree_elements agreed (split_commas v)) (\<lambda>agreed'. agree_values agreed' vs)"

definition decide_length :: "bytes list \<Rightarrow> limits \<Rightarrow> framing_error + body_kind" where
  "decide_length values l =
     bind_result (agree_values None values) (\<lambda>agreed.
       bind_result (ok_or agreed InvalidContentLength) (\<lambda>len.
         if len > max_body_bytes l then Inl FramingBodyTooLarge else Inr (Length len)))"

definition decide :: "head \<Rightarrow> limits \<Rightarrow> (framing_error + body_kind) option" where
  "decide h l =
     (let (host_count, has_len, has_te) = count_framing (head_headers h) (0, False, False) in
      if host_count = 0 \<and> head_version h = Http11 then Some (Inl MissingHost)
      else if host_count > 1 then Some (Inl MultipleHost)
      else (case check_authority h of
          None \<Rightarrow> None
        | Some (Inl e) \<Rightarrow> Some (Inl e)
        | Some (Inr _) \<Rightarrow>
            Some (if has_len \<and> has_te then Inl LengthAndTransferEncoding
                  else if has_te then
                    (if head_version h = Http10 then Inl TransferEncodingOnHttp10
                     else decide_te (all_values h TransferEncoding))
                  else if has_len then decide_length (all_values h ContentLength) l
                  else Inr BodyNone)))"

section \<open>Decimal lengths\<close>

lemma content_length_fold_Cons:
  "result_ok (content_length_fold acc (b # bs)) =
     Option.bind (dec_digit b) (\<lambda>d. Option.bind (checked_mul_u64 acc 10)
       (\<lambda>n. Option.bind (checked_add_u64 n d) (\<lambda>m. result_ok (content_length_fold m bs))))"
  by (auto simp: dec_digit_def checked_mul_u64_def checked_add_u64_def)

interpretation dec: positional 10 dec_digit "\<lambda>acc bs. result_ok (content_length_fold acc bs)"
  dec_byte dec_digits
proof
  show "2 \<le> (10::nat)" by simp
  show "\<And>b d. dec_digit b = Some d \<Longrightarrow> d < 10" by (rule dec_digit_less)
  show "\<And>d. d < 10 \<Longrightarrow> dec_digit (dec_byte d) = Some d" by (rule dec_digit_dec_byte)
  show "\<And>acc. result_ok (content_length_fold acc []) = Some acc" by simp
qed (rule content_length_fold_Cons dec_digits.simps)+

definition dec_value :: "bytes \<Rightarrow> nat" where
  "dec_value bs = foldl (\<lambda>acc b. acc * 10 + (byte_of b - 48)) 0 bs"

lemma dec_is_digits: "dec.is_digits bs \<longleftrightarrow> list_all is_ascii_digit bs"
  by (auto simp: dec.is_digits_def dec_digit_def list_all_iff)

lemma dec_value_eq: "list_all is_ascii_digit bs \<Longrightarrow> dec.digits_value acc bs =
    foldl (\<lambda>acc b. acc * 10 + (byte_of b - 48)) acc bs"
  by (induction bs arbitrary: acc) (auto simp: dec_digit_def)

lemma parse_content_length_iff:
  "parse_content_length bs = Inr n \<longleftrightarrow>
     bs \<noteq> [] \<and> list_all is_ascii_digit bs \<and> dec_value bs = n \<and> n < u64_range"
proof -
  have "content_length_fold 0 bs = Inr n \<longleftrightarrow> result_ok (content_length_fold 0 bs) = Some n"
    by (simp add: result_ok_Some_iff)
  then show ?thesis
    using dec.reader_iff [of 0 bs n] dec_value_eq [of bs 0]
    by (auto simp: parse_content_length_def dec_is_digits dec_value_def)
qed

lemma content_length_fold_error: "content_length_fold acc bs = Inl e \<Longrightarrow> e = InvalidContentLength"
  by (induction acc bs rule: content_length_fold.induct)
     (auto simp: bind_result_Inl_iff ok_or_def split: if_splits option.splits)

lemma parse_content_length_error: "parse_content_length bs = Inl e \<Longrightarrow> e = InvalidContentLength"
  by (auto simp: parse_content_length_def split: if_splits dest: content_length_fold_error)

text \<open>Every element of every field is the same decimal number.\<close>

definition declares_length :: "nat \<Rightarrow> bytes \<Rightarrow> bool" where
  "declares_length n v \<longleftrightarrow> (\<forall>e \<in> set (split_commas v). parse_content_length (trim_ows e) = Inr n)"

lemma agree_elements_Some:
  "agree_elements (Some n) es = Inr r \<longleftrightarrow>
     r = Some n \<and> (\<forall>e \<in> set es. parse_content_length (trim_ows e) = Inr n)"
  by (induction es) (auto simp: return_iff)

lemma agree_elements_None:
  "es \<noteq> [] \<Longrightarrow> agree_elements None es = Inr r \<longleftrightarrow>
     (\<exists>n. r = Some n \<and> (\<forall>e \<in> set es. parse_content_length (trim_ows e) = Inr n))"
  by (cases es) (auto simp: return_iff agree_elements_Some)

lemma agree_values_Some:
  "agree_values (Some n) vs = Inr r \<longleftrightarrow> r = Some n \<and> (\<forall>v \<in> set vs. declares_length n v)"
  by (induction vs) (auto simp: return_iff agree_elements_Some declares_length_def)

lemma agree_values_None:
  "vs \<noteq> [] \<Longrightarrow> agree_values None vs = Inr r \<longleftrightarrow>
     (\<exists>n. r = Some n \<and> (\<forall>v \<in> set vs. declares_length n v))"
  by (cases vs)
     (auto simp: return_iff agree_elements_None agree_values_Some declares_length_def)

lemma decide_length_iff:
  "decide_length vs l = Inr k \<longleftrightarrow>
     vs \<noteq> [] \<and> (\<exists>n. k = Length n \<and> n \<le> max_body_bytes l \<and> (\<forall>v \<in> set vs. declares_length n v))"
proof (cases "vs = []")
  case True
  then show ?thesis by (simp add: decide_length_def)
next
  case False
  have "decide_length vs l = Inr k \<longleftrightarrow>
      (\<exists>n. agree_values None vs = Inr (Some n) \<and> n \<le> max_body_bytes l \<and> k = Length n)"
    by (cases "agree_values None vs") (auto simp: decide_length_def ok_or_def split: option.splits)
  with False show ?thesis by (auto simp: agree_values_None)
qed

section \<open>Transfer codings\<close>

definition coding_list :: "bytes list \<Rightarrow> bytes list" where
  "coding_list vs = concat (map (\<lambda>v. filter (\<lambda>c. c \<noteq> []) (map trim_ows (split_commas v))) vs)"

lemma te_codings_iff:
  "te_codings vs = Inr cs \<longleftrightarrow> cs = coding_list vs \<and> (\<forall>v \<in> set vs. list_all is_ascii v)"
  by (induction vs arbitrary: cs) (auto simp: return_iff coding_list_def)

lemma decide_te_iff:
  "decide_te vs = Inr k \<longleftrightarrow>
     k = Chunked \<and> (\<forall>v \<in> set vs. list_all is_ascii v)
     \<and> (\<exists>c. coding_list vs = [c] \<and> is_chunked_coding c)"
proof -
  have "length cs = Suc 0 \<Longrightarrow> \<exists>c. cs = [c]" for cs :: "bytes list"
    by (cases cs) auto
  then show ?thesis
    by (fastforce simp: decide_te_def return_iff te_codings_iff Let_def split: if_splits)
qed

lemma decide_te_not_length: "decide_te vs \<noteq> Inr (Length n)"
  by (simp add: decide_te_iff)

section \<open>The decision\<close>

lemma count_framing_eq:
  "count_framing hs (c, b1, b2) =
     (c + header_count hs Host, b1 \<or> ContentLength \<in> fst ` set hs,
      b2 \<or> TransferEncoding \<in> fst ` set hs)"
  by (induction hs arbitrary: c b1 b2) (auto simp: header_count_def)

abbreviation has_field :: "head \<Rightarrow> header_id \<Rightarrow> bool" where
  "has_field h i \<equiv> i \<in> fst ` set (head_headers h)"

definition host_count_ok :: "head \<Rightarrow> bool" where
  "host_count_ok h \<longleftrightarrow>
     count h Host \<le> 1 \<and> (head_version h = Http11 \<longrightarrow> count h Host = 1)"

lemma decide_eq:
  "decide h l =
     (if count h Host = 0 \<and> head_version h = Http11 then Some (Inl MissingHost)
      else if count h Host > 1 then Some (Inl MultipleHost)
      else (case check_authority h of
          None \<Rightarrow> None
        | Some (Inl e) \<Rightarrow> Some (Inl e)
        | Some (Inr _) \<Rightarrow>
            Some (if has_field h ContentLength \<and> has_field h TransferEncoding
                  then Inl LengthAndTransferEncoding
                  else if has_field h TransferEncoding then
                    (if head_version h = Http10 then Inl TransferEncodingOnHttp10
                     else decide_te (all_values h TransferEncoding))
                  else if has_field h ContentLength
                  then decide_length (all_values h ContentLength) l
                  else Inr BodyNone)))"
  by (simp add: decide_def count_framing_eq count_def)

lemma check_authority_total: "head_wf h \<Longrightarrow> check_authority h \<noteq> None"
  using accessors_total [of h]
  by (auto simp: check_authority_def Let_def split: sum.splits option.splits)

lemma decide_total: "head_wf h \<Longrightarrow> decide h l \<noteq> None"
  using check_authority_total [of h] by (auto simp: decide_eq split: option.splits sum.splits)

lemma host_count_ok_alt:
  "host_count_ok h \<longleftrightarrow> \<not> (count h Host = 0 \<and> head_version h = Http11) \<and> \<not> count h Host > 1"
  by (auto simp: host_count_ok_def)

lemma all_values_Nil_iff: "all_values h i = [] \<longleftrightarrow> \<not> has_field h i"
  by (metis all_values_def header_count_0_iff length_0_conv length_header_all)

text \<open>The rules of RFC 9112 section 6 that \<open>decide\<close> implements, field by field.\<close>

definition frames :: "head \<Rightarrow> limits \<Rightarrow> body_kind \<Rightarrow> bool" where
  "frames h l k \<longleftrightarrow>
     (case k of
        BodyNone \<Rightarrow> \<not> has_field h ContentLength \<and> \<not> has_field h TransferEncoding
      | Chunked \<Rightarrow>
          has_field h TransferEncoding \<and> \<not> has_field h ContentLength \<and> head_version h = Http11
          \<and> (\<forall>v \<in> set (all_values h TransferEncoding). list_all is_ascii v)
          \<and> (case coding_list (all_values h TransferEncoding) of
                [c] \<Rightarrow> is_chunked_coding c
              | _ \<Rightarrow> False)
      | Length n \<Rightarrow>
          has_field h ContentLength \<and> \<not> has_field h TransferEncoding \<and> n \<le> max_body_bytes l
          \<and> (\<forall>v \<in> set (all_values h ContentLength). declares_length n v))"

lemma single_case_iff: "(case xs of [x] \<Rightarrow> P x | _ \<Rightarrow> False) \<longleftrightarrow> (\<exists>x. xs = [x] \<and> P x)"
  by (auto split: list.splits)

lemma decide_Ok_iff:
  "decide h l = Some (Inr k) \<longleftrightarrow>
     host_count_ok h \<and> check_authority h = Some (Inr ()) \<and> frames h l k"
proof (cases "host_count_ok h \<and> check_authority h = Some (Inr ())")
  case False
  then show ?thesis
    by (auto simp: decide_eq host_count_ok_alt split: if_splits option.splits sum.splits)
next
  case True
  have "head_version h \<noteq> Http10 \<longleftrightarrow> head_version h = Http11"
    by (cases "head_version h") auto
  with True show ?thesis
    by (cases k)
       (auto simp: decide_eq host_count_ok_alt frames_def decide_te_iff decide_length_iff
         all_values_Nil_iff single_case_iff split: if_splits)
qed

section \<open>The authority rules\<close>

lemma reg_name_fast_path: "list_all reg_name_byte host \<Longrightarrow> reg_name_loop host"
proof (induction host rule: reg_name_loop.induct)
  case (2 b s)
  moreover have "\<not> reg_name_byte (CHR ''%'')" by (simp add: reg_name_byte_def ascii_defs)
  ultimately show ?case by auto
qed simp

lemma valid_reg_name_loop: "valid_reg_name host = reg_name_loop host"
  using reg_name_fast_path by (auto simp: valid_reg_name_def)

definition authority_byte :: "byte \<Rightarrow> bool" where
  "authority_byte b \<longleftrightarrow> reg_name_byte b \<or> b \<in> set ''%[]:''"

lemma hexdigit_authority_byte: "is_ascii_hexdigit b \<Longrightarrow> authority_byte b"
  by (auto simp: authority_byte_def reg_name_byte_def ascii_defs)

lemma reg_name_loop_bytes: "reg_name_loop host \<Longrightarrow> \<forall>b \<in> set host. authority_byte b"
proof (induction host rule: reg_name_loop.induct)
  case (2 b s)
  then show ?case
    by (auto simp: authority_byte_def split: if_splits list.splits
        dest: hexdigit_authority_byte [unfolded authority_byte_def])
qed simp

lemma parse_port_Some:
  "parse_port rest = Some p \<Longrightarrow>
     (\<forall>b \<in> set rest. authority_byte b) \<and>
     (case p of
        None \<Rightarrow> rest \<in> {[], '':''}
      | Some n \<Rightarrow> n < 65536 \<and> (\<exists>ds. rest = CHR '':'' # ds \<and> ds \<noteq> [] \<and> list_all is_ascii_digit ds
          \<and> dec_value ds = n))"
  by (auto simp: parse_port_def dec_value_def Let_def authority_byte_def reg_name_byte_def
      list_all_iff ascii_defs split: list.splits if_splits)

lemma parse_authority_Some:
  assumes "parse_authority a = Some (host, port)"
  obtains rest where "a = host @ rest" "parse_port rest = Some port" "host \<noteq> []"
    "(\<exists>inner. host = CHR ''['' # inner @ '']'' \<and> inner \<noteq> [] \<and>
        list_all (\<lambda>b. is_ascii_hexdigit b \<or> b \<in> set '':.'') inner)
     \<or> valid_reg_name host"
proof (cases "a \<noteq> [] \<and> hd a = CHR ''[''")
  case False
  define e where "e = (case position (\<lambda>b. b = CHR '':'') a of Some e \<Rightarrow> e | None \<Rightarrow> length a)"
  with False assms have "host = take e a" "parse_port (drop e a) = Some port" "host \<noteq> []"
      "valid_reg_name host"
    by (auto simp: parse_authority_def Let_def split: if_splits option.splits)
  with that [of "drop e a"] show thesis by simp
next
  case True
  with assms obtain close where close: "position (\<lambda>b. b = CHR '']'') a = Some close"
    and c: "host = take (close + 1) a" "parse_port (drop (close + 1) a) = Some port"
      "take (close - 1) (drop 1 a) \<noteq> []"
      "list_all (\<lambda>b. is_ascii_hexdigit b \<or> b \<in> set '':.'') (take (close - 1) (drop 1 a))"
    by (auto simp: parse_authority_def Let_def split: if_splits option.splits)
  from close have cl: "close < length a" "a ! close = CHR '']''"
    by (simp_all add: position_Some_iff)
  from True obtain r where a: "a = CHR ''['' # r" by (cases a) auto
  then obtain k where k: "close = Suc k" using cl by (cases close) auto
  have host: "host = CHR ''['' # take k r @ '']''"
    using c(1) cl a k by (simp add: take_Suc_conv_app_nth)
  show thesis
  proof (rule that)
    show "a = host @ drop (close + 1) a" "parse_port (drop (close + 1) a) = Some port"
      using c by simp_all
    show "host \<noteq> []" using host by simp
    have "take k r \<noteq> []" "list_all (\<lambda>b. is_ascii_hexdigit b \<or> b \<in> set '':.'') (take k r)"
      using c(3,4) a k by simp_all
    with host show "(\<exists>inner. host = CHR ''['' # inner @ '']'' \<and> inner \<noteq> [] \<and>
        list_all (\<lambda>b. is_ascii_hexdigit b \<or> b \<in> set '':.'') inner) \<or> valid_reg_name host"
      by blast
  qed
qed

lemma parse_authority_bytes:
  assumes "parse_authority a = Some (host, port)"
  shows "\<forall>b \<in> set a. authority_byte b"
proof -
  obtain rest where a: "a = host @ rest" "parse_port rest = Some port"
    and h: "(\<exists>inner. host = CHR ''['' # inner @ '']'' \<and> inner \<noteq> [] \<and>
        list_all (\<lambda>b. is_ascii_hexdigit b \<or> b \<in> set '':.'') inner) \<or> valid_reg_name host"
    using assms by (rule parse_authority_Some)
  have "\<forall>b \<in> set host. authority_byte b"
    using h
  proof
    assume "valid_reg_name host"
    then show ?thesis by (simp add: valid_reg_name_loop reg_name_loop_bytes)
  next
    assume "\<exists>inner. host = CHR ''['' # inner @ '']'' \<and> inner \<noteq> [] \<and>
        list_all (\<lambda>b. is_ascii_hexdigit b \<or> b \<in> set '':.'') inner"
    moreover have "authority_byte (CHR ''['')" "authority_byte (CHR '']'')"
      "authority_byte (CHR '':'')" "authority_byte (CHR ''.'')"
      by (simp_all add: authority_byte_def reg_name_byte_def)
    ultimately show ?thesis
      by (auto simp: list_all_iff dest: hexdigit_authority_byte)
  qed
  with a parse_port_Some show ?thesis by auto
qed

lemma authority_byte_no_userinfo:
  "authority_byte b \<Longrightarrow> b \<noteq> CHR ''@'' \<and> b \<noteq> CHR ''/'' \<and> b \<noteq> CHR ''?'' \<and> b \<noteq> SP"
  by (auto simp: authority_byte_def reg_name_byte_def ascii_defs)

text \<open>What \<open>Host\<close> and an absolute-form target agree on once the check has passed.\<close>

definition same_authority :: "nat \<Rightarrow> bytes \<Rightarrow> bytes \<Rightarrow> bool" where
  "same_authority default_port a b \<longleftrightarrow>
     (\<exists>ha pa hb pb. parse_authority a = Some (ha, pa) \<and> parse_authority b = Some (hb, pb)
        \<and> lower ha = lower hb \<and> unwrap_or pa default_port = unwrap_or pb default_port)"

lemma check_absolute_ok:
  assumes "check_absolute dp auth (v = []) host = Inr ()" and "host_of_field (Some v) = Inr host"
  shows "same_authority dp v auth"
  using assms
  by (auto simp: check_absolute_def host_of_field_def same_authority_def eq_ignore_ascii_case_iff
      return_iff split: option.splits if_splits prod.splits)

lemma check_authority_absolute:
  assumes "head_wf h" and "check_authority h = Some (Inr ())" and "head_method h \<noteq> Connect"
    and "authority_at h = Some (s, e)" and "get h Host = Some v"
  shows "\<exists>dp a. authority h = Some (Some a)
    \<and> scheme_port (take (s - 3) (as_bytes (head_target h))) = Some dp \<and> same_authority dp v a"
  using assms
  by (auto simp: check_authority_def Let_def absolute_scheme_eq authority_absolute unwrap_or_def
      split: sum.splits option.splits intro: check_absolute_ok)

lemma check_authority_connect:
  assumes "check_authority h = Some (Inr ())" and "head_method h = Connect"
  shows "\<exists>th tp. parse_authority (as_bytes (head_target h)) = Some (th, Some tp) \<and>
    (\<forall>v. get h Host = Some v \<longrightarrow>
      (\<exists>hh hp. parse_authority v = Some (hh, hp) \<and> lower hh = lower th \<and>
        (case hp of Some p \<Rightarrow> p = tp | None \<Rightarrow> tp \<in> {80, 443})))"
  using assms
  by (auto simp: check_authority_def Let_def check_connect_def host_of_field_def
      eq_ignore_ascii_case_iff return_iff
      split: sum.splits option.splits if_splits prod.splits)

section \<open>What framing promises\<close>

definition sample_head :: "http_method \<Rightarrow> bytes \<Rightarrow> (header_id \<times> bytes) list \<Rightarrow> head" where
  "sample_head m t hs = head_new m (ByteStr t) Http11 hs"

lemmas framing_eval = check_authority_def sample_head_def head_new_def get_def header_get_def
  host_of_field_def parse_authority_def valid_reg_name_def reg_name_byte_def parse_port_def
  absolute_scheme_def find_absolute_authority_def valid_scheme_def scheme_port_def str_slice_def
  is_char_boundary_def byte_in_def as_str_def authority_def check_absolute_def
  check_connect_def unwrap_or_def eq_ignore_ascii_case_def to_ascii_lowercase_def ascii_defs Let_def
  host_count_ok_def count_def header_count_def frames_def all_values_def header_all_def
  declares_length_def trim_ows_eq is_ows_def parse_content_length_iff dec_value_def decide_Ok_iff
  default_limits_def char_of_eq_iff

lemma sample_head_wf: "list_all is_ascii t \<Longrightarrow> head_wf (sample_head m t hs)"
  by (simp add: sample_head_def head_new_wf byte_str_ok_def utf8_valid_ascii list_all_iff)

text \<open>C2. On a head the crate builds, the framing decision never panics, and it accepts a request
  with a body kind exactly when the \<^verbatim>\<open>Host\<close> count is right, the authority rules hold and the
  framing fields declare that body kind, field by field; so no head has two readings.\<close>

theorem decide_refines_framing:
  assumes "head_wf h"
  shows "decide h l \<noteq> None
    \<and> (decide h l = Some (Inr k) \<longleftrightarrow>
         host_count_ok h \<and> check_authority h = Some (Inr ()) \<and> frames h l k)
    \<and> (frames h l k \<and> frames h l k' \<longrightarrow> k = k')"
proof -
  have "declares_length n v \<Longrightarrow> declares_length m v \<Longrightarrow> n = m" for n m v
    using split_on_not_Nil [of "\<lambda>b. b = CHR '',''" v]
    by (cases "split_commas v") (auto simp: declares_length_def)
  moreover have "has_field h ContentLength \<Longrightarrow> \<exists>v. v \<in> set (all_values h ContentLength)"
    by (metis all_values_Nil_iff list.set_intros(1) neq_Nil_conv)
  ultimately have "frames h l k \<Longrightarrow> frames h l k' \<Longrightarrow> k = k'"
    by (fastforce simp: frames_def split: body_kind.splits)
  with decide_total [OF assms] show ?thesis by (simp add: decide_Ok_iff)
qed

theorem decide_refines_framing_witness:
  "decide (sample_head Post ''/'' [(Host, ''a''), (ContentLength, ''5, 5'')]) default_limits
     = Some (Inr (Length 5))"
proof -
  let ?h = "sample_head Post ''/'' [(Host, ''a''), (ContentLength, ''5, 5'')]"
  have "head_wf ?h" by (rule sample_head_wf) (simp add: is_ascii_def)
  moreover have "host_count_ok ?h" "check_authority ?h = Some (Inr ())"
    "frames ?h default_limits (Length 5)"
    by (simp_all add: framing_eval)
  ultimately show ?thesis
    using decide_refines_framing [of ?h default_limits "Length 5" "Length 5"] by blast
qed

text \<open>C3. A request that carries both a \<^verbatim>\<open>Content-Length\<close> and a \<^verbatim>\<open>Transfer-Encoding\<close> field is
  never accepted, and once its \<^verbatim>\<open>Host\<close> rules pass the refusal is the conflict itself, whatever
  the two fields contain, answered with 400.\<close>

theorem length_and_coding_refused:
  assumes "has_field h ContentLength" and "has_field h TransferEncoding"
  shows "decide h l \<noteq> Some (Inr k)
    \<and> (host_count_ok h \<and> check_authority h = Some (Inr ()) \<longrightarrow>
         decide h l = Some (Inl LengthAndTransferEncoding))
    \<and> framing_error_status LengthAndTransferEncoding = 400"
proof -
  have "\<not> frames h l k"
    using assms by (cases k) (simp_all add: frames_def)
  moreover have "host_count_ok h \<and> check_authority h = Some (Inr ()) \<Longrightarrow>
      decide h l = Some (Inl LengthAndTransferEncoding)"
    using assms by (simp add: decide_eq host_count_ok_alt)
  ultimately show ?thesis by (simp add: decide_Ok_iff framing_error_status_def)
qed

theorem length_and_coding_refused_witness:
  "decide (sample_head Post ''/''
       [(Host, ''a''), (ContentLength, ''5''), (TransferEncoding, ''chunked'')]) default_limits
     = Some (Inl LengthAndTransferEncoding)"
proof -
  let ?h = "sample_head Post ''/''
    [(Host, ''a''), (ContentLength, ''5''), (TransferEncoding, ''chunked'')]"
  have "host_count_ok ?h" "check_authority ?h = Some (Inr ())"
    by (simp_all add: framing_eval)
  moreover have "has_field ?h ContentLength" "has_field ?h TransferEncoding"
    by (simp_all add: sample_head_def)
  ultimately show ?thesis
    using length_and_coding_refused [of ?h default_limits BodyNone] by blast
qed

text \<open>C22. A declared length is read exactly: the reader accepts precisely the non-empty decimal
  digit strings whose value fits a \<^verbatim>\<open>u64\<close>, returns that value, refuses everything else with
  \<^verbatim>\<open>InvalidContentLength\<close>, and reads back every number the response writer's digit loop prints.\<close>

theorem content_length_exact:
  "(parse_content_length bs = Inr n \<longleftrightarrow>
      bs \<noteq> [] \<and> list_all is_ascii_digit bs \<and> dec_value bs = n \<and> n < u64_range)
   \<and> (parse_content_length bs \<in> range Inr \<or> parse_content_length bs = Inl InvalidContentLength)
   \<and> (n < u64_range \<longrightarrow> parse_content_length (dec_digits n) = Inr n \<and> length (dec_digits n) \<le> 20)"
proof -
  have "parse_content_length (dec_digits n) = Inr n" if "n < u64_range"
    using dec.reader_printer [OF that] dec.printer_digits [of n]
    by (simp add: parse_content_length_def result_ok_Some_iff)
  moreover have "length (dec_digits n) \<le> 20" if "n < u64_range"
    using dec.printer_length [of n 19] that by simp
  ultimately show ?thesis
    using parse_content_length_iff [of bs n] parse_content_length_error [of bs]
    by (cases "parse_content_length bs") auto
qed

theorem content_length_exact_witness:
  "parse_content_length ''18446744073709551615'' = Inr 18446744073709551615
   \<and> parse_content_length (dec_digits 1024) = Inr 1024"
  using content_length_exact [of "''18446744073709551615''" 18446744073709551615]
    content_length_exact [of "[]" 1024]
  by (simp add: dec_value_def is_ascii_digit_def)

text \<open>C20. An accepted absolute-form request whose \<^verbatim>\<open>Host\<close> field is present has a target
  authority and a \<^verbatim>\<open>Host\<close> that parse to the same host name, ignoring ASCII case, and the same
  port, an absent one read as the default of the scheme, which is \<^verbatim>\<open>http\<close> or \<^verbatim>\<open>https\<close>; and
  neither contains userinfo.\<close>

theorem absolute_target_agrees_with_host:
  assumes "head_wf h" and "decide h l = Some (Inr k)" and "head_method h \<noteq> Connect"
    and "authority_at h = Some (s, e)" and "get h Host = Some v"
  shows "\<exists>dp a. authority h = Some (Some a)
    \<and> scheme_port (take (s - 3) (as_bytes (head_target h))) = Some dp
    \<and> same_authority dp v a \<and> CHR ''@'' \<notin> set v \<and> CHR ''@'' \<notin> set a"
proof -
  from assms(2) have "check_authority h = Some (Inr ())" by (simp add: decide_Ok_iff)
  from check_authority_absolute [OF assms(1) this assms(3-5)] obtain dp a where a:
    "authority h = Some (Some a)" "scheme_port (take (s - 3) (as_bytes (head_target h))) = Some dp"
    "same_authority dp v a" by blast
  from a(3) have "\<forall>b \<in> set v. authority_byte b" "\<forall>b \<in> set a. authority_byte b"
    by (auto simp: same_authority_def dest: parse_authority_bytes)
  then have "CHR ''@'' \<notin> set v \<and> CHR ''@'' \<notin> set a"
    using authority_byte_no_userinfo by blast
  with a show ?thesis by blast
qed

theorem absolute_target_agrees_with_host_witness:
  "\<exists>dp a. authority (sample_head Get ''http://a.b:80/x'' [(Host, ''A.B'')]) = Some (Some a)
     \<and> scheme_port ''http'' = Some dp
     \<and> same_authority dp ''A.B'' a \<and> CHR ''@'' \<notin> set ''A.B'' \<and> CHR ''@'' \<notin> set a"
proof -
  let ?h = "sample_head Get ''http://a.b:80/x'' [(Host, ''A.B'')]"
  have "head_wf ?h" by (rule sample_head_wf) (simp add: is_ascii_def)
  moreover have "decide ?h default_limits = Some (Inr BodyNone)" "authority_at ?h = Some (7, 13)"
    "get ?h Host = Some ''A.B''"
    by (simp_all add: framing_eval)
  moreover have "head_method ?h \<noteq> Connect"
    "take (7 - 3) (as_bytes (head_target ?h)) = ''http''"
    by (simp_all add: sample_head_def)
  ultimately show ?thesis
    using absolute_target_agrees_with_host [of ?h default_limits BodyNone 7 13 "''A.B''"] by metis
qed

text \<open>An accepted \<^verbatim>\<open>CONNECT\<close> names a host and an explicit port in its target, and a \<^verbatim>\<open>Host\<close>
  field, if any, names the same host, ignoring ASCII case, and the same port; a \<^verbatim>\<open>Host\<close> without a
  port stands for 80 or 443 only.\<close>

lemma connect_target_agrees_with_host:
  assumes "decide h l = Some (Inr k)" and "head_method h = Connect"
  shows "\<exists>th tp. parse_authority (as_bytes (head_target h)) = Some (th, Some tp) \<and> tp < 65536 \<and>
    (\<forall>v. get h Host = Some v \<longrightarrow>
      (\<exists>hh hp. parse_authority v = Some (hh, hp) \<and> lower hh = lower th \<and>
        (case hp of Some p \<Rightarrow> p = tp | None \<Rightarrow> tp \<in> {80, 443})))"
proof -
  from assms(1) have "check_authority h = Some (Inr ())" by (simp add: decide_Ok_iff)
  from check_authority_connect [OF this assms(2)] obtain th tp where t:
    "parse_authority (as_bytes (head_target h)) = Some (th, Some tp)"
    "\<forall>v. get h Host = Some v \<longrightarrow> (\<exists>hh hp. parse_authority v = Some (hh, hp) \<and> lower hh = lower th \<and>
        (case hp of Some p \<Rightarrow> p = tp | None \<Rightarrow> tp \<in> {80, 443}))" by blast
  from t(1) obtain rest where "parse_port rest = Some (Some tp)" by (rule parse_authority_Some)
  then have "tp < 65536" by (auto dest: parse_port_Some)
  with t show ?thesis by blast
qed

end
