(* ===== verification/H1_Chunked.thy ===== *)
theory H1_Chunked
  imports H1_Header H1_Limits H1_Digits
begin

text \<open>
  \<^verbatim>\<open>src/src/chunked.rs\<close>: the incremental decoder of the chunked transfer coding.  \<open>poll\<close> takes the
  decoder and the unread bytes and returns the event or error, the decoder and the bytes left;
  its loop body is \<open>poll_step\<close>, whose first component is \<open>None\<close> when the loop goes around again.
  The \<^verbatim>\<open>u64\<close> counters wrap as the source's do in a release build, and the invariant shows they
  never get there; \<^verbatim>\<open>trailer_bytes\<close> is a \<^verbatim>\<open>usize\<close> that counts bytes held in memory.
\<close>

definition MAX_SIZE_DIGITS :: nat where
  "MAX_SIZE_DIGITS = 16"

datatype chunk_event = Data bytes | Trailers header_vec | End

datatype chunked_error =
    BadSize | SizeOverflow | MissingCrlf | ChunkedBodyTooLarge | BadTrailer | ForbiddenTrailer
  | BadExtension | TrailerTooLarge

definition chunked_error_status :: "chunked_error \<Rightarrow> nat" where
  "chunked_error_status e = (case e of ChunkedBodyTooLarge \<Rightarrow> 413 | _ \<Rightarrow> 400)"

datatype chunk_state = StSize | StData | StDataCrlf | StTrailers | StEnding | StDone

record chunked_decoder =
  state :: chunk_state
  remaining :: nat
  decoded :: nat
  max_body :: nat
  max_trailer :: nat
  max_trailers :: nat
  trailer_bytes :: nat
  trailers :: "header_vec option"

definition chunked_new :: "limits \<Rightarrow> chunked_decoder" where
  "chunked_new l =
     \<lparr>state = StSize, remaining = 0, decoded = 0, max_body = max_body_bytes l,
      max_trailer = max_head_bytes l, max_trailers = max_headers l, trailer_bytes = 0,
      trailers = None\<rparr>"

definition decoded_len :: "chunked_decoder \<Rightarrow> nat" where
  "decoded_len d = decoded d"

definition is_done :: "chunked_decoder \<Rightarrow> bool" where
  "is_done d \<longleftrightarrow> state d = StDone"

section \<open>Lines and sizes\<close>

definition find_line :: "bytes \<Rightarrow> nat \<Rightarrow> chunked_error \<Rightarrow> chunked_error + (nat \<times> nat) option" where
  "find_line buf mx too_long =
     (case memchr LF buf of
        None \<Rightarrow> if length buf > mx then Inl too_long else Inr None
      | Some i \<Rightarrow>
          if i = 0 \<or> buf ! (i - 1) \<noteq> CR then Inl MissingCrlf
          else if i - 1 > mx then Inl too_long
          else Inr (Some (i - 1, i + 1)))"

definition bws :: "bytes \<Rightarrow> bytes" where
  "bws s = drop (length (takeWhile is_ows s)) s"

definition token :: "bytes \<Rightarrow> chunked_error + bytes" where
  "token s =
     (let n = length (takeWhile is_tchar s) in if n = 0 then Inl BadExtension else Inr (drop n s))"

definition quoted_byte :: "byte \<Rightarrow> bool" where
  "quoted_byte b \<longleftrightarrow> b = HT \<or> b = SP \<or> (0x21 \<le> byte_of b \<and> byte_of b \<le> 0x7e) \<or> byte_of b \<ge> 0x80"

text \<open>\<^verbatim>\<open>quoted\<close> from index \<open>i\<close> on; it starts past the opening quote.\<close>

fun quoted_from :: "bytes \<Rightarrow> chunked_error + bytes" where
  "quoted_from [] = Inl BadExtension"
| "quoted_from (b # s) =
     (if b = CHR 0x22 then Inr s
      else if b = CHR 0x5C then
        (case s of
           [] \<Rightarrow> Inl BadExtension
         | c # r \<Rightarrow> if quoted_byte c then quoted_from r else Inl BadExtension)
      else if quoted_byte b then quoted_from s
      else Inl BadExtension)"

definition quoted :: "bytes \<Rightarrow> chunked_error + bytes" where
  "quoted s = quoted_from (drop 1 s)"

lemma length_bws: "length (bws s) \<le> length s"
  by (simp add: bws_def)

lemma token_shorter: "token s = Inr r \<Longrightarrow> length r < length s"
  by (cases s) (auto simp: token_def Let_def split: if_splits)

lemma quoted_from_shorter: "quoted_from s = Inr r \<Longrightarrow> length r < length s"
  by (induction s rule: quoted_from.induct) (auto split: if_splits list.splits intro: less_SucI)

lemma quoted_shorter: "quoted s = Inr r \<Longrightarrow> length r < length s"
  using quoted_from_shorter [of "drop 1 s" r] by (simp add: quoted_def)

text \<open>One turn of the extension loop: \<open>Inr None\<close> leaves the loop, \<open>Inr (Some ext)\<close> goes around.\<close>

definition ext_step :: "bytes \<Rightarrow> chunked_error + bytes option" where
  "ext_step ext0 =
     (let ext = bws ext0 in
      case ext of
        [] \<Rightarrow> Inr None
      | b # r \<Rightarrow>
          if b \<noteq> CHR '';'' then Inl BadExtension
          else bind_result (token (bws r)) (\<lambda>ext.
            case bws ext of
              [] \<Rightarrow> Inr (Some ext)
            | c # after_eq \<Rightarrow>
                if c \<noteq> CHR ''='' then Inr (Some ext)
                else
                  (let v = bws after_eq in
                   bind_result (if v \<noteq> [] \<and> hd v = CHR 0x22 then quoted v else token v)
                     (\<lambda>ext. Inr (Some ext)))))"

lemma ext_value_shorter:
  "bind_result (quoted v) (\<lambda>ext. Inr (Some ext)) = Inr (Some r) \<Longrightarrow> length r < length v"
  "bind_result (token v) (\<lambda>ext. Inr (Some ext)) = Inr (Some r) \<Longrightarrow> length r < length v"
  by (auto simp: return_iff quoted_shorter token_shorter)

lemma ext_step_shorter:
  assumes "ext_step s = Inr (Some r)"
  shows "length r < length s"
proof -
  from assms obtain b t where t: "bws s = b # t" by (cases "bws s") (auto simp: ext_step_def)
  with assms obtain u where u: "token (bws t) = Inr u"
    by (cases "token (bws t)") (auto simp: ext_step_def split: if_splits)
  have less: "length u < length s"
    using t token_shorter [OF u] length_bws [of t] length_bws [of s] by simp
  consider "r = u"
    | c a where "bws u = c # a" "length r < length (bws a)"
    using assms t u
    by (cases "bws u") (auto simp: ext_step_def Let_def split: if_split_asm dest!: ext_value_shorter)
  then have "length r \<le> length u"
  proof cases
    case 2
    with length_bws [of u] length_bws [of a] show ?thesis by simp
  qed simp
  with less show ?thesis by simp
qed

function check_chunk_ext :: "bytes \<Rightarrow> chunked_error + unit" where
  "check_chunk_ext ext =
     (case ext_step ext of
        Inl e \<Rightarrow> Inl e
      | Inr None \<Rightarrow> Inr ()
      | Inr (Some ext') \<Rightarrow> check_chunk_ext ext')"
  by pat_completeness auto
termination by (relation "measure length") (auto dest: ext_step_shorter)

declare check_chunk_ext.simps [simp del]

fun size_loop :: "nat \<Rightarrow> bytes \<Rightarrow> chunked_error + nat" where
  "size_loop sz [] = Inr sz"
| "size_loop sz (b # bs) =
     (case hex_digit b of
        None \<Rightarrow> Inl BadSize
      | Some d \<Rightarrow>
          bind_result
            (ok_or (Option.bind (checked_mul_u64 sz 16) (\<lambda>s. checked_add_u64 s d)) SizeOverflow)
            (\<lambda>sz'. size_loop sz' bs))"

definition parse_chunk_size :: "bytes \<Rightarrow> chunked_error + nat" where
  "parse_chunk_size line =
     (let digits_end = (case position (\<lambda>b. \<not> is_ascii_hexdigit b) line of
            Some i \<Rightarrow> i | None \<Rightarrow> length line);
          digits = take digits_end line;
          ext = drop digits_end line
      in if digits = [] \<or> (ext \<noteq> [] \<and> hd ext \<notin> {CHR '';'', SP, HT}) then Inl BadSize
         else bind_result (if ext \<noteq> [] then check_chunk_ext ext else Inr ()) (\<lambda>_.
           let significant = drop (length (takeWhile (\<lambda>b. b = CHR ''0'') digits)) digits in
           if length significant > MAX_SIZE_DIGITS then Inl SizeOverflow
           else size_loop 0 significant))"

section \<open>Trailers\<close>

definition trailer_name :: "bytes \<Rightarrow> chunked_error + header_id" where
  "trailer_name name =
     (case header_from_bytes name of
        Some i \<Rightarrow> Inr i
      | None \<Rightarrow>
          (let lowered = (if list_ex is_ascii_uppercase name then lower name else name)
           in case from_utf8 lowered of
                Inl _ \<Rightarrow> Inl BadTrailer
              | Inr s \<Rightarrow> Inr (OtherHeader s)))"

function ows_start :: "bytes \<Rightarrow> nat \<Rightarrow> nat \<Rightarrow> nat" where
  "ows_start line start stop =
     (if start < stop \<and> (line ! start = SP \<or> line ! start = HT)
      then ows_start line (start + 1) stop else start)"
  by pat_completeness auto
termination by (relation "measure (\<lambda>(_, start, stop). stop - start)") auto

function ows_end :: "bytes \<Rightarrow> nat \<Rightarrow> nat \<Rightarrow> nat" where
  "ows_end line start stop =
     (if stop > start \<and> (line ! (stop - 1) = SP \<or> line ! (stop - 1) = HT)
      then ows_end line start (stop - 1) else stop)"
  by pat_completeness auto
termination by (relation "measure (\<lambda>(_, start, stop). stop - start)") auto

declare ows_start.simps [simp del] ows_end.simps [simp del]

definition trailer_value :: "bytes \<Rightarrow> nat \<Rightarrow> bytes" where
  "trailer_value line colon =
     (let start = ows_start line (colon + 1) (length line);
          stop = ows_end line start (length line)
      in take (stop - start) (drop start line))"

definition trailer_ctl :: "byte \<Rightarrow> bool" where
  "trailer_ctl b \<longleftrightarrow> (byte_of b < 0x20 \<and> b \<noteq> HT) \<or> byte_of b = 0x7f"

definition push_trailer :: "chunked_decoder \<Rightarrow> bytes \<Rightarrow> chunked_error + chunked_decoder" where
  "push_trailer d line =
     (if line \<noteq> [] \<and> hd line \<in> {SP, HT} then Inl BadTrailer
      else if (case trailers d of None \<Rightarrow> 0 | Some t \<Rightarrow> length t) \<ge> max_trailers d then Inl BadTrailer
      else bind_result (ok_or (memchr (CHR '':'') line) BadTrailer) (\<lambda>colon.
        let name = take colon line in
        if name = [] then Inl BadTrailer
        else if is_ascii_whitespace (last name) then Inl BadTrailer
        else if \<not> (utf8_valid name \<and> valid_field_name name) then Inl BadTrailer
        else bind_result (trailer_name name) (\<lambda>i.
          if forbidden_in_trailers i then Inl ForbiddenTrailer
          else
            (let val = trailer_value line colon in
             if list_ex trailer_ctl val then Inl BadTrailer
             else Inr (d\<lparr>trailers :=
               Some ((case trailers d of None \<Rightarrow> [] | Some t \<Rightarrow> t) @ [(i, val)])\<rparr>)))))"

section \<open>Polling\<close>

type_synonym poll_result = "chunked_error + chunk_event option"

definition poll_step ::
    "chunked_decoder \<Rightarrow> bytes \<Rightarrow> poll_result option \<times> chunked_decoder \<times> bytes" where
  "poll_step d buf =
     (case state d of
        StDone \<Rightarrow> (Some (Inr (Some End)), d, buf)
      | StEnding \<Rightarrow> (Some (Inr (Some End)), d\<lparr>state := StDone\<rparr>, buf)
      | StSize \<Rightarrow>
          (case find_line buf (MAX_SIZE_DIGITS + 256) MissingCrlf of
             Inl e \<Rightarrow> (Some (Inl e), d, buf)
           | Inr None \<Rightarrow> (Some (Inr None), d, buf)
           | Inr (Some (content_len, consumed)) \<Rightarrow>
               (case parse_chunk_size (take content_len buf) of
                  Inl e \<Rightarrow> (Some (Inl e), d, buf)
                | Inr sz \<Rightarrow>
                    (let buf' = drop consumed buf in
                     if (case checked_add_u64 (decoded d) sz of
                           None \<Rightarrow> True | Some tot \<Rightarrow> tot > max_body d)
                     then (Some (Inl ChunkedBodyTooLarge), d, buf')
                     else if sz = 0 then (None, d\<lparr>state := StTrailers\<rparr>, buf')
                     else (None, d\<lparr>remaining := sz, state := StData\<rparr>, buf'))))
      | StData \<Rightarrow>
          if buf = [] then (Some (Inr None), d, buf)
          else
            (let tk = min (length buf) (remaining d);
                 data = take tk buf;
                 d1 = d\<lparr>remaining := wrapping_sub_u64 (remaining d) tk,
                        decoded := wrapping_add_u64 (decoded d) tk\<rparr>;
                 d2 = (if remaining d1 = 0 then d1\<lparr>state := StDataCrlf\<rparr> else d1)
             in (Some (Inr (Some (Data data))), d2, drop tk buf))
      | StDataCrlf \<Rightarrow>
          if length buf < 2 then (Some (Inr None), d, buf)
          else if take 2 buf \<noteq> CRLF then (Some (Inl MissingCrlf), d, buf)
          else (None, d\<lparr>state := StSize\<rparr>, drop 2 buf)
      | StTrailers \<Rightarrow>
          (case find_line buf (max_trailer d) TrailerTooLarge of
             Inl e \<Rightarrow> (Some (Inl e), d, buf)
           | Inr None \<Rightarrow> (Some (Inr None), d, buf)
           | Inr (Some (content_len, consumed)) \<Rightarrow>
               (let d1 = d\<lparr>trailer_bytes := trailer_bytes d + consumed\<rparr> in
                if trailer_bytes d1 > max_trailer d1 then (Some (Inl TrailerTooLarge), d1, buf)
                else if content_len = 0 then
                  (case trailers d1 of
                     None \<Rightarrow> (None, d1\<lparr>state := StEnding\<rparr>, drop consumed buf)
                   | Some t \<Rightarrow>
                       (Some (Inr (Some (Trailers t))), d1\<lparr>state := StEnding, trailers := None\<rparr>,
                        drop consumed buf))
                else
                  (case push_trailer d1 (take content_len buf) of
                     Inl e \<Rightarrow> (Some (Inl e), d1, drop consumed buf)
                   | Inr d2 \<Rightarrow> (None, d2, drop consumed buf)))))"

lemma find_line_Some_iff:
  "find_line buf mx e = Inr (Some (c, n)) \<longleftrightarrow>
     (\<exists>line rest. buf = line @ CRLF @ rest \<and> LF \<notin> set line \<and> c = length line \<and> n = c + 2 \<and> c \<le> mx)"
  (is "?l \<longleftrightarrow> ?r")
proof
  assume ?l
  then obtain i where i: "memchr LF buf = Some i" "i \<noteq> 0" "buf ! (i - 1) = CR" "c = i - 1"
      "n = i + 1" "i - 1 \<le> mx"
    by (auto simp: find_line_def not_less split: option.splits if_splits)
  from i(1) obtain ys zs where z: "buf = ys @ LF # zs" "length ys = i" "LF \<notin> set ys"
    by (auto simp: memchr_def elim!: position_SomeD)
  then have "ys = butlast ys @ [CR]"
    using i(2,3) by (metis One_nat_def append_butlast_last_id last_conv_nth length_0_conv
        lessI nth_append diff_less zero_less_iff_neq_zero)
  with z i have "buf = butlast ys @ CRLF @ zs" "LF \<notin> set (butlast ys)" "c = length (butlast ys)"
    by (auto dest: in_set_butlastD)
  with i show ?r by force
next
  assume ?r
  then obtain line rest where r: "buf = line @ CRLF @ rest" "LF \<notin> set line" "c = length line"
    "n = c + 2" "c \<le> mx" by blast
  then have "memchr LF buf = Some (Suc c)"
    using position_append_first [of "line @ [CR]" "\<lambda>x. x = LF" LF rest] by (auto simp: memchr_def)
  with r show ?l by (simp add: find_line_def nth_append)
qed

lemma poll_step_continue_shorter:
  "poll_step d buf = (None, d', buf') \<Longrightarrow> length buf' < length buf"
  by (auto simp: poll_step_def Let_def find_line_Some_iff
      split: chunk_state.splits sum.splits option.splits if_splits)

function poll :: "chunked_decoder \<Rightarrow> bytes \<Rightarrow> poll_result \<times> chunked_decoder \<times> bytes" where
  "poll d buf =
     (case poll_step d buf of
        (None, d', buf') \<Rightarrow> poll d' buf'
      | (Some r, d', buf') \<Rightarrow> (r, d', buf'))"
  by pat_completeness auto
termination
  by (relation "measure (\<lambda>(_, buf). length buf)") (auto dest!: sym [THEN poll_step_continue_shorter])

declare poll.simps [simp del]

section \<open>The decoder's invariant\<close>

definition trailer_ok :: "header_id \<times> bytes \<Rightarrow> bool" where
  "trailer_ok f \<longleftrightarrow>
     (case f of (i, v) \<Rightarrow>
        \<not> forbidden_in_trailers i \<and> canonical i = i \<and> valid_field_name (header_as_str i)
        \<and> \<not> list_ex trailer_ctl v)"

definition decoder_ok :: "chunked_decoder \<Rightarrow> bool" where
  "decoder_ok d \<longleftrightarrow>
     decoded d + remaining d \<le> max_body d \<and> max_body d < u64_range
     \<and> (state d = StData \<longleftrightarrow> remaining d > 0)
     \<and> trailer_bytes d \<le> max_trailer d
     \<and> (case trailers d of
          None \<Rightarrow> True
        | Some t \<Rightarrow> t \<noteq> [] \<and> length t \<le> max_trailers d \<and> list_all trailer_ok t)"

lemma decoder_okD:
  assumes "decoder_ok d"
  shows "decoded d + remaining d \<le> max_body d" "max_body d < u64_range"
    "state d = StData \<longleftrightarrow> remaining d > 0" "trailer_bytes d \<le> max_trailer d"
  using assms by (simp_all add: decoder_ok_def)

lemma chunked_new_ok: "limits_ok l \<Longrightarrow> decoder_ok (chunked_new l)"
  by (simp add: decoder_ok_def chunked_new_def limits_ok_def)

lemma trailer_name_intern: "trailer_name name = Inr i \<Longrightarrow> i = intern name"
  by (auto simp: trailer_name_def intern_def from_utf8_iff byte_str_from_str_def Let_def
      list_ex_iff split: option.splits sum.splits if_splits)

lemma push_trailer_ok:
  assumes "push_trailer d line = Inr d'"
  obtains f where "d' = d\<lparr>trailers := Some ((case trailers d of None \<Rightarrow> [] | Some t \<Rightarrow> t) @ [f])\<rparr>"
    "trailer_ok f" "(case trailers d of None \<Rightarrow> 0 | Some t \<Rightarrow> length t) < max_trailers d"
proof -
  from assms obtain colon i where c: "valid_field_name (take colon line)"
    "trailer_name (take colon line) = Inr i" "\<not> forbidden_in_trailers i"
    "\<not> list_ex trailer_ctl (trailer_value line colon)"
    "d' = d\<lparr>trailers := Some ((case trailers d of None \<Rightarrow> [] | Some t \<Rightarrow> t)
       @ [(i, trailer_value line colon)])\<rparr>"
    and lt: "(case trailers d of None \<Rightarrow> 0 | Some t \<Rightarrow> length t) < max_trailers d"
    by (auto simp: push_trailer_def Let_def return_iff not_le split: if_split_asm)
  have "trailer_ok (i, trailer_value line colon)"
    using c(3,4) valid_field_name_intern [OF c(1)] trailer_name_intern [OF c(2)]
    by (auto simp: trailer_ok_def canonical_intern)
  with that c(5) lt show thesis by blast
qed

lemma push_trailer_decoder_ok: "decoder_ok d \<Longrightarrow> push_trailer d line = Inr d' \<Longrightarrow> decoder_ok d'"
  by (erule push_trailer_ok) (cases "trailers d"; simp add: decoder_ok_def)

text \<open>What the decoder becomes when \<open>k\<close> body bytes are taken.\<close>

definition advance :: "chunked_decoder \<Rightarrow> nat \<Rightarrow> chunked_decoder" where
  "advance d k =
     d\<lparr>remaining := remaining d - k, decoded := decoded d + k,
       state := (if remaining d = k then StDataCrlf else StData)\<rparr>"

lemma poll_step_data:
  assumes "decoder_ok d" and "state d = StData" and "buf \<noteq> []"
  defines "k \<equiv> min (length buf) (remaining d)"
  shows "poll_step d buf = (Some (Inr (Some (Data (take k buf)))), advance d k, drop k buf)"
proof -
  have k: "k \<le> remaining d" by (simp add: k_def)
  with decoder_okD [OF assms(1)] have r: "wrapping_sub_u64 (remaining d) k = remaining d - k"
    "wrapping_add_u64 (decoded d) k = decoded d + k"
    by (simp_all add: wrapping_sub_u64_exact wrapping_add_u64_exact)
  show ?thesis
    unfolding poll_step_def Let_def k_def [symmetric] r advance_def
    using assms(2,3) k r by simp
qed

lemma advance_ok:
  assumes "decoder_ok d" and "state d = StData" and "k \<le> remaining d"
  shows "decoder_ok (advance d k)"
  using assms by (auto simp: decoder_ok_def advance_def split: option.splits)

text \<open>
  A turn of the loop that does not fail keeps the invariant and the limits, and the bytes it
  leaves are a suffix of the bytes it was given.
\<close>

lemma poll_step_size:
  "state d = StSize \<Longrightarrow> poll_step d buf =
     (case find_line buf (MAX_SIZE_DIGITS + 256) MissingCrlf of
        Inl e \<Rightarrow> (Some (Inl e), d, buf)
      | Inr None \<Rightarrow> (Some (Inr None), d, buf)
      | Inr (Some (content_len, consumed)) \<Rightarrow>
          (case parse_chunk_size (take content_len buf) of
             Inl e \<Rightarrow> (Some (Inl e), d, buf)
           | Inr sz \<Rightarrow>
               if decoded d + sz \<ge> u64_range \<or> decoded d + sz > max_body d
               then (Some (Inl ChunkedBodyTooLarge), d, drop consumed buf)
               else (None, d\<lparr>remaining := if sz = 0 then remaining d else sz,
                              state := if sz = 0 then StTrailers else StData\<rparr>,
                     drop consumed buf)))"
  by (auto simp: poll_step_def Let_def checked_add_u64_def split: sum.splits option.splits)

lemma poll_step_trailers:
  "state d = StTrailers \<Longrightarrow> poll_step d buf =
     (case find_line buf (max_trailer d) TrailerTooLarge of
        Inl e \<Rightarrow> (Some (Inl e), d, buf)
      | Inr None \<Rightarrow> (Some (Inr None), d, buf)
      | Inr (Some (content_len, consumed)) \<Rightarrow>
          (let d1 = d\<lparr>trailer_bytes := trailer_bytes d + consumed\<rparr> in
           if trailer_bytes d + consumed > max_trailer d then (Some (Inl TrailerTooLarge), d1, buf)
           else if content_len = 0 then
             (map_option (\<lambda>t. Inr (Some (Trailers t))) (trailers d),
              d1\<lparr>state := StEnding, trailers := None\<rparr>, drop consumed buf)
           else
             (case push_trailer d1 (take content_len buf) of
                Inl e \<Rightarrow> (Some (Inl e), d1, drop consumed buf)
              | Inr d2 \<Rightarrow> (None, d2, drop consumed buf))))"
  by (auto simp: poll_step_def Let_def split: sum.splits option.splits)

lemma poll_step_ok:
  assumes "decoder_ok d" and "poll_step d buf = (r, d', buf')" and "\<forall>e. r \<noteq> Some (Inl e)"
  shows "decoder_ok d'"
proof (cases "state d")
  case StData
  with poll_step_data [OF assms(1), of buf] assms(1,2) advance_ok [OF assms(1)] show ?thesis
    by (cases "buf = []") (auto simp: poll_step_def)
next
  case StSize
  with assms show ?thesis
    by (auto simp: poll_step_size decoder_ok_def split: sum.splits option.splits if_split_asm)
next
  case StTrailers
  have d1: "decoder_ok (d\<lparr>trailer_bytes := n\<rparr>)"
    "decoder_ok (d\<lparr>trailer_bytes := n, state := StEnding, trailers := None\<rparr>)"
    if "n \<le> max_trailer d" for n
    using assms(1) StTrailers that by (simp_all add: decoder_ok_def split: option.splits)
  have d2: "decoder_ok d2" if "n \<le> max_trailer d" "push_trailer (d\<lparr>trailer_bytes := n\<rparr>) s = Inr d2"
    for n s d2
    using push_trailer_decoder_ok [OF d1(1)] that by blast
  from d1 assms StTrailers show ?thesis
    by (auto simp: poll_step_trailers Let_def not_less intro: d2
        split: sum.splits option.splits if_split_asm)
qed (use assms in \<open>auto simp: poll_step_def decoder_ok_def split: if_split_asm option.splits\<close>)

section \<open>Sizes\<close>

lemma size_loop_Cons:
  "result_ok (size_loop acc (b # bs)) =
     Option.bind (hex_digit b) (\<lambda>d. Option.bind (checked_mul_u64 acc 16)
       (\<lambda>n. Option.bind (checked_add_u64 n d) (\<lambda>m. result_ok (size_loop m bs))))"
  by (auto simp: checked_mul_u64_def checked_add_u64_def split: option.splits)

interpretation hex: positional 16 hex_digit "\<lambda>acc bs. result_ok (size_loop acc bs)" hex_byte hex_digits
proof
  show "2 \<le> (16::nat)" by simp
  show "\<And>b d. hex_digit b = Some d \<Longrightarrow> d < 16" by (rule hex_digit_less)
  show "\<And>d. d < 16 \<Longrightarrow> hex_digit (hex_byte d) = Some d" by (rule hex_digit_hex_byte)
  show "\<And>acc. result_ok (size_loop acc []) = Some acc" by simp
qed (rule size_loop_Cons hex_digits.simps)+

definition hex_value :: "bytes \<Rightarrow> nat" where
  "hex_value bs = foldl (\<lambda>acc b. acc * 16 + the (hex_digit b)) 0 bs"

lemma hex_value_eq: "hex_value bs = hex.digits_value 0 bs"
  by (simp add: hex_value_def hex.digits_value_def)

lemma hex_is_digits: "hex.is_digits bs \<longleftrightarrow> list_all is_ascii_hexdigit bs"
  using hex_digit_iff by (simp add: hex.is_digits_def list_all_iff)

lemma hex_digits_ok:
  "list_all is_ascii_hexdigit (hex_digits n) \<and> hex_digits n \<noteq> [] \<and> hex_value (hex_digits n) = n"
  using hex.printer_digits [of n] by (simp add: hex_value_eq hex_is_digits)

lemma hex_value_strip:
  "hex_value (drop (length (takeWhile (\<lambda>b. b = CHR ''0'') bs)) bs) = hex_value bs"
  by (induction bs) (auto simp: hex_value_def hex_digit_def ascii_defs)

lemma hex_digit_0:
  assumes "hex_digit b = Some 0"
  shows "b = CHR ''0''"
proof -
  have "byte_of b = byte_of (CHR ''0'')"
    using assms by (simp add: hex_digit_def ascii_defs split: if_splits)
  then show ?thesis by (simp only: byte_of_inject)
qed

lemma hex_value_ge:
  assumes "bs \<noteq> []" and "hd bs \<noteq> CHR ''0''" and "list_all is_ascii_hexdigit bs"
  shows "16 ^ (length bs - 1) \<le> hex_value bs"
proof -
  from assms obtain b cs where bs: "bs = b # cs" by (cases bs) auto
  from bs assms(3) obtain d where d: "hex_digit b = Some d"
    using hex_digit_iff [of b] by auto
  with bs assms(2) hex_digit_0 [of b] have "1 \<le> the (hex_digit b)" by (cases d) auto
  moreover have "a * 16 ^ length cs \<le> hex.digits_value a cs" for a
  proof (induction cs arbitrary: a)
    case (Cons c cs)
    have "a * 16 ^ length (c # cs) \<le> (a * 16 + the (hex_digit c)) * 16 ^ length cs"
      by (simp add: algebra_simps)
    also have "\<dots> \<le> hex.digits_value a (c # cs)"
      using Cons [of "a * 16 + the (hex_digit c)"] by simp
    finally show ?case .
  qed simp
  ultimately show ?thesis
    using bs le_trans [OF mult_le_mono1 [of 1 "the (hex_digit b)" "16 ^ length cs"]]
    by (simp add: hex_value_eq)
qed

text \<open>The size a line declares: its hexadecimal digits read without a limit, then an extension.\<close>

definition chunk_size_line :: "bytes \<Rightarrow> nat \<Rightarrow> bool" where
  "chunk_size_line line n \<longleftrightarrow>
     (let digits = takeWhile is_ascii_hexdigit line; ext = dropWhile is_ascii_hexdigit line in
      digits \<noteq> [] \<and> hex_value digits = n \<and> n < u64_range
      \<and> (ext \<noteq> [] \<longrightarrow> hd ext \<in> {CHR '';'', SP, HT} \<and> check_chunk_ext ext = Inr ()))"

lemma split_at_digits:
  fixes line :: bytes
  defines "n \<equiv> (case position (\<lambda>b. \<not> is_ascii_hexdigit b) line of Some i \<Rightarrow> i | None \<Rightarrow> length line)"
  shows "take n line = takeWhile is_ascii_hexdigit line"
    and "drop n line = dropWhile is_ascii_hexdigit line"
  unfolding n_def by (induction line) (auto split: option.splits)

lemma size_loop_iff:
  "size_loop 0 bs = Inr n \<longleftrightarrow> list_all is_ascii_hexdigit bs \<and> hex_value bs = n \<and> n < u64_range"
proof -
  have "size_loop 0 bs = Inr n \<longleftrightarrow> result_ok (size_loop 0 bs) = Some n"
    by (simp add: result_ok_Some_iff)
  then show ?thesis using hex.reader_iff [of 0 bs n] by (simp add: hex_value_eq hex_is_digits)
qed

lemma parse_chunk_size_iff: "parse_chunk_size line = Inr n \<longleftrightarrow> chunk_size_line line n"
proof -
  let ?ds = "takeWhile is_ascii_hexdigit line" and ?ext = "dropWhile is_ascii_hexdigit line"
  let ?sig = "drop (length (takeWhile (\<lambda>b. b = CHR ''0'') ?ds)) ?ds"
  have hex: "list_all is_ascii_hexdigit ?ds" by (auto simp: list_all_iff dest: set_takeWhileD)
  then have hsig: "list_all is_ascii_hexdigit ?sig" by (auto simp: list_all_iff dest: in_set_dropD)
  have sig: "?sig = dropWhile (\<lambda>b. b = CHR ''0'') ?ds" by (simp add: dropWhile_eq_drop)
  have "length ?sig \<le> MAX_SIZE_DIGITS" if "hex_value ?sig < u64_range"
  proof (cases "?sig = []")
    case False
    then have "hd ?sig \<noteq> CHR ''0''"
      using hd_dropWhile [of "\<lambda>b. b = CHR ''0''" ?ds] unfolding sig by blast
    from hex_value_ge [OF False this hsig] that have "(16::nat) ^ (length ?sig - 1) < 16 ^ 16"
      by simp
    then have "length ?sig - 1 < 16" by (rule power_less_imp_less_exp [rotated]) simp
    then show ?thesis by (simp add: MAX_SIZE_DIGITS_def)
  qed simp
  then show ?thesis
    using hsig hex_value_strip [of ?ds] size_loop_iff [of ?sig n]
    unfolding parse_chunk_size_def chunk_size_line_def Let_def split_at_digits
    by (auto simp: return_iff split: if_splits)
qed

section \<open>Trailer values\<close>

lemma ows_start_eq:
  "start \<le> length line \<Longrightarrow>
   ows_start line start (length line) \<le> length line
   \<and> drop (ows_start line start (length line)) line = dropWhile is_ows (drop start line)"
proof (induction line start "length line" rule: ows_start.induct)
  case (1 line start)
  show ?case
  proof (cases "start < length line \<and> (line ! start = SP \<or> line ! start = HT)")
    case True
    with 1(1) [OF True] 1(2) show ?thesis
      by (subst (1 2) ows_start.simps) (auto simp: Cons_nth_drop_Suc [symmetric] is_ows_def)
  next
    case False
    with 1(2) show ?thesis
      by (subst (1 2) ows_start.simps)
         (cases "start = length line"; auto simp: Cons_nth_drop_Suc [symmetric] is_ows_def)
  qed
qed

lemma ows_end_eq:
  "start \<le> stop \<Longrightarrow> stop \<le> length line \<Longrightarrow>
   take (ows_end line start stop - start) (drop start line)
     = trim_ows_back (take (stop - start) (drop start line))"
proof (induction line start stop rule: ows_end.induct)
  case (1 line start stop)
  let ?s = "take (stop - start) (drop start line)"
  show ?case
  proof (cases "stop > start")
    case False
    then have "ows_end line start stop = stop" by (subst ows_end.simps) simp
    with False show ?thesis by (simp add: trim_ows_back.simps)
  next
    case gt: True
    then have s: "?s \<noteq> []" "last ?s = line ! (stop - 1)" "butlast ?s = take (stop - 1 - start) (drop start line)"
      using 1(3) by (auto simp: last_conv_nth butlast_take)
    show ?thesis
    proof (cases "is_ows (line ! (stop - 1))")
      case True
      then have "trim_ows_back ?s = trim_ows_back (butlast ?s)"
        using s by (subst trim_ows_back.simps) simp
      moreover have "ows_end line start stop = ows_end line start (stop - 1)"
        using gt True by (subst ows_end.simps) (simp add: is_ows_def)
      ultimately show ?thesis using 1 gt True s(3) by (simp add: is_ows_def)
    next
      case False
      then have "trim_ows_back ?s = ?s" using s by (subst trim_ows_back.simps) simp
      moreover have "ows_end line start stop = stop"
        using False by (subst ows_end.simps) (simp add: is_ows_def)
      ultimately show ?thesis by simp
    qed
  qed
qed

lemma trailer_value_eq:
  assumes "colon < length line"
  shows "trailer_value line colon = trim_ows (drop (Suc colon) line)"
proof -
  define s where "s = ows_start line (colon + 1) (length line)"
  have s: "s \<le> length line" "drop s line = dropWhile is_ows (drop (Suc colon) line)"
    using ows_start_eq [of "colon + 1" line] assms by (simp_all add: s_def)
  have "trailer_value line colon = take (ows_end line s (length line) - s) (drop s line)"
    by (simp add: trailer_value_def s_def Let_def)
  also have "\<dots> = trim_ows_back (take (length line - s) (drop s line))"
    using ows_end_eq [OF s(1), of line] by simp
  also have "take (length line - s) (drop s line) = drop s line" by simp
  finally show ?thesis using s(2) by (simp add: trim_ows_def trim_ows_front_eq)
qed

end
