(* ===== verification/H1_Drain.thy ===== *)
theory H1_Drain
  imports H1_Chunked
begin

text \<open>
  The chunked decoder over a whole body: polling until the buffer is exhausted, what the reads of
  a connection decode to however the body is cut into them, and the grammar of the transfer
  coding that the decoder accepts.
\<close>

section \<open>Draining a buffer\<close>

text \<open>
  \<open>drain\<close> polls until the buffer is exhausted, the body has ended or an error is reported, as the
  request body does, and collects what was decoded.  \<open>run\<close> is the same loop at the level of
  \<open>poll_step\<close>, on which the proofs go by induction.
\<close>

datatype verdict = NeedMore | Finished | Failed chunked_error

type_synonym drained = "bytes \<times> header_vec \<times> verdict \<times> chunked_decoder \<times> bytes"

definition add_out :: "bytes \<Rightarrow> header_vec \<Rightarrow> drained \<Rightarrow> drained" where
  "add_out x t r = (case r of (body, ts, rest) \<Rightarrow> (x @ body, t @ ts, rest))"

definition work :: "chunked_decoder \<Rightarrow> bytes \<Rightarrow> nat" where
  "work d buf = 2 * length buf + (if state d = StData then 1 else 0)"

lemma poll_step_work:
  "poll_step d buf = (None, d', buf') \<Longrightarrow> work d' buf' < work d buf"
  "poll_step d buf = (Some (Inr (Some (Trailers ts))), d', buf') \<Longrightarrow> work d' buf' < work d buf"
  "poll_step d buf = (Some (Inr (Some (Data x))), d', buf') \<Longrightarrow> work d' buf' < work d buf"
proof -
  show "poll_step d buf = (None, d', buf') \<Longrightarrow> work d' buf' < work d buf"
    by (auto dest!: poll_step_continue_shorter simp: work_def)
  show "poll_step d buf = (Some (Inr (Some (Trailers ts))), d', buf') \<Longrightarrow> work d' buf' < work d buf"
    by (cases "state d")
       (auto simp: poll_step_size poll_step_trailers find_line_Some_iff work_def Let_def
         poll_step_def [of d buf] split: sum.splits option.splits if_split_asm)
  assume a: "poll_step d buf = (Some (Inr (Some (Data x))), d', buf')"
  then have "state d = StData" "buf \<noteq> []"
    by (cases "state d";
        auto simp: poll_step_size poll_step_trailers Let_def poll_step_def [of d buf]
          split: sum.splits option.splits if_split_asm)+
  with a show "work d' buf' < work d buf"
    by (cases "remaining d = 0")
       (auto simp: poll_step_def [of d buf] work_def Let_def wrapping_sub_u64_def min_def
         split: if_split_asm)
qed

function run :: "chunked_decoder \<Rightarrow> bytes \<Rightarrow> drained" where
  "run d buf =
     (case poll_step d buf of
        (None, d', buf') \<Rightarrow> run d' buf'
      | (Some (Inl e), d', buf') \<Rightarrow> ([], [], Failed e, d', buf')
      | (Some (Inr None), d', buf') \<Rightarrow> ([], [], NeedMore, d', buf')
      | (Some (Inr (Some End)), d', buf') \<Rightarrow> ([], [], Finished, d', buf')
      | (Some (Inr (Some (Data x))), d', buf') \<Rightarrow> add_out x [] (run d' buf')
      | (Some (Inr (Some (Trailers t))), d', buf') \<Rightarrow> add_out [] t (run d' buf'))"
  by pat_completeness auto
termination
  by (relation "measure (\<lambda>(d, buf). work d buf)") (auto dest!: sym [THEN poll_step_work(1)]
      sym [THEN poll_step_work(2)] sym [THEN poll_step_work(3)])

declare run.simps [simp del]

lemma poll_work:
  assumes "poll d buf = (Inr (Some ev), d', buf')" and "ev \<noteq> End"
  shows "work d' buf' < work d buf"
  using assms
proof (induction d buf rule: poll.induct)
  case (1 d buf)
  obtain r d1 b1 where s: "poll_step d buf = (r, d1, b1)" by (cases "poll_step d buf") auto
  show ?case
  proof (cases r)
    case None
    with s 1 have "work d' buf' < work d1 b1" by (simp add: poll.simps [of d buf])
    with None s poll_step_work(1) [of d buf d1 b1] show ?thesis by simp
  next
    case (Some x)
    with s 1(2) have "x = Inr (Some ev)" "d1 = d'" "b1 = buf'" by (simp_all add: poll.simps [of d buf])
    with Some s 1(3) show ?thesis by (cases ev) (auto dest: poll_step_work)
  qed
qed

function drain :: "chunked_decoder \<Rightarrow> bytes \<Rightarrow> drained" where
  "drain d buf =
     (case poll d buf of
        (Inl e, d', buf') \<Rightarrow> ([], [], Failed e, d', buf')
      | (Inr None, d', buf') \<Rightarrow> ([], [], NeedMore, d', buf')
      | (Inr (Some End), d', buf') \<Rightarrow> ([], [], Finished, d', buf')
      | (Inr (Some (Data x)), d', buf') \<Rightarrow> add_out x [] (drain d' buf')
      | (Inr (Some (Trailers t)), d', buf') \<Rightarrow> add_out [] t (drain d' buf'))"
  by pat_completeness auto
termination
  by (relation "measure (\<lambda>(d, buf). work d buf)") (auto dest!: sym [THEN poll_work])

declare drain.simps [simp del]

lemma drain_eq_run: "drain d buf = run d buf"
proof (induction d buf rule: run.induct)
  case (1 d buf)
  obtain r d1 b1 where s: "poll_step d buf = (r, d1, b1)" by (cases "poll_step d buf") auto
  show ?case
  proof (cases r)
    case None
    with s have "drain d buf = drain d1 b1"
      by (simp add: drain.simps [of d buf] drain.simps [of d1 b1] poll.simps [of d buf])
    with None s 1 show ?thesis by (simp add: run.simps [of d buf])
  next
    case (Some x)
    with s 1 show ?thesis
      by (auto simp: drain.simps [of d buf] poll.simps [of d buf] run.simps [of d buf]
          split: sum.splits option.splits chunk_event.splits)
  qed
qed

section \<open>What a step keeps\<close>

lemma push_trailer_frame:
  "push_trailer d line = Inr d' \<Longrightarrow> \<exists>t. d' = d\<lparr>trailers := t\<rparr>"
  by (elim push_trailer_ok) auto

definition event_data :: "poll_result option \<Rightarrow> bytes" where
  "event_data r = (case r of Some (Inr (Some (Data x))) \<Rightarrow> x | _ \<Rightarrow> [])"

lemma event_data_simps [simp]:
  "event_data None = []" "event_data (Some (Inl e)) = []" "event_data (Some (Inr None)) = []"
  "event_data (Some (Inr (Some End))) = []" "event_data (Some (Inr (Some (Trailers t)))) = []"
  "event_data (Some (Inr (Some (Data x)))) = x"
  "event_data (map_option (\<lambda>t. Inr (Some (Trailers t))) m) = []"
  by (auto simp: event_data_def split: option.splits)

lemma poll_step_frame:
  assumes "decoder_ok d" and "poll_step d buf = (r, d', buf')"
  shows "max_body d' = max_body d \<and> max_trailer d' = max_trailer d
    \<and> max_trailers d' = max_trailers d \<and> decoded d' = decoded d + length (event_data r)
    \<and> decoded d' + remaining d' \<le> max_body d \<and> suffix buf' buf"
proof (cases "state d")
  case StData
  with poll_step_data [OF assms(1), of buf] assms decoder_okD(1) [OF assms(1)] show ?thesis
    by (cases "buf = []") (auto simp: poll_step_def advance_def suffix_drop)
next
  case StSize
  with assms decoder_okD(1) [OF assms(1)] show ?thesis
    by (auto simp: poll_step_size suffix_drop split: sum.splits option.splits if_split_asm)
next
  case StTrailers
  with assms decoder_okD(1) [OF assms(1)] show ?thesis
    by (auto simp: poll_step_trailers Let_def suffix_drop
        split: sum.splits option.splits if_split_asm dest!: push_trailer_frame)
qed (use assms decoder_okD(1) [OF assms(1)] in \<open>auto simp: poll_step_def suffix_drop split: if_split_asm\<close>)

definition event_trailers :: "poll_result option \<Rightarrow> header_vec" where
  "event_trailers r = (case r of Some (Inr (Some (Trailers t))) \<Rightarrow> t | _ \<Rightarrow> [])"

definition goes_on :: "poll_result option \<Rightarrow> bool" where
  "goes_on r = (case r of None \<Rightarrow> True | Some (Inr (Some ev)) \<Rightarrow> ev \<noteq> End | _ \<Rightarrow> False)"

definition verdict_of :: "poll_result option \<Rightarrow> verdict" where
  "verdict_of r =
     (case r of Some (Inl e) \<Rightarrow> Failed e | Some (Inr (Some _)) \<Rightarrow> Finished | _ \<Rightarrow> NeedMore)"

lemma goes_on_simps [simp]:
  "goes_on None" "\<not> goes_on (Some (Inl e))" "\<not> goes_on (Some (Inr None))"
  "goes_on (Some (Inr (Some ev))) \<longleftrightarrow> ev \<noteq> End"
  by (simp_all add: goes_on_def)

lemma add_out_simps [simp]:
  "add_out [] [] r = r"
  "add_out x t (body, ts, rest) = (x @ body, t @ ts, rest)"
  "add_out x t (add_out y u r) = add_out (x @ y) (t @ u) r"
  by (auto simp: add_out_def split: prod.splits)

lemma run_step:
  "poll_step d buf = (r, d', buf') \<Longrightarrow>
   run d buf =
     (if goes_on r then add_out (event_data r) (event_trailers r) (run d' buf')
      else ([], [], verdict_of r, d', buf'))"
  by (auto simp: run.simps [of d buf] event_data_def event_trailers_def goes_on_def verdict_of_def
      split: option.splits sum.splits chunk_event.splits)

lemma goes_on_work:
  "poll_step d buf = (r, d', buf') \<Longrightarrow> goes_on r \<Longrightarrow> work d' buf' < work d buf"
  using poll_step_work [of d buf]
  by (auto simp: goes_on_def split: option.splits sum.splits chunk_event.splits)
     (metis chunk_event.exhaust)

lemma goes_on_not_failed: "goes_on r \<Longrightarrow> \<forall>e. r \<noteq> Some (Inl e)"
  by auto

lemma run_induct [consumes 1, case_names Step]:
  assumes "decoder_ok d"
    and "\<And>d buf. decoder_ok d \<Longrightarrow>
      (\<And>r d' buf'. poll_step d buf = (r, d', buf') \<Longrightarrow> goes_on r \<Longrightarrow> decoder_ok d' \<Longrightarrow> P d' buf') \<Longrightarrow>
      P d buf"
  shows "P d buf"
  using assms(1)
proof (induction "work d buf" arbitrary: d buf rule: less_induct)
  case less
  show ?case
  proof (rule assms(2) [OF less.prems])
    fix r d' buf'
    assume "poll_step d buf = (r, d', buf')" "goes_on r" "decoder_ok d'"
    with less.hyps show "P d' buf'" by (blast intro: goes_on_work)
  qed
qed

lemma run_bounds:
  assumes "decoder_ok d"
  shows "run d buf = (body, ts, v, d', rest) \<Longrightarrow>
    max_body d' = max_body d \<and> decoded d' = decoded d + length body
    \<and> decoded d' \<le> max_body d \<and> suffix rest buf \<and> ((\<forall>e. v \<noteq> Failed e) \<longrightarrow> decoder_ok d')"
  using assms
proof (induction d buf arbitrary: body ts rule: run_induct)
  case (Step d buf)
  obtain r d1 b1 where s: "poll_step d buf = (r, d1, b1)" by (cases "poll_step d buf") auto
  note frame = poll_step_frame [OF Step(1) s]
  show ?case
  proof (cases "goes_on r")
    case True
    from poll_step_ok [OF Step(1) s goes_on_not_failed [OF True]] have ok: "decoder_ok d1" .
    obtain body1 ts1 v1 d2 rest1 where r1: "run d1 b1 = (body1, ts1, v1, d2, rest1)"
      by (cases "run d1 b1") auto
    with Step.prems s True have o: "body = event_data r @ body1" "v1 = v" "d2 = d'" "rest1 = rest"
      by (simp_all add: run_step)
    from Step.IH [OF s True ok] r1 o have "max_body d' = max_body d1 \<and> decoded d' = decoded d1 + length body1
        \<and> decoded d' \<le> max_body d1 \<and> suffix rest b1 \<and> ((\<forall>e. v \<noteq> Failed e) \<longrightarrow> decoder_ok d')" by simp
    with frame o(1) show ?thesis by (auto dest: suffix_order.trans)
  next
    case False
    with Step.prems s have o: "body = []" "v = verdict_of r" "d' = d1" "rest = b1"
      by (simp_all add: run_step)
    from False have "event_data r = []" by (auto simp: goes_on_def event_data_def split: option.splits sum.splits chunk_event.splits)
    moreover have "(\<forall>e. v \<noteq> Failed e) \<Longrightarrow> \<forall>e. r \<noteq> Some (Inl e)"
      using o(2) by (auto simp: verdict_of_def)
    ultimately show ?thesis using frame o poll_step_ok [OF Step(1) s] by auto
  qed
qed

section \<open>Packetization\<close>

definition ends_cr :: "bytes \<Rightarrow> bool" where
  "ends_cr s \<longleftrightarrow> s \<noteq> [] \<and> last s = CR"

lemma ends_cr_suffix: "suffix r s \<Longrightarrow> ends_cr r \<Longrightarrow> ends_cr s"
  by (auto simp: ends_cr_def suffix_def)

lemma find_line_append:
  "find_line a mx e = Inr (Some x) \<Longrightarrow> find_line (a @ b) mx e = Inr (Some x)"
  by (cases x) (fastforce simp: find_line_Some_iff)

lemma find_line_Some_le: "find_line a mx e = Inr (Some (c, n)) \<Longrightarrow> c \<le> length a \<and> n \<le> length a"
  by (auto simp: find_line_Some_iff)

lemma find_line_error_append:
  assumes "find_line a mx e = Inl e'" and "\<not> ends_cr a"
  shows "\<exists>e''. find_line (a @ b) mx e = Inl e''"
proof (cases "memchr LF a")
  case (Some i)
  then have "memchr LF (a @ b) = Some i" "i < length a"
    by (simp_all add: memchr_def position_append) (simp add: position_Some_iff)
  with Some assms(1) show ?thesis by (auto simp: find_line_def nth_append split: if_splits)
next
  case None
  with assms(1) have len: "length a > mx" by (simp add: find_line_def split: if_splits)
  then have ne: "a \<noteq> []" by auto
  with assms(2) have cr: "a ! (length a - 1) \<noteq> CR" by (simp add: ends_cr_def last_conv_nth)
  have app: "memchr LF (a @ b) = map_option (\<lambda>i. length a + i) (memchr LF b)"
    using None by (simp add: memchr_def position_append)
  show ?thesis
  proof (cases "memchr LF b")
    case None
    with app len show ?thesis by (simp add: find_line_def)
  next
    case (Some j)
    with app len ne cr show ?thesis by (cases j) (auto simp: find_line_def nth_append)
  qed
qed

text \<open>
  More input does not change a turn that went on or reached the end, except that it may extend
  the data taken; and it cannot rescue a refused one unless the refusal split a CRLF.
\<close>

definition awaits_line :: "chunked_decoder \<Rightarrow> bytes \<Rightarrow> chunked_error + (nat \<times> nat) option" where
  "awaits_line d buf =
     (if state d = StSize then find_line buf (MAX_SIZE_DIGITS + 256) MissingCrlf
      else find_line buf (max_trailer d) TrailerTooLarge)"

lemma poll_step_line_append:
  assumes "awaits_line d a = Inr (Some (c, n))" and "state d \<in> {StSize, StTrailers}"
    and "poll_step d a = (r, d', a')"
  shows "poll_step d (a @ b) = (r, d', a' @ b)"
proof -
  from assms(1) have "awaits_line d (a @ b) = Inr (Some (c, n))" "c \<le> length a" "n \<le> length a"
    by (auto simp: awaits_line_def find_line_append dest: find_line_Some_le split: if_splits)
  with assms show ?thesis
    by (auto simp: awaits_line_def poll_step_size poll_step_trailers Let_def
        split: sum.splits if_split_asm)
qed

lemma poll_step_append:
  assumes "poll_step d a = (r, d', a')" and "r \<noteq> Some (Inr None)" and "\<forall>e. r \<noteq> Some (Inl e)"
    and "state d = StData \<Longrightarrow> remaining d \<le> length a"
  shows "poll_step d (a @ b) = (r, d', a' @ b)"
proof (cases "state d \<in> {StSize, StTrailers}")
  case True
  then have "\<exists>c n. awaits_line d a = Inr (Some (c, n))"
    using assms(1-3)
    by (auto simp: awaits_line_def poll_step_size poll_step_trailers split: sum.splits option.splits)
  with True assms(1) poll_step_line_append show ?thesis by blast
next
  case False
  from assms(4) have "state d = StData \<Longrightarrow>
      min (length (a @ b)) (remaining d) = min (length a) (remaining d)" by simp
  with False assms show ?thesis
    by (cases "state d") (auto simp: poll_step_def Let_def split: if_split_asm)
qed

lemma poll_step_error_append:
  assumes "poll_step d a = (Some (Inl e), d', a')" and "\<not> ends_cr a"
  shows "\<exists>e' d'' a''. poll_step d (a @ b) = (Some (Inl e'), d'', a'')"
proof (cases "state d \<in> {StSize, StTrailers}")
  case True
  show ?thesis
  proof (cases "awaits_line d a")
    case (Inl e')
    then have "\<exists>e''. awaits_line d (a @ b) = Inl e''"
      using find_line_error_append [OF _ assms(2), of _ _ e' b] by (auto simp: awaits_line_def)
    with True show ?thesis by (auto simp: awaits_line_def poll_step_size poll_step_trailers)
  next
    case (Inr x)
    with True assms(1) obtain c n where "awaits_line d a = Inr (Some (c, n))"
      by (cases x) (auto simp: awaits_line_def poll_step_size poll_step_trailers)
    with True assms(1) poll_step_line_append show ?thesis by blast
  qed
next
  case False
  with assms show ?thesis
    by (cases "state d") (auto simp: poll_step_def Let_def split: if_split_asm)
qed

lemma poll_step_need_more:
  "poll_step d a = (Some (Inr None), d', a') \<Longrightarrow> d' = d \<and> a' = a"
  by (cases "state d")
     (auto simp: poll_step_size poll_step_trailers Let_def poll_step_def [of d a]
       split: sum.splits option.splits if_split_asm)

lemma advance_advance:
  "i < remaining d \<Longrightarrow> i + j \<le> remaining d \<Longrightarrow> advance (advance d i) j = advance d (i + j)"
  by (auto simp: advance_def)

lemma poll_step_Data_state: "poll_step d a = (Some (Inr (Some (Data x))), d', a') \<Longrightarrow> state d = StData"
  by (cases "state d")
     (auto simp: poll_step_size poll_step_trailers Let_def poll_step_def [of d a]
       split: sum.splits option.splits if_split_asm)

lemma run_partial_data:
  assumes ok: "decoder_ok d" and st: "state d = StData" and lt: "length a < remaining d"
  shows "run d (a @ b) = add_out a [] (run (advance d (length a)) b)"
proof (cases "a = [] \<or> b = []")
  case True
  let ?d1 = "advance d (length a)"
  have d1: "state ?d1 = StData" "decoder_ok ?d1"
    using st lt advance_ok [OF ok st, of "length a"] by (auto simp: advance_def)
  show ?thesis
  proof (cases "a = []")
    case True
    have "advance d 0 = d" using lt st by (simp add: advance_def)
    with True show ?thesis by simp
  next
    case False
    with True have b: "b = []" by simp
    have "run ?d1 [] = ([], [], NeedMore, ?d1, [])"
      using d1 by (simp add: run.simps poll_step_def)
    with b poll_step_data [OF ok st False] lt show ?thesis
      by (simp add: run_step event_trailers_def)
  qed
next
  case False
  let ?d1 = "advance d (length a)" and ?j = "min (length b) (remaining d - length a)"
  have d1: "state ?d1 = StData" "decoder_ok ?d1" "remaining ?d1 = remaining d - length a"
    using st lt advance_ok [OF ok st, of "length a"] by (auto simp: advance_def)
  have k: "min (length (a @ b)) (remaining d) = length a + ?j" using lt by simp
  have "run ?d1 b = add_out (take ?j b) [] (run (advance ?d1 ?j) (drop ?j b))"
    using poll_step_data [OF d1(2,1), of b] False d1(3) by (simp add: run_step event_trailers_def)
  moreover have "run d (a @ b) =
      add_out (a @ take ?j b) [] (run (advance d (length a + ?j)) (drop ?j b))"
    using poll_step_data [OF ok st, of "a @ b"] False unfolding k
    by (simp add: run_step event_trailers_def)
  ultimately show ?thesis using advance_advance [OF lt, of ?j] lt by simp
qed

lemma run_append:
  assumes "decoder_ok d"
  shows "run d a = (body, ts, NeedMore, d', r) \<Longrightarrow> run d (a @ b) = add_out body ts (run d' (r @ b))"
  using assms
proof (induction d a arbitrary: body ts rule: run_induct)
  case (Step d a)
  obtain x d1 a1 where s: "poll_step d a = (x, d1, a1)" by (cases "poll_step d a") auto
  consider "x = Some (Inr None)" | "goes_on x" "state d = StData" "length a < remaining d"
    | "goes_on x" "state d = StData \<Longrightarrow> remaining d \<le> length a"
    using Step.prems s by (cases x) (force simp: run_step verdict_of_def split: if_splits sum.splits option.splits)+
  then show ?case
  proof cases
    case A: 1
    with Step.prems s poll_step_need_more show ?thesis by (force simp: run_step verdict_of_def)
  next
    case A: 2
    have "run d a = add_out a [] ([], [], NeedMore, advance d (length a), [])"
      using run_partial_data [OF Step(1) A(2,3), of "[]"] A(2,3)
      by (simp add: run.simps [of _ "[]"] poll_step_def advance_def)
    with Step.prems run_partial_data [OF Step(1) A(2,3), of b] show ?thesis by auto
  next
    case A: 3
    obtain body1 ts1 v1 d2 r1 where r1: "run d1 a1 = (body1, ts1, v1, d2, r1)"
      by (cases "run d1 a1") auto
    have "poll_step d (a @ b) = (x, d1, a1 @ b)"
      using poll_step_append [OF s _ _ A(2), of b] A(1) by force
    moreover have "run d1 (a1 @ b) = add_out body1 ts1 (run d' (r @ b))"
      using Step.IH [OF s A(1) poll_step_ok [OF Step(1) s goes_on_not_failed [OF A(1)]]]
        r1 Step.prems s A(1) by (simp add: run_step)
    ultimately show ?thesis using Step.prems s A(1) r1 by (simp add: run_step)
  qed
qed

definition stable :: "chunked_decoder \<Rightarrow> bytes \<Rightarrow> bool" where
  "stable d buf \<longleftrightarrow> poll_step d buf = (Some (Inr None), d, buf)"

lemma stable_run: "stable d buf \<Longrightarrow> run d buf = ([], [], NeedMore, d, buf)"
  by (simp add: stable_def run_step verdict_of_def)

lemma run_stable:
  assumes "decoder_ok d"
  shows "run d a = (body, ts, NeedMore, d', r) \<Longrightarrow> stable d' r"
  using assms
proof (induction d a arbitrary: body ts rule: run_induct)
  case (Step d a)
  obtain x d1 a1 where s: "poll_step d a = (x, d1, a1)" by (cases "poll_step d a") auto
  show ?case
  proof (cases "goes_on x")
    case True
    obtain body1 ts1 v1 d2 r1 where r1: "run d1 a1 = (body1, ts1, v1, d2, r1)"
      by (cases "run d1 a1") auto
    with Step.IH [OF s True poll_step_ok [OF Step(1) s goes_on_not_failed [OF True]]] Step.prems s True
    show ?thesis by (simp add: run_step)
  next
    case False
    with Step.prems s have "x = Some (Inr None)"
      by (cases x) (auto simp: run_step verdict_of_def split: sum.splits option.splits)
    with poll_step_need_more [of d a d1 a1] s Step.prems show ?thesis
      by (simp add: run_step stable_def)
  qed
qed

lemma run_final_append:
  assumes "decoder_ok d"
  shows "run d a = (body, ts, Finished, d', r) \<Longrightarrow> run d (a @ b) = (body, ts, Finished, d', r @ b)"
  using assms
proof (induction d a arbitrary: body ts rule: run_induct)
  case (Step d a)
  obtain x d1 a1 where s: "poll_step d a = (x, d1, a1)" by (cases "poll_step d a") auto
  have x: "x \<noteq> Some (Inr None)" "\<forall>e. x \<noteq> Some (Inl e)"
    using Step.prems s by (auto simp: run_step verdict_of_def)
  have "remaining d \<le> length a" if "state d = StData"
  proof (rule ccontr)
    assume "\<not> remaining d \<le> length a"
    with run_partial_data [OF Step(1) that, of a "[]"] that Step.prems show False
      by (simp add: run.simps [of _ "[]"] poll_step_def advance_def)
  qed
  with poll_step_append [OF s x] have app: "poll_step d (a @ b) = (x, d1, a1 @ b)" .
  show ?case
  proof (cases "goes_on x")
    case True
    obtain body1 ts1 v1 d2 r1 where r1: "run d1 a1 = (body1, ts1, v1, d2, r1)"
      by (cases "run d1 a1") auto
    with Step.IH [OF s True poll_step_ok [OF Step(1) s goes_on_not_failed [OF True]]]
      Step.prems s app True show ?thesis by (simp add: run_step)
  next
    case False
    with Step.prems s app show ?thesis by (simp add: run_step)
  qed
qed

lemma run_failed_append:
  assumes "decoder_ok d"
  shows "run d a = (body, ts, Failed e, d', r) \<Longrightarrow> \<not> ends_cr a \<Longrightarrow>
    \<exists>e' d'' r'. run d (a @ b) = (body, ts, Failed e', d'', r')"
  using assms
proof (induction d a arbitrary: body ts rule: run_induct)
  case (Step d a)
  obtain x d1 a1 where s: "poll_step d a = (x, d1, a1)" by (cases "poll_step d a") auto
  show ?case
  proof (cases "goes_on x")
    case False
    with Step.prems(1) s obtain e1 where "x = Some (Inl e1)" "body = []" "ts = []"
      by (cases x) (auto simp: run_step verdict_of_def split: sum.splits option.splits)
    with s poll_step_error_append [of d a e1 d1 a1 b] Step.prems(2) show ?thesis
      by (auto simp: run_step verdict_of_def)
  next
    case True
    obtain body1 ts1 v1 d2 r1 where r1: "run d1 a1 = (body1, ts1, v1, d2, r1)"
      by (cases "run d1 a1") auto
    have len: "remaining d \<le> length a" if "state d = StData"
    proof (rule ccontr)
      assume "\<not> remaining d \<le> length a"
      with run_partial_data [OF Step(1) that, of a "[]"] that Step.prems(1) show False
        by (simp add: run.simps [of _ "[]"] poll_step_def advance_def)
    qed
    have app: "poll_step d (a @ b) = (x, d1, a1 @ b)"
      using poll_step_append [OF s _ _ len, of b] True by force
    have "\<not> ends_cr a1"
      using poll_step_frame [OF Step(1) s] Step.prems(2) by (blast dest: ends_cr_suffix)
    then obtain e' d'' r' where "run d1 (a1 @ b) = (body1, ts1, Failed e', d'', r')"
      using Step.IH [OF s True poll_step_ok [OF Step(1) s goes_on_not_failed [OF True]]]
        Step.prems(1) s True r1 by (fastforce simp: run_step)
    with Step.prems(1) s True r1 app show ?thesis by (simp add: run_step)
  qed
qed

text \<open>The reads of a connection, one after another, each appended to what the last drain left.\<close>

fun feed :: "chunked_decoder \<Rightarrow> bytes \<Rightarrow> bytes list \<Rightarrow> drained" where
  "feed d buf [] = ([], [], NeedMore, d, buf)"
| "feed d buf (x # xs) =
     (case drain d (buf @ x) of
        (body, ts, NeedMore, d', r) \<Rightarrow> add_out body ts (feed d' r xs)
      | (body, ts, v, d', r) \<Rightarrow> (body, ts, v, d', r @ concat xs))"

lemma stable_new: "stable (chunked_new l) []"
  by (simp add: stable_def chunked_new_def poll_step_def find_line_def memchr_def)

definition failed :: "drained \<Rightarrow> bool" where
  "failed r \<longleftrightarrow> (\<exists>body ts e d buf. r = (body, ts, Failed e, d, buf))"

lemma failed_simps [simp]:
  "failed (body, ts, v, d, buf) \<longleftrightarrow> (\<exists>e. v = Failed e)"
  "failed (add_out x t r) \<longleftrightarrow> failed r"
  by (cases r; auto simp: failed_def)+

lemma feed_eq:
  "decoder_ok d \<Longrightarrow> stable d buf \<Longrightarrow> \<not> failed (feed d buf xs) \<Longrightarrow> feed d buf xs = run d (buf @ concat xs)"
proof (induction xs arbitrary: d buf)
  case Nil
  then show ?case by (simp add: stable_run)
next
  case (Cons x xs)
  obtain body ts v d' r where r: "run d (buf @ x) = (body, ts, v, d', r)"
    by (cases "run d (buf @ x)") auto
  show ?case
  proof (cases v)
    case NeedMore
    then have "decoder_ok d'" "stable d' r"
      using run_bounds [OF Cons(2) r] run_stable [OF Cons(2)] r by simp_all
    with Cons.IH Cons.prems(3) NeedMore r have "feed d' r xs = run d' (r @ concat xs)"
      by (simp add: drain_eq_run)
    with NeedMore r run_append [OF Cons(2), of "buf @ x" body ts d' r "concat xs"] show ?thesis
      by (simp add: drain_eq_run)
  next
    case Finished
    with r run_final_append [OF Cons(2), of "buf @ x" body ts d' r "concat xs"] show ?thesis
      by (simp add: drain_eq_run)
  next
    case (Failed e)
    with Cons.prems(3) r show ?thesis by (simp add: drain_eq_run)
  qed
qed

lemma feed_failed:
  "decoder_ok d \<Longrightarrow> stable d buf \<Longrightarrow> list_all (\<lambda>x. x \<noteq> [] \<and> \<not> ends_cr x) (butlast xs) \<Longrightarrow>
   feed d buf xs = (body, ts, Failed e, d', r) \<Longrightarrow>
   \<exists>e' d'' r'. run d (buf @ concat xs) = (body, ts, Failed e', d'', r')"
proof (induction xs arbitrary: d buf body ts)
  case Nil
  then show ?case by simp
next
  case (Cons x xs)
  obtain b1 t1 v d1 r1 where r: "run d (buf @ x) = (b1, t1, v, d1, r1)"
    by (cases "run d (buf @ x)") auto
  show ?case
  proof (cases v)
    case NeedMore
    then have ok: "decoder_ok d1" "stable d1 r1"
      using run_bounds [OF Cons(2) r] run_stable [OF Cons(2)] r by simp_all
    from Cons.prems(4) NeedMore r obtain b2 t2 where f: "feed d1 r1 xs = (b2, t2, Failed e, d', r)"
        "body = b1 @ b2" "ts = t1 @ t2"
      by (cases "feed d1 r1 xs") (auto simp: drain_eq_run)
    have "list_all (\<lambda>x. x \<noteq> [] \<and> \<not> ends_cr x) (butlast xs)"
      using Cons.prems(3) by (auto split: if_splits)
    with Cons.IH [OF ok _ f(1)] obtain e' d'' r' where
      "run d1 (r1 @ concat xs) = (b2, t2, Failed e', d'', r')" by blast
    with NeedMore r run_append [OF Cons(2), of "buf @ x" b1 t1 d1 r1 "concat xs"] f show ?thesis by simp
  next
    case Finished
    with Cons.prems(4) r show ?thesis by (simp add: drain_eq_run)
  next
    case (Failed e1)
    with Cons.prems(4) r have eq: "body = b1" "ts = t1" by (simp_all add: drain_eq_run)
    show ?thesis
    proof (cases xs)
      case Nil
      with r Failed eq show ?thesis by simp
    next
      case (Cons y ys)
      with Cons.prems(3) have "\<not> ends_cr (buf @ x)" by (auto simp: ends_cr_def)
      with run_failed_append [OF \<open>decoder_ok d\<close>, of "buf @ x" b1 t1 e1 d1 r1 "concat xs"] r Failed eq
      show ?thesis by simp
    qed
  qed
qed

section \<open>The grammar\<close>

text \<open>
  RFC 9112 section 7.1, read without limits: a size line, that many bytes, CRLF, and so on to the
  zero chunk; then the trailer section, whose field lines intern their name and trim their value.
\<close>

definition field_line :: "bytes \<Rightarrow> header_id \<times> bytes \<Rightarrow> bool" where
  "field_line line f \<longleftrightarrow>
     (\<exists>name val. line = name @ CHR '':'' # val \<and> valid_field_name name
        \<and> f = (intern name, trim_ows val) \<and> \<not> forbidden_in_trailers (intern name))"

inductive trailer_section :: "bytes \<Rightarrow> header_vec \<Rightarrow> bool" where
  no_field: "trailer_section CRLF []"
| field: "field_line line f \<Longrightarrow> LF \<notin> set line \<Longrightarrow> trailer_section s fs \<Longrightarrow>
    trailer_section (line @ CRLF @ s) (f # fs)"

inductive chunked_grammar :: "bytes \<Rightarrow> bytes \<Rightarrow> header_vec \<Rightarrow> bool" where
  last_chunk: "chunk_size_line line 0 \<Longrightarrow> LF \<notin> set line \<Longrightarrow> trailer_section s fs \<Longrightarrow>
    chunked_grammar (line @ CRLF @ s) [] fs"
| chunk: "chunk_size_line line (length x) \<Longrightarrow> LF \<notin> set line \<Longrightarrow> x \<noteq> [] \<Longrightarrow>
    chunked_grammar s body fs \<Longrightarrow> chunked_grammar (line @ CRLF @ x @ CRLF @ s) (x @ body) fs"

definition pending :: "chunked_decoder \<Rightarrow> header_vec" where
  "pending d = (case trailers d of None \<Rightarrow> [] | Some t \<Rightarrow> t)"

text \<open>What is still to be read from each state of the decoder.\<close>

definition rest_grammar :: "chunked_decoder \<Rightarrow> bytes \<Rightarrow> bytes \<Rightarrow> header_vec \<Rightarrow> bool" where
  "rest_grammar d c body ts =
     (case state d of
        StSize \<Rightarrow> (\<exists>fs. chunked_grammar c body fs \<and> ts = pending d @ fs)
      | StData \<Rightarrow> (\<exists>x s b fs. c = x @ CRLF @ s \<and> length x = remaining d \<and> chunked_grammar s b fs
            \<and> body = x @ b \<and> ts = pending d @ fs)
      | StDataCrlf \<Rightarrow> (\<exists>s fs. c = CRLF @ s \<and> chunked_grammar s body fs \<and> ts = pending d @ fs)
      | StTrailers \<Rightarrow> (\<exists>fs. trailer_section c fs \<and> body = [] \<and> ts = pending d @ fs)
      | _ \<Rightarrow> c = [] \<and> body = [] \<and> ts = [])"

lemma push_trailer_field:
  assumes "push_trailer d line = Inr d'"
  shows "\<exists>f. field_line line f \<and> d' = d\<lparr>trailers := Some (pending d @ [f])\<rparr>"
proof -
  from assms obtain colon i where c: "memchr (CHR '':'') line = Some colon"
    "valid_field_name (take colon line)" "trailer_name (take colon line) = Inr i"
    "\<not> forbidden_in_trailers i" "d' = d\<lparr>trailers := Some (pending d @ [(i, trailer_value line colon)])\<rparr>"
    by (auto simp: push_trailer_def Let_def return_iff pending_def split: if_split_asm)
  from c(1) have lt: "colon < length line" "line ! colon = CHR '':''"
    by (simp_all add: memchr_def position_Some_iff)
  then have "line = take colon line @ CHR '':'' # drop (Suc colon) line"
    by (metis id_take_nth_drop)
  with c(2-4) trailer_name_intern [OF c(3)] trailer_value_eq [OF lt(1)] have
    "field_line line (i, trailer_value line colon)" unfolding field_line_def by blast
  with c(5) show ?thesis by blast
qed

lemma size_step_grammar:
  assumes "state d = StSize" and "poll_step d buf = (None, d', buf')"
  obtains line sz where "buf = line @ CRLF @ buf'" "LF \<notin> set line" "chunk_size_line line sz"
    "d' = d\<lparr>remaining := if sz = 0 then remaining d else sz, state := if sz = 0 then StTrailers else StData\<rparr>"
  using assms
  by (auto simp: poll_step_size find_line_Some_iff parse_chunk_size_iff
      split: sum.splits option.splits if_split_asm)

lemma trailer_step_grammar:
  assumes "state d = StTrailers" and "poll_step d buf = (r, d', buf')" and "goes_on r"
  obtains (field) line f where "r = None" "buf = line @ CRLF @ buf'" "LF \<notin> set line" "field_line line f"
      "state d' = StTrailers" "pending d' = pending d @ [f]"
    | (stop) "event_data r = []" "event_trailers r = pending d" "buf = CRLF @ buf'" "state d' = StEnding"
proof -
  from assms obtain c n where n: "find_line buf (max_trailer d) TrailerTooLarge = Inr (Some (c, n))"
    by (auto simp: poll_step_trailers split: sum.splits option.splits)
  then obtain line rest where l: "buf = line @ CRLF @ rest" "LF \<notin> set line" "c = length line" "n = c + 2"
    by (auto simp: find_line_Some_iff)
  show thesis
  proof (cases "c = 0")
    case True
    with assms n l that(2) show thesis
      by (auto simp: poll_step_trailers Let_def pending_def event_trailers_def split: option.splits if_split_asm)
  next
    case False
    let ?d1 = "d\<lparr>trailer_bytes := trailer_bytes d + n\<rparr>"
    from False assms n l obtain d2 where d2: "push_trailer ?d1 line = Inr d2" "r = None" "d' = d2" "buf' = rest"
      by (auto simp: poll_step_trailers Let_def split: sum.splits if_split_asm)
    from push_trailer_field [OF d2(1)] obtain f where "field_line line f"
      "d' = ?d1\<lparr>trailers := Some (pending ?d1 @ [f])\<rparr>" using d2 by blast
    moreover from this have "state d' = StTrailers" "pending d' = pending d @ [f]"
      using assms(1) by (simp_all add: pending_def)
    ultimately show thesis using that(1) l d2 by blast
  qed
qed

lemma rest_grammar_simps:
  "state d = StEnding \<or> state d = StDone \<Longrightarrow> rest_grammar d c body ts \<longleftrightarrow> c = [] \<and> body = [] \<and> ts = []"
  by (auto simp: rest_grammar_def)

lemma rest_grammar_step:
  assumes ok: "decoder_ok d" and s: "poll_step d buf = (r, d', buf')" and on: "goes_on r"
    and g: "rest_grammar d' c' body ts"
  shows "\<exists>c. buf = c @ buf' \<and> rest_grammar d (c @ c') (event_data r @ body) (event_trailers r @ ts)"
proof (cases "state d")
  case StSize
  with s on have "r = None"
    by (auto simp: poll_step_size split: sum.splits option.splits if_split_asm)
  with StSize s obtain line sz where l: "buf = line @ CRLF @ buf'" "LF \<notin> set line" "chunk_size_line line sz"
    "d' = d\<lparr>remaining := if sz = 0 then remaining d else sz, state := if sz = 0 then StTrailers else StData\<rparr>"
    by (auto elim: size_step_grammar)
  have "pending d' = pending d" using l(4) by (simp add: pending_def)
  then have "rest_grammar d ((line @ CRLF) @ c') body ts"
    using StSize l g last_chunk [OF _ l(2)] chunk [OF _ l(2)]
    by (cases "sz = 0") (auto simp: rest_grammar_def)
  with l(1) \<open>r = None\<close> show ?thesis by (auto simp: event_trailers_def)
next
  case StData
  with s on have ne: "buf \<noteq> []" by (auto simp: poll_step_def)
  let ?k = "min (length buf) (remaining d)"
  from poll_step_data [OF ok StData ne] s have r: "r = Some (Inr (Some (Data (take ?k buf))))"
    "d' = advance d ?k" "buf' = drop ?k buf" by simp_all
  have "rest_grammar d (take ?k buf @ c') (take ?k buf @ body) ts"
  proof (cases "remaining d = ?k")
    case True
    with g r(2) StData show ?thesis
      by (auto simp: rest_grammar_def advance_def pending_def)
         (metis append_Cons append_Nil length_take min.absorb_iff2 min.commute)
  next
    case False
    then have lt: "length buf < remaining d" by (simp add: min_def split: if_splits)
    with g r(2) False obtain x s b fs where x: "c' = x @ CRLF @ s" "length x = remaining d - length buf"
      "chunked_grammar s b fs" "body = x @ b" "ts = pending d @ fs"
      by (auto simp: rest_grammar_def advance_def pending_def)
    with lt have "take ?k buf @ c' = (buf @ x) @ CRLF @ s" "length (buf @ x) = remaining d"
      "take ?k buf @ body = (buf @ x) @ b" by simp_all
    with x(3,5) show ?thesis unfolding rest_grammar_def StData chunk_state.case by blast
  qed
  with r show ?thesis by (auto simp: event_trailers_def intro!: exI [of _ "take ?k buf"])
next
  case StDataCrlf
  with s on have "r = None" "buf = CRLF @ buf'" "d' = d\<lparr>state := StSize\<rparr>"
    by (auto simp: poll_step_def split: if_split_asm) (metis append_Cons append_Nil append_take_drop_id)
  with StDataCrlf g show ?thesis by (auto simp: rest_grammar_def event_trailers_def pending_def)
next
  case StTrailers
  from this s on show ?thesis
  proof (cases rule: trailer_step_grammar)
    case (field line f)
    with g StTrailers trailer_section.field [OF field(4,3)] show ?thesis
      by (auto simp: rest_grammar_def event_trailers_def intro!: exI [of _ "line @ CRLF"])
  next
    case stop
    with g StTrailers trailer_section.no_field show ?thesis
      by (auto simp: rest_grammar_def intro!: exI [of _ CRLF])
  qed
qed (use s on in \<open>auto simp: poll_step_def\<close>)

lemma run_grammar:
  assumes "decoder_ok d"
  shows "run d buf = (body, ts, Finished, d', rest) \<Longrightarrow>
    \<exists>c. buf = c @ rest \<and> rest_grammar d c body ts"
  using assms
proof (induction d buf arbitrary: body ts rule: run_induct)
  case (Step d buf)
  obtain r d1 b1 where s: "poll_step d buf = (r, d1, b1)" by (cases "poll_step d buf") auto
  show ?case
  proof (cases "goes_on r")
    case True
    obtain body1 ts1 v1 d2 rest1 where r1: "run d1 b1 = (body1, ts1, v1, d2, rest1)"
      by (cases "run d1 b1") auto
    with Step.prems s True have o: "body = event_data r @ body1" "ts = event_trailers r @ ts1"
      "v1 = Finished" "d2 = d'" "rest1 = rest" by (simp_all add: run_step)
    with Step.IH [OF s True poll_step_ok [OF Step(1) s goes_on_not_failed [OF True]]] r1 obtain c1 where
      "b1 = c1 @ rest" "rest_grammar d1 c1 body1 ts1" by auto
    with rest_grammar_step [OF Step(1) s True this(2)] o show ?thesis by force
  next
    case False
    with Step.prems s have "r = Some (Inr (Some End))" "body = []" "ts = []" "rest = b1"
      by (cases r; auto simp: run_step verdict_of_def split: sum.splits option.splits)+
    moreover from this s have "state d = StEnding \<or> state d = StDone" "b1 = buf"
      by (cases "state d"; auto simp: poll_step_size poll_step_trailers Let_def poll_step_def [of d buf]
          split: sum.splits option.splits if_split_asm)+
    ultimately show ?thesis by (simp add: rest_grammar_simps)
  qed
qed

section \<open>Bounds over a whole body\<close>

lemma run_ending:
  "state d = StEnding \<or> state d = StDone \<Longrightarrow> run d buf = ([], [], Finished, d\<lparr>state := StDone\<rparr>, buf)"
  by (auto simp: run.simps poll_step_def)


lemma run_finished_done:
  assumes "decoder_ok d"
  shows "run d a = (body, ts, Finished, d', r) \<Longrightarrow> state d' = StDone"
  using assms
proof (induction d a arbitrary: body ts rule: run_induct)
  case (Step d a)
  obtain x d1 a1 where s: "poll_step d a = (x, d1, a1)" by (cases "poll_step d a") auto
  show ?case
  proof (cases "goes_on x")
    case True
    obtain b1 t1 v1 d2 r1 where r1: "run d1 a1 = (b1, t1, v1, d2, r1)" by (cases "run d1 a1") auto
    with Step.IH [OF s True poll_step_ok [OF Step(1) s goes_on_not_failed [OF True]]] Step.prems s True
    show ?thesis by (simp add: run_step)
  next
    case False
    with Step.prems s have "x = Some (Inr (Some End))" "d' = d1"
      by (cases x; auto simp: run_step verdict_of_def split: sum.splits option.splits)+
    with s show ?thesis
      by (cases "state d") (auto simp: poll_step_size poll_step_trailers Let_def poll_step_def [of d a]
          split: sum.splits option.splits if_split_asm)
  qed
qed








section \<open>Decoding well-formed chunks\<close>

lemma poll_step_size_line:
  assumes "state d = StSize" and "LF \<notin> set line" and "length line \<le> MAX_SIZE_DIGITS + 256"
    and "chunk_size_line line sz" and "decoded d + sz \<le> max_body d" and "max_body d < u64_range"
  shows "poll_step d (line @ CRLF @ rest) =
    (None, d\<lparr>remaining := if sz = 0 then remaining d else sz,
             state := if sz = 0 then StTrailers else StData\<rparr>, rest)"
proof -
  have "find_line (line @ CRLF @ rest) (MAX_SIZE_DIGITS + 256) MissingCrlf =
      Inr (Some (length line, length line + 2))"
    using assms(2,3) by (auto simp: find_line_Some_iff)
  with assms show ?thesis by (simp add: poll_step_size parse_chunk_size_iff [symmetric])
qed

lemma run_chunk:
  assumes "decoder_ok d" and "state d = StSize" and "LF \<notin> set line"
    and "length line \<le> MAX_SIZE_DIGITS + 256" and "chunk_size_line line (length x)" and "x \<noteq> []"
    and "decoded d + length x \<le> max_body d"
  shows "run d (line @ CRLF @ x @ CRLF @ rest) =
    add_out x [] (run (d\<lparr>decoded := decoded d + length x\<rparr>) rest)"
proof -
  let ?d1 = "d\<lparr>remaining := length x, state := StData\<rparr>"
  have r: "remaining d = 0" using decoder_okD(3) [OF assms(1)] assms(2) by simp
  have s1: "poll_step d (line @ CRLF @ x @ CRLF @ rest) = (None, ?d1, x @ CRLF @ rest)"
    using poll_step_size_line [OF assms(2-5,7) decoder_okD(2) [OF assms(1)], of "x @ CRLF @ rest"]
      assms(6) by simp
  have ok: "decoder_ok ?d1" using poll_step_ok [OF assms(1) s1] by simp
  have s2: "poll_step ?d1 (x @ CRLF @ rest) =
      (Some (Inr (Some (Data x))), advance ?d1 (length x), CRLF @ rest)"
    using poll_step_data [OF ok, of "x @ CRLF @ rest"] by simp
  have s3: "poll_step (advance ?d1 (length x)) (CRLF @ rest) =
      (None, d\<lparr>decoded := decoded d + length x\<rparr>, rest)"
    using r assms(2) by (simp add: poll_step_def advance_def)
  show ?thesis
    by (simp only: run_step [OF s1] run_step [OF s2] run_step [OF s3] goes_on_simps event_data_simps
        event_trailers_def add_out_simps if_True option.case sum.case chunk_event.case chunk_event.simps
        simp_thms) simp
qed

lemma run_last_chunk:
  assumes "decoder_ok d" and "state d = StSize" and "trailers d = None" and "LF \<notin> set line"
    and "length line \<le> MAX_SIZE_DIGITS + 256" and "chunk_size_line line 0"
    and "trailer_bytes d + 2 \<le> max_trailer d"
  shows "run d (line @ CRLF @ CRLF @ rest) =
    ([], [], Finished, d\<lparr>state := StDone, trailer_bytes := trailer_bytes d + 2\<rparr>, rest)"
proof -
  let ?d1 = "d\<lparr>state := StTrailers\<rparr>"
  have s1: "poll_step d (line @ CRLF @ CRLF @ rest) = (None, ?d1, CRLF @ rest)"
    using poll_step_size_line [OF assms(2,4-6) _ decoder_okD(2) [OF assms(1)], of "CRLF @ rest"]
      decoder_okD(1) [OF assms(1)] by simp
  have "find_line (CRLF @ rest) (max_trailer d) TrailerTooLarge = Inr (Some (0, 2))"
    by (auto simp: find_line_Some_iff)
  with assms(3,7) have s2: "poll_step ?d1 (CRLF @ rest) =
      (None, ?d1\<lparr>trailer_bytes := trailer_bytes d + 2, state := StEnding, trailers := None\<rparr>, rest)"
    by (simp add: poll_step_trailers)
  show ?thesis
    using assms(3) by (simp only: run_step [OF s1] run_step [OF s2]) (simp add: event_trailers_def run_ending)
qed

lemma hex_digits_line:
  assumes "n < u64_range"
  shows "chunk_size_line (hex_digits n) n" "length (hex_digits n) \<le> MAX_SIZE_DIGITS"
    "LF \<notin> set (hex_digits n)"
proof -
  have hex: "\<forall>b \<in> set (hex_digits n). is_ascii_hexdigit b"
    using hex_digits_ok [of n] by (simp add: list_all_iff)
  then have tw: "takeWhile is_ascii_hexdigit (hex_digits n) = hex_digits n"
    and dw: "dropWhile is_ascii_hexdigit (hex_digits n) = []" by simp_all
  show "chunk_size_line (hex_digits n) n"
    unfolding chunk_size_line_def Let_def tw dw using hex_digits_ok [of n] assms by simp
  show "length (hex_digits n) \<le> MAX_SIZE_DIGITS"
    using hex.printer_length [of n 15] assms by (simp add: MAX_SIZE_DIGITS_def)
  show "LF \<notin> set (hex_digits n)" using hex by (auto simp: ascii_defs)
qed

section \<open>What the decoder promises\<close>

definition sample_body :: bytes where
  "sample_body = ''5'' @ CRLF @ ''hello'' @ CRLF @ ''0'' @ CRLF @ CRLF"

lemma sample_size_lines: "chunk_size_line ''5'' (length ''hello'')" "chunk_size_line ''0'' 0"
  by (simp_all add: chunk_size_line_def hex_value_def hex_digit_def ascii_defs)

lemma sample_drained:
  "drain (chunked_new default_limits) (sample_body @ rest) =
     (''hello'', [], Finished,
      (chunked_new default_limits)\<lparr>decoded := length ''hello'', state := StDone, trailer_bytes := 2\<rparr>, rest)"
proof -
  let ?d = "chunked_new default_limits"
  have ok: "decoder_ok ?d" by (rule chunked_new_ok [OF default_limits_ok])
  have "run ?d (sample_body @ rest) =
      add_out ''hello'' [] (run (?d\<lparr>decoded := length ''hello''\<rparr>) (''0'' @ CRLF @ CRLF @ rest))"
    using run_chunk [OF ok, of "''5''" "''hello''" "''0'' @ CRLF @ CRLF @ rest"] sample_size_lines
    by (simp add: sample_body_def chunked_new_def default_limits_def MAX_SIZE_DIGITS_def)
  moreover have "decoder_ok (?d\<lparr>decoded := length ''hello''\<rparr>)"
    by (simp add: decoder_ok_def chunked_new_def default_limits_def)
  note run_last_chunk [OF this, of "''0''" rest]
  ultimately show ?thesis
    using sample_size_lines
    by (simp add: drain_eq_run chunked_new_def default_limits_def MAX_SIZE_DIGITS_def)
qed

text \<open>C4. How a chunked body is cut into reads matters in one way only.  If the body in pieces is not
  refused, its decoded bytes, trailers and verdict and the place where the next request starts are
  those of the body in one piece.  If it is refused, it is refused in one piece too, after the same
  bytes, provided no read but the last is empty or ends in a CR; with a read that does, a line of
  exactly the allowed length is refused although it is taken in one piece.\<close>

theorem chunked_split_invariant:
  assumes "limits_ok l"
  shows "(\<not> failed (feed (chunked_new l) [] reads) \<longrightarrow>
      feed (chunked_new l) [] reads = drain (chunked_new l) (concat reads))
    \<and> (failed (feed (chunked_new l) [] reads)
         \<and> list_all (\<lambda>x. x \<noteq> [] \<and> \<not> ends_cr x) (butlast reads) \<longrightarrow>
       failed (drain (chunked_new l) (concat reads))
       \<and> fst (drain (chunked_new l) (concat reads)) = fst (feed (chunked_new l) [] reads))"
proof -
  note ok = chunked_new_ok [OF assms]
  from feed_eq [OF ok stable_new] have "\<not> failed (feed (chunked_new l) [] reads) \<Longrightarrow>
      feed (chunked_new l) [] reads = drain (chunked_new l) (concat reads)"
    by (simp add: drain_eq_run)
  moreover have "failed (drain (chunked_new l) (concat reads))
       \<and> fst (drain (chunked_new l) (concat reads)) = fst (feed (chunked_new l) [] reads)"
    if f: "failed (feed (chunked_new l) [] reads)"
      and r: "list_all (\<lambda>x. x \<noteq> [] \<and> \<not> ends_cr x) (butlast reads)"
  proof -
    from f obtain body ts e d' b where "feed (chunked_new l) [] reads = (body, ts, Failed e, d', b)"
      by (auto simp: failed_def)
    with feed_failed [OF ok stable_new r this] show ?thesis by (auto simp: drain_eq_run)
  qed
  ultimately show ?thesis by blast
qed

theorem chunked_split_invariant_witness:
  "feed (chunked_new default_limits) [] [sample_body, ''GET '']
     = drain (chunked_new default_limits) (sample_body @ ''GET '')"
proof -
  have "\<not> failed (feed (chunked_new default_limits) [] [sample_body, ''GET ''])"
    using sample_drained [of "[]"] by simp
  then show ?thesis
    using chunked_split_invariant [OF default_limits_ok, of "[sample_body, ''GET '']"] by simp
qed

text \<open>C5. What the decoder accepts is the chunked grammar: when it reports the end, the bytes it
  consumed are a sequence of size lines, chunk data of exactly those sizes, a zero chunk and a
  trailer section, whose concatenated data is the body it emitted; every byte after them is left
  for the next request.\<close>

theorem chunked_sound:
  assumes "limits_ok l" and "feed (chunked_new l) [] reads = (body, ts, Finished, d', rest)"
  shows "\<exists>c. concat reads = c @ rest \<and> chunked_grammar c body ts \<and> is_done d'"
proof -
  note ok = chunked_new_ok [OF assms(1)]
  from feed_eq [OF ok stable_new, of reads] assms(2)
  have r: "run (chunked_new l) (concat reads) = (body, ts, Finished, d', rest)" by simp
  from run_grammar [OF ok this] obtain c where "concat reads = c @ rest"
    "rest_grammar (chunked_new l) c body ts" by blast
  moreover from this(2) have "chunked_grammar c body ts"
    by (auto simp: rest_grammar_def chunked_new_def pending_def)
  ultimately show ?thesis using run_finished_done [OF ok r] by (simp add: is_done_def)
qed

theorem chunked_sound_witness:
  "\<exists>c. sample_body @ ''GET '' = c @ ''GET '' \<and> chunked_grammar c ''hello'' []"
  using chunked_sound [OF default_limits_ok, of "[sample_body @ ''GET '']" "''hello''" "[]"]
    sample_drained [of "''GET ''"] by simp



text \<open>
  The size-line bound depends on packetization in one place: a line whose content is exactly 272
  bytes is taken whole, but refused when the read ends between its CR and its LF, because the
  check without a terminator counts the CR.
\<close>

lemma size_line_bound_depends_on_split:
  assumes "length line = MAX_SIZE_DIGITS + 256" and "LF \<notin> set line"
  shows "find_line (line @ CRLF) (MAX_SIZE_DIGITS + 256) MissingCrlf
      = Inr (Some (length line, length line + 2))
    \<and> find_line (line @ [CR]) (MAX_SIZE_DIGITS + 256) MissingCrlf = Inl MissingCrlf"
proof -
  have "memchr LF (line @ [CR]) = None" using assms(2) by (auto simp: memchr_def position_None_iff)
  with assms find_line_Some_iff [of "line @ CRLF" "MAX_SIZE_DIGITS + 256" MissingCrlf
      "length line" "length line + 2"] show ?thesis
    by (auto simp: find_line_def [of "line @ [CR]"])
qed

theorem verdict_depends_on_split:
  assumes "limits_ok l" and "2 \<le> max_head_bytes l"
    and "length line = MAX_SIZE_DIGITS + 256" and "LF \<notin> set line" and "chunk_size_line line 0"
  shows "\<not> failed (drain (chunked_new l) (concat [line @ [CR], LF # CRLF]))
    \<and> failed (feed (chunked_new l) [] [line @ [CR], LF # CRLF])"
proof -
  note ok = chunked_new_ok [OF assms(1)]
  have "\<not> failed (run (chunked_new l) (line @ CRLF @ CRLF @ []))"
    using run_last_chunk [OF ok, of line "[]"] assms(2-5) by (simp add: chunked_new_def)
  moreover have "poll_step (chunked_new l) (line @ [CR]) = (Some (Inl MissingCrlf), chunked_new l, line @ [CR])"
    using size_line_bound_depends_on_split [OF assms(3,4)] by (simp add: poll_step_size chunked_new_def)
  then have "failed (run (chunked_new l) (line @ [CR]))" by (simp add: run_step verdict_of_def)
  ultimately show ?thesis by (auto simp: drain_eq_run failed_def)
qed

theorem verdict_depends_on_split_witness:
  "failed (feed (chunked_new default_limits) [] [replicate 272 (CHR ''0'') @ [CR], LF # CRLF])"
proof -
  have "chunk_size_line (replicate 272 (CHR ''0'')) 0" unfolding parse_chunk_size_iff [symmetric] by code_simp
  then show ?thesis
    using verdict_depends_on_split [OF default_limits_ok, of "replicate 272 (CHR ''0'')"]
    by (simp add: default_limits_def MAX_SIZE_DIGITS_def)
qed

end
