(* ===== verification/H1_Write.thy ===== *)
theory H1_Write
  imports H1_Parse H1_Framing H1_Digits
begin

text \<open>
  \<^verbatim>\<open>src/src/write.rs\<close>: response serialization.  Every function that appends to the connection's
  write buffer takes the buffer and returns the longer one.  The scratch arrays of the number
  writers are the accumulator of their loops; a lemma bounds how much of them is used.  The date
  formatter of the \<^verbatim>\<open>httpdate\<close> crate is a parameter of \<open>date_cache_get\<close>, and the formatted date of
  \<open>write_head\<close>.
\<close>

section \<open>The date cache\<close>

definition DATE_LEN :: nat where
  "DATE_LEN = 29"

record date_cache =
  cache_secs :: nat
  cache_buf :: bytes
  cache_valid :: bool

definition date_cache_new :: date_cache where
  "date_cache_new =
     \<lparr>cache_secs = 0, cache_buf = replicate DATE_LEN (CHR 0x00), cache_valid = False\<rparr>"

text \<open>A \<^verbatim>\<open>SystemTime\<close> is the nanoseconds since the epoch, negative before it.\<close>

definition date_cache_get :: "(int \<Rightarrow> bytes) \<Rightarrow> date_cache \<Rightarrow> int \<Rightarrow> bytes \<times> date_cache" where
  "date_cache_get fmt c now =
     (let secs = (if now < 0 then 0 else nat (now div 1000000000));
          c' = (if \<not> cache_valid c \<or> secs \<noteq> cache_secs c
                then c\<lparr>cache_buf := take DATE_LEN (fmt now @ drop (length (fmt now)) (cache_buf c)),
                       cache_secs := secs, cache_valid := True\<rparr>
                else c)
      in (cache_buf c', c'))"

section \<open>Numbers and phrases\<close>

datatype out_body = OutNone | OutFixed bytes | OutChunked

record response_head =
  resp_status :: nat
  resp_headers :: header_vec

definition reason_phrases :: "(nat \<times> bytes) list" where
  "reason_phrases =
    [(100, ''Continue''), (101, ''Switching Protocols''), (200, ''OK''), (201, ''Created''),
     (202, ''Accepted''), (204, ''No Content''), (206, ''Partial Content''),
     (301, ''Moved Permanently''), (302, ''Found''), (303, ''See Other''), (304, ''Not Modified''),
     (307, ''Temporary Redirect''), (308, ''Permanent Redirect''), (400, ''Bad Request''),
     (401, ''Unauthorized''), (403, ''Forbidden''), (404, ''Not Found''),
     (405, ''Method Not Allowed''), (406, ''Not Acceptable''), (408, ''Request Timeout''),
     (409, ''Conflict''), (411, ''Length Required''), (412, ''Precondition Failed''),
     (413, ''Content Too Large''), (414, ''URI Too Long''), (415, ''Unsupported Media Type''),
     (416, ''Range Not Satisfiable''), (417, ''Expectation Failed''), (421, ''Misdirected Request''),
     (422, ''Unprocessable Content''), (426, ''Upgrade Required''), (428, ''Precondition Required''),
     (429, ''Too Many Requests''), (431, ''Request Header Fields Too Large''),
     (500, ''Internal Server Error''), (501, ''Not Implemented''), (502, ''Bad Gateway''),
     (503, ''Service Unavailable''), (504, ''Gateway Timeout''), (505, ''HTTP Version Not Supported'')]"

definition reason_phrase :: "nat \<Rightarrow> bytes" where
  "reason_phrase st = (case map_of reason_phrases st of Some s \<Rightarrow> s | None \<Rightarrow> [])"

function u64_loop :: "nat \<Rightarrow> bytes \<Rightarrow> bytes" where
  "u64_loop n scratch =
     (let scratch' = dec_byte (n mod 10) # scratch; n' = n div 10
      in if n' = 0 then scratch' else u64_loop n' scratch')"
  by pat_completeness auto
termination by (relation "measure fst") auto

declare u64_loop.simps [simp del]

definition write_u64 :: "bytes \<Rightarrow> nat \<Rightarrow> bytes" where
  "write_u64 out v = out @ u64_loop v []"

function hex_loop :: "nat \<Rightarrow> bytes \<Rightarrow> bytes" where
  "hex_loop n scratch =
     (let scratch' = hex_byte (n mod 16) # scratch; n' = n div 16
      in if n' = 0 then scratch' else hex_loop n' scratch')"
  by pat_completeness auto
termination by (relation "measure fst") auto

declare hex_loop.simps [simp del]

definition write_hex :: "bytes \<Rightarrow> nat \<Rightarrow> bytes" where
  "write_hex out v = out @ hex_loop v []"

section \<open>Rules\<close>

definition forbids_body_framing :: "nat \<Rightarrow> bool" where
  "forbids_body_framing st \<longleftrightarrow> st = 204 \<or> st = 304 \<or> (100 \<le> st \<and> st < 200)"

definition connection_token_ok :: "bytes \<Rightarrow> bool" where
  "connection_token_ok t \<longleftrightarrow>
     t \<noteq> [] \<and> list_all is_tchar t \<and> \<not> eq_ignore_ascii_case t ''close''
     \<and> \<not> eq_ignore_ascii_case t ''keep-alive'' \<and> \<not> eq_ignore_ascii_case t ''content-length''
     \<and> \<not> eq_ignore_ascii_case t ''transfer-encoding''"

definition connection_tokens :: "bytes \<Rightarrow> bytes list" where
  "connection_tokens val = filter connection_token_ok (map trim_ows (split_commas val))"

fun connection_loop :: "bytes \<Rightarrow> bool \<Rightarrow> bytes list \<Rightarrow> bytes \<times> bool" where
  "connection_loop out first [] = (out, first)"
| "connection_loop out first (t # ts) =
     connection_loop (out @ (if first then ''connection: '' else '', '') @ t) False ts"

definition write_connection_tokens :: "bytes \<Rightarrow> bytes \<Rightarrow> bytes" where
  "write_connection_tokens out val =
     (let (out', first) = connection_loop out True (connection_tokens val)
      in if \<not> first then out' @ CRLF else out')"

definition content_length_is_descriptive :: "nat \<Rightarrow> bool" where
  "content_length_is_descriptive st \<longleftrightarrow> st = 304"

text \<open>\<^verbatim>\<open>str::parse::<u64>\<close> on a string of digits: its value, or an error when it does not fit.\<close>

definition parse_len :: "bytes \<Rightarrow> nat option" where
  "parse_len v =
     (if v = [] \<or> \<not> list_all is_ascii_digit v then None
      else if \<not> utf8_valid v then None
      else if dec_value v < u64_range then Some (dec_value v) else None)"

definition handler_length_is_stale ::
    "bytes \<Rightarrow> nat \<Rightarrow> nat \<Rightarrow> bool \<Rightarrow> nat option \<Rightarrow> bool \<Rightarrow> bool" where
  "handler_length_is_stale val instances st head_request body_len competing_te =
     (if instances > 1 \<or> (forbids_body_framing st \<and> \<not> content_length_is_descriptive st) then True
      else
        (let descriptive =
           content_length_is_descriptive st \<or> (head_request \<and> \<not> forbids_body_framing st)
         in if descriptive then parse_len val = None \<or> competing_te
            else body_len = None \<or> parse_len val \<noteq> body_len))"

definition is_final_status :: "nat \<Rightarrow> bool \<Rightarrow> bool" where
  "is_final_status st upgrade_requested \<longleftrightarrow>
     (200 \<le> st \<and> st \<le> 599) \<or> (st = 101 \<and> upgrade_requested)"

definition connection_field :: "version \<Rightarrow> bool \<Rightarrow> bytes option" where
  "connection_field v keep_alive =
     (case (v, keep_alive) of
        (Http11, True) \<Rightarrow> None
      | (Http10, True) \<Rightarrow> Some ''keep-alive''
      | (_, False) \<Rightarrow> Some ''close'')"

definition writable :: "header_id \<Rightarrow> bytes \<Rightarrow> bool" where
  "writable i val \<longleftrightarrow>
     (case i of OtherHeader name \<Rightarrow> valid_field_name (as_str name) | _ \<Rightarrow> True)
     \<and> valid_field_value val"

definition te_frames_chunked :: "bytes \<Rightarrow> bool" where
  "te_frames_chunked v =
     (if \<not> list_all is_ascii v then False
      else
        (case find (\<lambda>c. c \<noteq> []) (rev (map trim_ows (split_commas v))) of
           Some c \<Rightarrow> eq_ignore_ascii_case c ''chunked''
         | None \<Rightarrow> False))"

section \<open>The head\<close>

record field_scan =
  field_writable :: "bool list"
  has_date :: bool
  handler_len :: "bytes option"
  handler_te :: "bytes option"
  len_count :: nat
  te_count :: nat

definition scan_new :: field_scan where
  "scan_new =
     \<lparr>field_writable = [], has_date = False, handler_len = None, handler_te = None,
      len_count = 0, te_count = 0\<rparr>"

definition scan_field :: "field_scan \<Rightarrow> header_id \<times> bytes \<Rightarrow> field_scan" where
  "scan_field s f =
     (case f of (i, val) \<Rightarrow>
        let ok = writable i val;
            s = s\<lparr>field_writable := field_writable s @ [ok]\<rparr>
        in if \<not> ok then s
           else if canonical i = Date then s\<lparr>has_date := True\<rparr>
           else if canonical i = ContentLength then
             s\<lparr>len_count := len_count s + 1,
               handler_len := (if handler_len s = None then Some val else handler_len s)\<rparr>
           else if canonical i = TransferEncoding then
             s\<lparr>te_count := te_count s + 1,
               handler_te := (if handler_te s = None then Some val else handler_te s)\<rparr>
           else s)"

definition scan_fields :: "header_vec \<Rightarrow> field_scan" where
  "scan_fields hs = foldl scan_field scan_new hs"

definition put_field :: "bytes \<Rightarrow> bytes \<Rightarrow> bytes \<Rightarrow> bytes" where
  "put_field out name val = out @ name @ '': '' @ val @ CRLF"

fun emit_fields :: "bool \<Rightarrow> bool \<Rightarrow> bytes \<Rightarrow> (bool \<times> header_id \<times> bytes) list \<Rightarrow> bytes" where
  "emit_fields stale_len stale_te out [] = out"
| "emit_fields stale_len stale_te out ((ok, i, val) # rest) =
     emit_fields stale_len stale_te
       (let i = canonical i in
        if stale_len \<and> i = ContentLength then out
        else if stale_te \<and> i = TransferEncoding then out
        else if i = Connection then write_connection_tokens out val
        else if \<not> ok then out
        else put_field out (header_as_str i) val)
       rest"

definition body_len_of :: "out_body \<Rightarrow> nat option" where
  "body_len_of body =
     (case body of OutFixed b \<Rightarrow> Some (length b) | OutNone \<Rightarrow> Some 0 | OutChunked \<Rightarrow> None)"

definition stale_transfer_encoding :: "version \<Rightarrow> nat \<Rightarrow> out_body \<Rightarrow> field_scan \<Rightarrow> bool" where
  "stale_transfer_encoding v st body s =
     (case handler_te s of
        None \<Rightarrow> False
      | Some te \<Rightarrow>
          te_count s > 1 \<or> body \<noteq> OutChunked \<or> (v = Http10 \<and> body = OutChunked)
          \<or> forbids_body_framing st \<or> \<not> te_frames_chunked te)"

definition stale_content_length ::
    "version \<Rightarrow> nat \<Rightarrow> out_body \<Rightarrow> bool \<Rightarrow> field_scan \<Rightarrow> bool" where
  "stale_content_length v st body head_request s =
     (case handler_len s of
        None \<Rightarrow> False
      | Some len \<Rightarrow>
          handler_length_is_stale len (len_count s) st head_request (body_len_of body)
            (handler_te s \<noteq> None \<and> \<not> stale_transfer_encoding v st body s))"

definition write_framing :: "bytes \<Rightarrow> version \<Rightarrow> out_body \<Rightarrow> bytes" where
  "write_framing out v body =
     (case body of
        OutFixed b \<Rightarrow> write_u64 (out @ ''content-length: '') (length b) @ CRLF
      | OutChunked \<Rightarrow>
          if v = Http10 then out else out @ ''transfer-encoding: chunked'' @ CRLF
      | OutNone \<Rightarrow> out @ ''content-length: 0'' @ CRLF)"

definition write_status_line :: "bytes \<Rightarrow> version \<Rightarrow> nat \<Rightarrow> bytes" where
  "write_status_line out v st =
     (let out = write_u64 (out @ version_as_bytes v @ '' '') st;
          phrase = reason_phrase st;
          out = (if phrase \<noteq> [] then out @ '' '' @ phrase else out)
      in out @ CRLF)"

definition write_head_for ::
    "bytes \<Rightarrow> version \<Rightarrow> response_head \<Rightarrow> out_body \<Rightarrow> bytes \<Rightarrow> bool \<Rightarrow> bool \<Rightarrow> bytes" where
  "write_head_for out v resp body date keep_alive head_request =
     (let st = resp_status resp;
          out = write_status_line out v st;
          s = scan_fields (resp_headers resp);
          stale_te = stale_transfer_encoding v st body s;
          stale_len = stale_content_length v st body head_request s;
          out = emit_fields stale_len stale_te out (zip (field_writable s) (resp_headers resp));
          out = (if \<not> has_date s then put_field out ''date'' date else out);
          handler_framed = (\<not> stale_len \<and> handler_len s \<noteq> None) \<or> (\<not> stale_te \<and> handler_te s \<noteq> None);
          out = (if \<not> handler_framed \<and> \<not> forbids_body_framing st then write_framing out v body else out);
          out = (if st \<noteq> 101 then
                   (case connection_field v keep_alive of
                      Some t \<Rightarrow> put_field out ''connection'' t
                    | None \<Rightarrow> out)
                 else out)
      in out @ CRLF)"

definition write_head ::
    "bytes \<Rightarrow> version \<Rightarrow> response_head \<Rightarrow> out_body \<Rightarrow> bytes \<Rightarrow> bool \<Rightarrow> bytes" where
  "write_head out v resp body date keep_alive =
     (let keep_alive = keep_alive
            \<and> \<not> (v = Http10 \<and> body = OutChunked \<and> \<not> forbids_body_framing (resp_status resp))
      in write_head_for out v resp body date keep_alive False)"

section \<open>Chunks\<close>

definition write_chunk :: "bytes \<Rightarrow> bytes \<Rightarrow> bytes" where
  "write_chunk out data = write_hex out (length data) @ CRLF @ data @ CRLF"

fun emit_trailers :: "bytes \<Rightarrow> header_vec \<Rightarrow> bytes" where
  "emit_trailers out [] = out"
| "emit_trailers out ((i, val) # rest) =
     emit_trailers
       (if forbidden_in_trailers (canonical i) then out
        else if \<not> writable i val then out
        else put_field out (header_as_str i) val)
       rest"

definition write_last_chunk :: "bytes \<Rightarrow> header_vec \<Rightarrow> bytes" where
  "write_last_chunk out trs = emit_trailers (out @ ''0'' @ CRLF) trs @ CRLF"

section \<open>Numbers\<close>

lemma u64_loop_eq: "u64_loop n s = dec_digits n @ s"
proof (induction n s rule: u64_loop.induct)
  case (1 n s)
  then show ?case
    by (subst u64_loop.simps, subst dec_digits.simps) (auto simp: Let_def div_eq_0_iff)
qed

lemma hex_loop_eq: "hex_loop n s = hex_digits n @ s"
proof (induction n s rule: hex_loop.induct)
  case (1 n s)
  then show ?case
    by (subst hex_loop.simps, subst hex_digits.simps) (auto simp: Let_def div_eq_0_iff)
qed

lemma write_u64_eq: "write_u64 out v = out @ dec_digits v"
  by (simp add: write_u64_def u64_loop_eq)

lemma write_hex_eq: "write_hex out v = out @ hex_digits v"
  by (simp add: write_hex_def hex_loop_eq)

lemma dec_digits_bytes: "b \<in> set (dec_digits n) \<Longrightarrow> is_ascii_digit b"
  by (auto dest!: dec.printer_set simp: dec_byte_def ascii_defs)

lemma dec_digits_value: "dec_value (dec_digits n) = n"
  using dec.printer_digits [of n] dec_value_eq [of "dec_digits n" 0] dec_digits_bytes
  by (simp add: dec_value_def list_all_iff)

lemma parse_len_dec_digits: "n < u64_range \<Longrightarrow> parse_len (dec_digits n) = Some n"
proof -
  assume n: "n < u64_range"
  have "list_all is_ascii_digit (dec_digits n)" "dec_digits n \<noteq> []"
    using dec_digits_bytes dec.printer_digits [of n] by (auto simp: list_all_iff)
  moreover have "utf8_valid (dec_digits n)"
    by (rule utf8_valid_ascii) (auto dest: dec_digits_bytes simp: ascii_defs)
  ultimately show ?thesis using n by (simp add: parse_len_def dec_digits_value)
qed

lemma parse_len_0: "parse_len ''0'' = Some 0"
  by (simp add: parse_len_def is_ascii_digit_def dec_value_def utf8_valid_ascii is_ascii_def)

section \<open>The fields on the wire\<close>

text \<open>The list of fields a written head consists of, name and value, in order.\<close>

type_synonym wire_fields = "(bytes \<times> bytes) list"

definition wire_line :: "bytes \<times> bytes \<Rightarrow> bytes" where
  "wire_line f = fst f @ '': '' @ snd f"

fun sep_tokens :: "bytes list \<Rightarrow> bytes" where
  "sep_tokens [] = []"
| "sep_tokens (t # ts) = '', '' @ t @ sep_tokens ts"

fun join_tokens :: "bytes list \<Rightarrow> bytes" where
  "join_tokens [] = []"
| "join_tokens (t # ts) = t @ sep_tokens ts"

definition connection_value :: "bytes \<Rightarrow> wire_fields" where
  "connection_value val =
     (if connection_tokens val = [] then []
      else [(''connection'', join_tokens (connection_tokens val))])"

definition kept_field :: "bool \<Rightarrow> bool \<Rightarrow> header_id \<times> bytes \<Rightarrow> wire_fields" where
  "kept_field stale_len stale_te f =
     (case f of (i, val) \<Rightarrow>
        if stale_len \<and> canonical i = ContentLength then []
        else if stale_te \<and> canonical i = TransferEncoding then []
        else if canonical i = Connection then connection_value val
        else if \<not> writable i val then []
        else [(header_as_str (canonical i), val)])"

definition framing_fields :: "version \<Rightarrow> out_body \<Rightarrow> wire_fields" where
  "framing_fields v body =
     (case body of
        OutFixed b \<Rightarrow> [(''content-length'', dec_digits (length b))]
      | OutChunked \<Rightarrow> if v = Http10 then [] else [(''transfer-encoding'', ''chunked'')]
      | OutNone \<Rightarrow> [(''content-length'', ''0'')])"

definition head_fields ::
    "version \<Rightarrow> response_head \<Rightarrow> out_body \<Rightarrow> bytes \<Rightarrow> bool \<Rightarrow> bool \<Rightarrow> wire_fields" where
  "head_fields v resp body date keep_alive head_request =
     (let st = resp_status resp;
          s = scan_fields (resp_headers resp);
          stale_te = stale_transfer_encoding v st body s;
          stale_len = stale_content_length v st body head_request s;
          handler_framed = (\<not> stale_len \<and> handler_len s \<noteq> None) \<or> (\<not> stale_te \<and> handler_te s \<noteq> None)
      in concat (map (kept_field stale_len stale_te) (resp_headers resp))
         @ (if \<not> has_date s then [(''date'', date)] else [])
         @ (if \<not> handler_framed \<and> \<not> forbids_body_framing st then framing_fields v body else [])
         @ (if st \<noteq> 101 then
              (case connection_field v keep_alive of Some t \<Rightarrow> [(''connection'', t)] | None \<Rightarrow> [])
            else []))"

definition status_line :: "version \<Rightarrow> nat \<Rightarrow> bytes" where
  "status_line v st =
     version_as_bytes v @ '' '' @ dec_digits st
     @ (if reason_phrase st \<noteq> [] then '' '' @ reason_phrase st else [])"

lemma connection_loop_eq:
  "connection_loop out False ts = (out @ sep_tokens ts, False)"
  by (induction ts arbitrary: out) simp_all

lemma write_connection_tokens_eq:
  "write_connection_tokens out val = out @ head_lines (map wire_line (connection_value val))"
  by (cases "connection_tokens val")
     (simp_all add: write_connection_tokens_def connection_value_def connection_loop_eq wire_line_def)

lemma put_field_eq: "put_field out n v = out @ head_lines [wire_line (n, v)]"
  by (simp add: put_field_def wire_line_def)

lemma foldl_scan_writable:
  "field_writable (foldl scan_field s hs) = field_writable s @ map (\<lambda>(i, v). writable i v) hs"
  by (induction hs arbitrary: s) (auto simp: scan_field_def Let_def)

lemma scan_writable: "field_writable (scan_fields hs) = map (\<lambda>(i, v). writable i v) hs"
  by (simp add: scan_fields_def foldl_scan_writable scan_new_def)

lemma emit_fields_eq:
  "emit_fields sl st out (zip (map (\<lambda>(i, v). writable i v) hs) hs) =
     out @ head_lines (map wire_line (concat (map (kept_field sl st) hs)))"
  by (induction hs arbitrary: out)
     (auto simp: kept_field_def Let_def write_connection_tokens_eq put_field_eq)

lemma write_framing_eq: "write_framing out v body = out @ head_lines (map wire_line (framing_fields v body))"
  by (auto simp: write_framing_def framing_fields_def wire_line_def write_u64_eq split: out_body.splits)

lemma write_status_line_eq: "write_status_line out v st = out @ head_lines [status_line v st]"
  by (simp add: write_status_line_def status_line_def write_u64_eq Let_def)

lemma append_if:
  "(if c then out @ x else out) = out @ (if c then x else [])"
  "(if c then out else out @ x) = out @ (if c then [] else x)"
  "(case m of Some a \<Rightarrow> out @ f a | None \<Rightarrow> out) = out @ (case m of Some a \<Rightarrow> f a | None \<Rightarrow> [])"
  by (simp_all split: option.splits)

lemma head_lines_if:
  "head_lines (map wire_line (if c then x else [])) = (if c then head_lines (map wire_line x) else [])"
  "head_lines (map wire_line (case m of Some a \<Rightarrow> f a | None \<Rightarrow> [])) =
     (case m of Some a \<Rightarrow> head_lines (map wire_line (f a)) | None \<Rightarrow> [])"
  by (simp_all split: option.splits)

lemma write_head_for_eq:
  "write_head_for out v resp body date keep_alive head_request =
     out @ head_lines (status_line v (resp_status resp)
       # map wire_line (head_fields v resp body date keep_alive head_request)) @ CRLF"
  unfolding write_head_for_def head_fields_def Let_def scan_writable emit_fields_eq
    write_status_line_eq put_field_eq write_framing_eq append_if
  by (simp only: head_lines_simps map_append head_lines_if append_assoc list.map append_Nil append_Nil2)
     (cases "resp_status resp = 101"; simp only: if_True if_False simp_thms append_assoc append_Nil)

section \<open>No response splitting\<close>

definition wire_ok :: "bytes \<times> bytes \<Rightarrow> bool" where
  "wire_ok f \<longleftrightarrow> valid_field_name (fst f) \<and> valid_field_value (snd f)"

lemma wire_ok_line:
  assumes "wire_ok f"
  shows "line_ok (wire_line f)"
proof -
  obtain b r where f: "fst f = b # r" "is_tchar b" "\<forall>c \<in> set r. is_tchar c"
    using assms by (cases "fst f") (auto simp: wire_ok_def valid_field_name_def list_all_iff)
  then have "CR \<notin> set (fst f)" "LF \<notin> set (fst f)" "b \<noteq> SP" "b \<noteq> HT"
    using is_tchar_not_ctl by auto
  with f(1) assms show ?thesis
    by (auto simp: wire_ok_def line_ok_def wire_line_def valid_field_value_def list_ex_iff)
qed

lemma valid_field_value_append [simp]:
  "valid_field_value (a @ b) \<longleftrightarrow> valid_field_value a \<and> valid_field_value b"
  "valid_field_value []"
  "valid_field_value (c # b) \<longleftrightarrow> c \<noteq> CR \<and> c \<noteq> LF \<and> c \<noteq> CHR 0x00 \<and> valid_field_value b"
  by (auto simp: valid_field_value_def)

lemma tchar_value: "list_all is_tchar s \<Longrightarrow> valid_field_value s"
  by (induction s) (simp_all add: is_tchar_not_ctl is_tchar_not_nul)

lemma sep_tokens_value: "\<forall>t \<in> set ts. valid_field_value t \<Longrightarrow> valid_field_value (sep_tokens ts)"
  by (induction ts) simp_all

lemma join_tokens_value: "\<forall>t \<in> set ts. valid_field_value t \<Longrightarrow> valid_field_value (join_tokens ts)"
  by (cases ts) (simp_all add: sep_tokens_value)

lemma connection_tokens_tchar: "t \<in> set (connection_tokens val) \<Longrightarrow> connection_token_ok t"
  by (auto simp: connection_tokens_def)

lemma well_known_name_ok: "well_known i \<Longrightarrow> valid_field_name (header_as_str i)"
  by (cases i) (simp_all add: valid_field_name_def is_tchar_def ascii_defs)

lemma writable_name_ok:
  assumes "writable i val"
  shows "valid_field_name (header_as_str (canonical i)) \<and> header_ok i"
proof (cases "well_known i")
  case True
  then show ?thesis by (simp add: well_known_name_ok)
next
  case False
  then obtain s where i: "i = OtherHeader s" by (cases i) (auto simp: well_known_def)
  with assms have v: "valid_field_name (as_str s)" by (simp add: writable_def)
  then have "utf8_valid (as_bytes s)"
    by (auto simp: as_str_def valid_field_name_def split: if_splits)
  with i v show ?thesis
    by (auto simp: canonical_OtherHeader byte_str_ok_def well_known_name_ok
        split: option.splits dest: header_from_bytes_SomeD)
qed

lemma well_known_wire_ok: "well_known i \<Longrightarrow> valid_field_value v \<Longrightarrow> wire_ok (header_as_str i, v)"
  by (simp add: wire_ok_def well_known_name_ok)

lemma connection_value_ok: "f \<in> set (connection_value val) \<Longrightarrow> wire_ok f"
proof -
  have "valid_field_value (join_tokens (connection_tokens val))"
    by (rule join_tokens_value)
       (auto dest!: connection_tokens_tchar intro: tchar_value simp: connection_token_ok_def)
  moreover assume "f \<in> set (connection_value val)"
  ultimately show ?thesis
    using well_known_wire_ok [of Connection]
    by (auto simp: connection_value_def well_known_def split: if_splits)
qed

lemma kept_field_ok: "f \<in> set (kept_field sl st h) \<Longrightarrow> wire_ok f"
proof -
  have w: "wire_ok (header_as_str (canonical i), v)" if "writable i v" for i v
    using writable_name_ok [OF that] that by (simp add: wire_ok_def writable_def)
  assume "f \<in> set (kept_field sl st h)"
  then show ?thesis
    by (cases h) (auto simp: kept_field_def dest: w connection_value_ok split: if_split_asm)
qed

lemma framing_fields_ok: "f \<in> set (framing_fields v body) \<Longrightarrow> wire_ok f"
proof -
  have "valid_field_value (dec_digits n)" for n
    by (auto simp: valid_field_value_def list_ex_iff dest!: dec_digits_bytes) (simp_all add: ascii_defs)
  then show "f \<in> set (framing_fields v body) \<Longrightarrow> ?thesis"
    using well_known_wire_ok [of ContentLength] well_known_wire_ok [of TransferEncoding]
    by (auto simp: framing_fields_def well_known_def split: out_body.splits if_splits)
qed

lemma head_fields_ok:
  assumes "valid_field_value date"
  shows "\<forall>f \<in> set (head_fields v resp body date keep_alive head_request). wire_ok f"
proof -
  have d: "wire_ok (''date'', date)" using well_known_wire_ok [of Date] assms by (simp add: well_known_def)
  have "wire_ok (''connection'', t)" if "connection_field v keep_alive = Some t" for t
  proof -
    have "valid_field_value t"
      using that by (cases v; cases keep_alive) (auto simp: connection_field_def)
    then show ?thesis using well_known_wire_ok [of Connection t] by (simp add: well_known_def)
  qed
  then have c: "\<forall>f \<in> set (case connection_field v keep_alive of Some t \<Rightarrow> [(''connection'', t)] | None \<Rightarrow> []).
      wire_ok f" by (cases "connection_field v keep_alive") simp_all
  have k: "\<forall>f \<in> set (concat (map (kept_field a b) hs)). wire_ok f" for a b hs
    using kept_field_ok by auto
  have i: "\<forall>f \<in> set x. wire_ok f \<Longrightarrow> \<forall>f \<in> set (if q then x else []). wire_ok f" for q x
    by simp
  have d': "\<forall>f \<in> set [(''date'', date)]. wire_ok f" using d by simp
  have f: "\<forall>f \<in> set (framing_fields v body). wire_ok f" using framing_fields_ok by blast
  show ?thesis
    unfolding head_fields_def Let_def set_append ball_Un
    by (intro conjI k i d' f c)
qed

lemma status_line_ok: "line_ok (status_line v st)"
proof -
  have "b \<noteq> CR \<and> b \<noteq> LF" if "b \<in> set (dec_digits st)" for b
    using dec_digits_bytes [OF that] by (auto simp: ascii_defs)
  moreover have "CR \<notin> set s \<and> LF \<notin> set s" if "(n, s) \<in> set reason_phrases" for n s
    using that by (auto simp: reason_phrases_def)
  then have "CR \<notin> set (reason_phrase st) \<and> LF \<notin> set (reason_phrase st)"
    by (cases "map_of reason_phrases st") (auto simp: reason_phrase_def dest!: map_of_SomeD)
  ultimately show ?thesis
    by (cases v) (auto simp: line_ok_def status_line_def)
qed

section \<open>The framing fields on the wire\<close>

definition wire_values :: "bytes \<Rightarrow> wire_fields \<Rightarrow> bytes list" where
  "wire_values name fs = map snd (filter (\<lambda>(n, _). eq_ignore_ascii_case n name) fs)"

text \<open>The values of the writable fields that the wire will read as header \<open>i\<close>.\<close>

definition handler_values :: "header_id \<Rightarrow> header_vec \<Rightarrow> bytes list" where
  "handler_values i hs = map snd (filter (\<lambda>(k, v). writable k v \<and> canonical k = i) hs)"

definition first_value :: "'a list \<Rightarrow> 'a option" where
  "first_value xs = (case xs of [] \<Rightarrow> None | x # _ \<Rightarrow> Some x)"

lemma wire_values_append [simp]: "wire_values n (a @ b) = wire_values n a @ wire_values n b"
  "wire_values n [] = []"
  by (simp_all add: wire_values_def)

lemma foldl_scan:
  "has_date (foldl scan_field s hs) = (has_date s \<or> handler_values Date hs \<noteq> [])
   \<and> len_count (foldl scan_field s hs) = len_count s + length (handler_values ContentLength hs)
   \<and> te_count (foldl scan_field s hs) = te_count s + length (handler_values TransferEncoding hs)
   \<and> handler_len (foldl scan_field s hs) =
       (if handler_len s = None then first_value (handler_values ContentLength hs) else handler_len s)
   \<and> handler_te (foldl scan_field s hs) =
       (if handler_te s = None then first_value (handler_values TransferEncoding hs) else handler_te s)"
proof (induction hs arbitrary: s)
  case Nil
  then show ?case by (simp add: handler_values_def first_value_def)
next
  case (Cons h hs)
  obtain i v where h: "h = (i, v)" by (cases h)
  have "handler_values k ((i, v) # hs) =
      (if writable i v \<and> canonical i = k then v # handler_values k hs else handler_values k hs)" for k
    by (simp add: handler_values_def)
  with Cons [of "scan_field s h"] h show ?case
    by (auto simp: scan_field_def Let_def first_value_def)
qed

lemma scan_eq:
  "has_date (scan_fields hs) = (handler_values Date hs \<noteq> [])"
  "len_count (scan_fields hs) = length (handler_values ContentLength hs)"
  "te_count (scan_fields hs) = length (handler_values TransferEncoding hs)"
  "handler_len (scan_fields hs) = first_value (handler_values ContentLength hs)"
  "handler_te (scan_fields hs) = first_value (handler_values TransferEncoding hs)"
  using foldl_scan [of scan_new hs] by (simp_all add: scan_fields_def scan_new_def)

lemma wire_values_other_name:
  "\<not> eq_ignore_ascii_case n name \<Longrightarrow> wire_values name ((n, v) # fs) = wire_values name fs"
  "eq_ignore_ascii_case n name \<Longrightarrow> wire_values name ((n, v) # fs) = v # wire_values name fs"
  by (simp_all add: wire_values_def)

lemma canonical_name_iff:
  assumes "writable i v" and "well_known k"
  shows "eq_ignore_ascii_case (header_as_str (canonical i)) (header_as_str k) \<longleftrightarrow> canonical i = k"
proof -
  have ok: "header_ok (canonical i)"
    using writable_name_ok [OF assms(1)]
    by (cases i) (auto simp: canonical_OtherHeader split: option.splits dest: header_from_bytes_SomeD)
  show ?thesis
    using canonical_eq_iff [OF ok assms(2)] lower_header_as_str [OF assms(2)]
    by (simp add: eq_ignore_ascii_case_iff)
qed

lemma kept_values:
  assumes "well_known k" and "k \<noteq> Connection"
  shows "wire_values (header_as_str k) (concat (map (kept_field sl st) hs)) =
    (if (sl \<and> k = ContentLength) \<or> (st \<and> k = TransferEncoding) then [] else handler_values k hs)"
proof (induction hs)
  case Nil
  then show ?case by (simp add: handler_values_def)
next
  case (Cons h hs)
  obtain i v where h: "h = (i, v)" by (cases h)
  have conn: "\<not> eq_ignore_ascii_case ''connection'' (header_as_str k)"
    using assms header_as_str_inj [of Connection k] lower_header_as_str [of Connection]
      lower_header_as_str [of k] by (auto simp: eq_ignore_ascii_case_iff well_known_def)
  then have cv: "wire_values (header_as_str k) (connection_value v) = []"
    by (simp add: connection_value_def wire_values_other_name)
  show ?case
    using Cons h cv canonical_name_iff [of i v k] assms
    by (auto simp: kept_field_def handler_values_def wire_values_other_name)
qed

lemma not_framing_names:
  "\<not> eq_ignore_ascii_case ''date'' ''content-length''"
  "\<not> eq_ignore_ascii_case ''date'' ''transfer-encoding''"
  "\<not> eq_ignore_ascii_case ''connection'' ''content-length''"
  "\<not> eq_ignore_ascii_case ''connection'' ''transfer-encoding''"
  "\<not> eq_ignore_ascii_case ''content-length'' ''transfer-encoding''"
  "\<not> eq_ignore_ascii_case ''transfer-encoding'' ''content-length''"
  "eq_ignore_ascii_case n n"
  by (auto simp: eq_ignore_ascii_case_def intro: list.rel_refl)

lemma framing_fields_values:
  "wire_values ''content-length'' (framing_fields v body) =
     (case body of OutFixed b \<Rightarrow> [dec_digits (length b)] | OutChunked \<Rightarrow> [] | OutNone \<Rightarrow> [''0''])"
  "wire_values ''transfer-encoding'' (framing_fields v body) =
     (case body of OutChunked \<Rightarrow> if v = Http10 then [] else [''chunked''] | _ \<Rightarrow> [])"
  by (auto simp: framing_fields_def wire_values_other_name not_framing_names split: out_body.splits)

text \<open>The two framing decisions, over the writable values of the handler.\<close>

definition stale_te_values :: "version \<Rightarrow> nat \<Rightarrow> out_body \<Rightarrow> bytes list \<Rightarrow> bool" where
  "stale_te_values v st body tes \<longleftrightarrow>
     (case tes of
        [] \<Rightarrow> False
      | te # ms \<Rightarrow> ms \<noteq> [] \<or> body \<noteq> OutChunked \<or> v = Http10 \<or> forbids_body_framing st
          \<or> \<not> te_frames_chunked te)"

definition stale_len_values :: "nat \<Rightarrow> out_body \<Rightarrow> bool \<Rightarrow> bool \<Rightarrow> bytes list \<Rightarrow> bool" where
  "stale_len_values st body head_request competing lens \<longleftrightarrow>
     (case lens of
        [] \<Rightarrow> False
      | len # ms \<Rightarrow>
          handler_length_is_stale len (Suc (length ms)) st head_request (body_len_of body) competing)"

lemma stale_te_eq:
  "stale_transfer_encoding v st body (scan_fields hs)
     = stale_te_values v st body (handler_values TransferEncoding hs)"
  by (auto simp: stale_transfer_encoding_def stale_te_values_def scan_eq first_value_def
      split: list.splits)

lemma stale_len_eq:
  "stale_content_length v st body hr (scan_fields hs) =
     stale_len_values st body hr
       (handler_values TransferEncoding hs \<noteq> []
        \<and> \<not> stale_te_values v st body (handler_values TransferEncoding hs))
       (handler_values ContentLength hs)"
  by (auto simp: stale_content_length_def stale_len_values_def stale_te_eq scan_eq first_value_def
      split: list.splits)

text \<open>The lengths and codings a written head carries, as a function of those the handler supplied.\<close>

definition written_framing ::
    "version \<Rightarrow> nat \<Rightarrow> out_body \<Rightarrow> bool \<Rightarrow> bytes list \<Rightarrow> bytes list \<Rightarrow> bytes list \<times> bytes list" where
  "written_framing v st body head_request lens tes =
     (let stale_te = stale_te_values v st body tes;
          stale_len = stale_len_values st body head_request (tes \<noteq> [] \<and> \<not> stale_te) lens;
          kept_len = (if stale_len then [] else lens);
          kept_te = (if stale_te then [] else tes)
      in if kept_len = [] \<and> kept_te = [] \<and> \<not> forbids_body_framing st
         then (wire_values ''content-length'' (framing_fields v body),
               wire_values ''transfer-encoding'' (framing_fields v body))
         else (kept_len, kept_te))"

lemma head_fields_framing:
  "(wire_values ''content-length'' (head_fields v resp body date ka hr),
    wire_values ''transfer-encoding'' (head_fields v resp body date ka hr)) =
   written_framing v (resp_status resp) body hr (handler_values ContentLength (resp_headers resp))
     (handler_values TransferEncoding (resp_headers resp))"
proof -
  let ?hs = "resp_headers resp"
  have conn: "wire_values n (if c then (case m of Some t \<Rightarrow> [(''connection'', t)] | None \<Rightarrow> []) else []) = []"
    if "\<not> eq_ignore_ascii_case ''connection'' n" for n c m
    using that by (auto simp: wire_values_other_name split: option.splits)
  have first: "first_value xs \<noteq> None \<longleftrightarrow> xs \<noteq> []" for xs :: "bytes list"
    by (auto simp: first_value_def split: list.splits)
  have kept: "wire_values ''content-length'' (concat (map (kept_field sl st) ?hs)) =
      (if sl then [] else handler_values ContentLength ?hs)"
    "wire_values ''transfer-encoding'' (concat (map (kept_field sl st) ?hs)) =
      (if st then [] else handler_values TransferEncoding ?hs)" for sl st
    using kept_values [of ContentLength sl st ?hs] kept_values [of TransferEncoding sl st ?hs]
    by (simp_all add: well_known_def)
  have ne: "stale_te_values v st body [] = False" "stale_len_values st body hr q [] = False" for st q
    by (simp_all add: stale_te_values_def stale_len_values_def)
  show ?thesis
    unfolding head_fields_def Let_def written_framing_def stale_te_eq stale_len_eq scan_eq first
      wire_values_append kept conn [OF not_framing_names(3)] conn [OF not_framing_names(4)]
    by (cases "handler_values ContentLength ?hs = []"; cases "handler_values TransferEncoding ?hs = []")
       (auto simp: wire_values_other_name not_framing_names ne)
qed

text \<open>What a recipient may rely on: at most one framing field, and it tells the truth about the body.\<close>

definition framing_truthful ::
    "version \<Rightarrow> nat \<Rightarrow> out_body \<Rightarrow> bool \<Rightarrow> bytes list \<Rightarrow> bytes list \<Rightarrow> bool" where
  "framing_truthful v st body head_request lens tes \<longleftrightarrow>
     length lens + length tes \<le> 1
     \<and> (if forbids_body_framing st then
          tes = [] \<and> (st \<noteq> 304 \<longrightarrow> lens = []) \<and> list_all (\<lambda>c. parse_len c \<noteq> None) lens
        else if head_request then
          list_all (\<lambda>c. parse_len c \<noteq> None) lens
          \<and> list_all (\<lambda>t. te_frames_chunked t \<and> v = Http11 \<and> body = OutChunked) tes
        else
          (case body of
             OutFixed b \<Rightarrow> tes = [] \<and> map parse_len lens = [Some (length b)]
           | OutNone \<Rightarrow> tes = [] \<and> map parse_len lens = [Some 0]
           | OutChunked \<Rightarrow>
               lens = [] \<and> (if v = Http10 then tes = [] else map te_frames_chunked tes = [True])))"

lemma te_frames_chunked_chunked: "te_frames_chunked ''chunked''"
  by (simp add: te_frames_chunked_def is_ascii_def trim_ows_eq is_ows_def not_framing_names(7))

lemma stale_te_not:
  "\<not> stale_te_values v st body tes \<Longrightarrow> tes \<noteq> [] \<Longrightarrow>
   \<exists>te. tes = [te] \<and> body = OutChunked \<and> v = Http11 \<and> \<not> forbids_body_framing st \<and> te_frames_chunked te"
  by (cases v) (auto simp: stale_te_values_def split: list.splits)

lemma stale_len_not:
  assumes "\<not> stale_len_values st body hr competing lens" and "lens \<noteq> []"
  shows "\<exists>len. lens = [len] \<and> parse_len len \<noteq> None \<and> (forbids_body_framing st \<longrightarrow> st = 304)
    \<and> (if st = 304 \<or> hr then \<not> competing else parse_len len = body_len_of body)"
  using assms
  by (auto simp: stale_len_values_def handler_length_is_stale_def content_length_is_descriptive_def
      Let_def split: list.splits if_split_asm)

lemma written_framing_truthful:
  assumes "\<forall>b. body = OutFixed b \<longrightarrow> length b < u64_range"
  shows "case_prod (framing_truthful v st body hr) (written_framing v st body hr lens tes)"
proof -
  let ?ste = "stale_te_values v st body tes"
  let ?competing = "tes \<noteq> [] \<and> \<not> ?ste"
  let ?sl = "stale_len_values st body hr ?competing lens"
  have vv: "v \<noteq> Http10 \<longleftrightarrow> v = Http11" by (cases v) auto
  consider (both) "?competing" | (len) "\<not> ?competing" "lens \<noteq> []" "\<not> ?sl"
    | (none) "\<not> ?competing" "lens = [] \<or> ?sl" by blast
  then show ?thesis
  proof cases
    case both
    then obtain te where te: "tes = [te]" "body = OutChunked" "v = Http11" "\<not> forbids_body_framing st"
      "te_frames_chunked te" using stale_te_not [of v st body tes] by auto
    have "body_len_of body = None" using te(2) by (simp add: body_len_of_def)
    then have "?sl \<or> lens = []"
      using stale_len_not [of st body hr ?competing lens] both by (metis (full_types))
    with both te show ?thesis by (auto simp: written_framing_def Let_def framing_truthful_def)
  next
    case len
    from stale_len_not [OF len(3,2)] obtain n where n: "lens = [n]" "parse_len n \<noteq> None"
      "forbids_body_framing st \<longrightarrow> st = 304" "\<not> (st = 304 \<or> hr) \<longrightarrow> parse_len n = body_len_of body"
      by (auto split: if_splits)
    from len(1) have "(if ?ste then [] else tes) = []" by auto
    with n len have w: "written_framing v st body hr lens tes = ([n], [])"
      by (simp add: written_framing_def Let_def)
    from n have "framing_truthful v st body hr [n] []"
      by (auto simp: framing_truthful_def body_len_of_def forbids_body_framing_def
          split: out_body.splits)
    with w show ?thesis by simp
  next
    case none
    from none(1) have te: "(if ?ste then [] else tes) = []" by auto
    from none(2) have le: "(if ?sl then [] else lens) = []" by auto
    show ?thesis
      using assms vv unfolding written_framing_def Let_def te le framing_truthful_def framing_fields_values
      by (auto simp: parse_len_dec_digits parse_len_0 te_frames_chunked_chunked split: out_body.splits)
  qed
qed

section \<open>Persistence on the wire\<close>

lemma tchar_no_comma_ows:
  "list_all is_tchar t \<Longrightarrow> \<forall>b \<in> set t. b \<noteq> CHR '','' \<and> \<not> is_ows b"
  using is_tchar_not_ctl by (auto simp: list_all_iff is_ows_def)

lemma trim_ows_space: "trim_ows (SP # s) = trim_ows s"
  by (simp add: trim_ows_eq is_ows_def)

lemma sep_tokens_split:
  "\<forall>t \<in> set ts. list_all is_tchar t \<Longrightarrow> \<forall>b \<in> set s. b \<noteq> CHR '','' \<Longrightarrow>
   map trim_ows (split_commas (s @ sep_tokens ts)) = trim_ows s # ts"
proof (induction ts arbitrary: s)
  case Nil
  then show ?case by (simp add: split_on_no_sep)
next
  case (Cons t ts)
  have tc: "\<forall>b \<in> set t. b \<noteq> CHR '','' \<and> \<not> is_ows b"
    using Cons(2) tchar_no_comma_ows [of t] by simp
  have ts: "\<forall>t \<in> set ts. list_all is_tchar t" using Cons(2) by simp
  have "\<forall>b \<in> set (SP # t). b \<noteq> CHR '',''" using tc by simp
  from Cons.IH [OF ts this]
  have rest: "map trim_ows (split_commas ((SP # t) @ sep_tokens ts)) = t # ts"
    unfolding trim_ows_space using tc by (simp add: trim_ows_no_ows)
  have "split_commas (s @ sep_tokens (t # ts)) = s # split_commas ((SP # t) @ sep_tokens ts)"
    using split_on_append_sep [of s "\<lambda>b. b = CHR '',''" "CHR '',''" "(SP # t) @ sep_tokens ts"] Cons(3)
    by simp
  then show ?case by (simp only: rest list.map)
qed

lemma join_tokens_split:
  assumes "\<forall>t \<in> set ts. list_all is_tchar t" and "ts \<noteq> []"
  shows "map trim_ows (split_commas (join_tokens ts)) = ts"
proof -
  obtain t us where ts: "ts = t # us" using assms(2) by (cases ts) auto
  have t: "\<forall>b \<in> set t. b \<noteq> CHR '','' \<and> \<not> is_ows b" using assms(1) ts tchar_no_comma_ows [of t] by simp
  then have "trim_ows t = t" by (simp add: trim_ows_no_ows)
  with sep_tokens_split [of us t] assms(1) ts t show ?thesis by simp
qed

lemma value_has_token_map:
  "value_has_token val tok \<longleftrightarrow> (\<exists>t \<in> set (map trim_ows (split_commas val)). lower t = lower tok)"
  by (auto simp: value_has_token_def eq_ignore_ascii_case_iff)

lemma connection_value_tokens:
  assumes "f \<in> set (connection_value val)" and "tok \<in> {''close'', ''keep-alive''}"
  shows "fst f = ''connection'' \<and> \<not> value_has_token (snd f) tok"
proof -
  let ?ts = "connection_tokens val"
  have "\<forall>t \<in> set ?ts. list_all is_tchar t"
    by (auto dest!: connection_tokens_tchar simp: connection_token_ok_def)
  moreover from assms(1) have "?ts \<noteq> []" "f = (''connection'', join_tokens ?ts)"
    by (auto simp: connection_value_def split: if_splits)
  ultimately show ?thesis
    using assms(2) connection_tokens_tchar [of _ val] join_tokens_split [of ?ts]
    by (auto simp: value_has_token_map connection_token_ok_def eq_ignore_ascii_case_iff)
qed

lemma kept_connection:
  assumes "f \<in> set (kept_field sl st h)" and "eq_ignore_ascii_case (fst f) ''connection''"
    and "tok \<in> {''close'', ''keep-alive''}"
  shows "\<not> value_has_token (snd f) tok"
proof -
  obtain i v where h: "h = (i, v)" by (cases h)
  have "\<not> (writable i v \<and> canonical i \<noteq> Connection \<and> eq_ignore_ascii_case (header_as_str (canonical i)) ''connection'')"
    using canonical_name_iff [of i v Connection] by (auto simp: well_known_def)
  with h assms connection_value_tokens show ?thesis
    by (auto simp: kept_field_def split: if_split_asm)
qed

text \<open>What a recipient of a head with these fields concludes about the connection.\<close>

definition read_head :: "version \<Rightarrow> wire_fields \<Rightarrow> head" where
  "read_head v fs = head_new Get (ByteStr ''/'') v (map (\<lambda>(n, x). (intern n, x)) fs)"

definition wire_has_token :: "wire_fields \<Rightarrow> bytes \<Rightarrow> bool" where
  "wire_has_token fs tok \<longleftrightarrow>
     (\<exists>f \<in> set fs. eq_ignore_ascii_case (fst f) ''connection'' \<and> value_has_token (snd f) tok)"

lemma wire_has_token_append:
  "wire_has_token (a @ b) tok \<longleftrightarrow> wire_has_token a tok \<or> wire_has_token b tok"
  by (auto simp: wire_has_token_def)

lemma read_head_token: "connection_has_token (read_head v fs) tok \<longleftrightarrow> wire_has_token fs tok"
proof -
  have "intern n = Connection \<longleftrightarrow> eq_ignore_ascii_case n ''connection''" for n
    using intern_eq_well_known_iff [of Connection n] lower_header_as_str [of Connection]
    by (simp add: well_known_def eq_ignore_ascii_case_iff)
  then have "all_values (read_head v fs) Connection = wire_values ''connection'' fs"
    by (induction fs) (auto simp: all_values_def read_head_def header_all_def wire_values_def)
  moreover have "wire_has_token fs tok \<longleftrightarrow>
      list_ex (\<lambda>v. value_has_token v tok) (wire_values ''connection'' fs)"
    by (induction fs) (auto simp: wire_has_token_def wire_values_def)
  ultimately show ?thesis by (simp add: connection_has_token_def)
qed

lemma head_fields_token:
  assumes "tok \<in> {''close'', ''keep-alive''}"
  shows "wire_has_token (head_fields v resp body date keep_alive hr) tok \<longleftrightarrow>
    resp_status resp \<noteq> 101 \<and> connection_field v keep_alive = Some tok"
proof -
  have kept: "\<not> wire_has_token (concat (map (kept_field sl st) hs)) tok" for sl st hs
    using kept_connection [of _ sl st _ tok] assms by (auto simp: wire_has_token_def)
  have "\<not> eq_ignore_ascii_case ''date'' ''connection''"
    "\<not> eq_ignore_ascii_case ''content-length'' ''connection''"
    "\<not> eq_ignore_ascii_case ''transfer-encoding'' ''connection''"
    by (simp_all add: eq_ignore_ascii_case_def)
  then have other: "\<not> wire_has_token (if q then [(''date'', d)] else []) tok"
    "\<not> wire_has_token (if q then framing_fields v body else []) tok" for q d
    by (auto simp: wire_has_token_def framing_fields_def split: out_body.splits)
  have "value_has_token t tok \<longleftrightarrow> t = tok" if "t \<in> {''close'', ''keep-alive''}" for t
    using that assms
    by (auto simp: value_has_token_map trim_ows_eq is_ows_def to_ascii_lowercase_def ascii_defs)
  moreover have "t \<in> {''close'', ''keep-alive''}" if "connection_field v keep_alive = Some t" for t
    using that by (cases v; cases keep_alive) (auto simp: connection_field_def)
  ultimately have "wire_has_token
      (case connection_field v keep_alive of Some t \<Rightarrow> [(''connection'', t)] | None \<Rightarrow> []) tok \<longleftrightarrow>
      connection_field v keep_alive = Some tok"
    by (cases "connection_field v keep_alive") (auto simp: wire_has_token_def not_framing_names(7))
  then show ?thesis
    unfolding head_fields_def Let_def wire_has_token_append
    using kept other by (simp add: wire_has_token_def [of "[]"])
qed

lemma write_chunk_eq: "write_chunk out x = out @ hex_digits (length x) @ CRLF @ x @ CRLF"
  by (simp add: write_chunk_def write_hex_eq)

lemma write_last_chunk_Nil: "write_last_chunk out [] = out @ ''0'' @ CRLF @ CRLF"
  by (simp add: write_last_chunk_def)

section \<open>What the writer promises\<close>

text \<open>
  The fields of a head: each line is a token, a colon and a value without CR, LF or NUL.  A head has
  at most one such reading, whatever follows it: no line can hide in a name or a value.
\<close>

definition written_fields :: "bytes \<Rightarrow> version \<Rightarrow> nat \<Rightarrow> bytes \<Rightarrow> wire_fields \<Rightarrow> bool" where
  "written_fields out v st result fs \<longleftrightarrow>
     result = out @ head_lines (status_line v st # map wire_line fs) @ CRLF \<and> list_all wire_ok fs"

lemma split_at_unique:
  "c \<notin> set a \<Longrightarrow> c \<notin> set b \<Longrightarrow> a @ c # x = b @ c # y \<longleftrightarrow> a = b \<and> x = y"
  by (auto simp: append_eq_append_conv2 append_eq_Cons_conv Cons_eq_append_conv)

lemma wire_line_unique:
  assumes "wire_ok f" and "wire_ok g" and "wire_line f = wire_line g"
  shows "f = g"
proof -
  have "\<not> is_tchar CHR '':''" by (simp add: is_tchar_def ascii_defs)
  then have "CHR '':'' \<notin> set (fst f)" "CHR '':'' \<notin> set (fst g)"
    using assms(1,2) by (auto simp: wire_ok_def valid_field_name_def list_all_iff)
  with split_at_unique [of "CHR '':''" "fst f" "fst g"] assms(3) show ?thesis
    by (simp add: wire_line_def prod_eq_iff)
qed

lemma head_lines_unique:
  assumes "list_all wire_ok fs" and "list_all wire_ok gs"
    and "head_lines (map wire_line fs) @ CRLF @ x = head_lines (map wire_line gs) @ CRLF @ y"
  shows "fs = gs \<and> x = y"
  using assms
proof (induction fs arbitrary: gs)
  case Nil
  then show ?case
  proof (cases gs)
    case (Cons g gs')
    with Nil.prems(2) have "line_ok (wire_line g)" by (simp add: wire_ok_line)
    with Nil.prems(3) Cons show ?thesis by (cases "wire_line g") (auto simp: line_ok_def)
  qed simp
next
  case (Cons f fs)
  have f: "line_ok (wire_line f)" using Cons.prems(1) by (simp add: wire_ok_line)
  show ?case
  proof (cases gs)
    case Nil
    with Cons.prems(3) f show ?thesis by (cases "wire_line f") (auto simp: line_ok_def)
  next
    case G: (Cons g gs')
    then have g: "line_ok (wire_line g)" using Cons.prems(2) by (simp add: wire_ok_line)
    have "wire_line f @ CR # (LF # head_lines (map wire_line fs) @ CRLF @ x)
        = wire_line g @ CR # (LF # head_lines (map wire_line gs') @ CRLF @ y)"
      using Cons.prems(3) G by simp
    then have e: "wire_line f = wire_line g"
      "head_lines (map wire_line fs) @ CRLF @ x = head_lines (map wire_line gs') @ CRLF @ y"
      using split_at_unique [of CR "wire_line f" "wire_line g"] f g by (auto simp: line_ok_def)
    have "f = g" using wire_line_unique [OF _ _ e(1)] Cons.prems(1,2) G by simp
    with Cons.IH [OF _ _ e(2)] Cons.prems(1,2) G show ?thesis by simp
  qed
qed

lemma written_fields_unique:
  assumes "written_fields out v st a fs" and "written_fields out v st b gs" and "a @ x = b @ y"
  shows "fs = gs \<and> a = b"
proof -
  have "head_lines (map wire_line fs) @ CRLF @ x = head_lines (map wire_line gs) @ CRLF @ y"
    using assms by (simp add: written_fields_def)
  with head_lines_unique assms(1,2) have "fs = gs" unfolding written_fields_def by blast
  with assms(1,2) show ?thesis by (simp add: written_fields_def)
qed

lemma write_head_for_written:
  "valid_field_value date \<Longrightarrow>
   written_fields out v (resp_status resp) (write_head_for out v resp body date keep_alive head_request)
     (head_fields v resp body date keep_alive head_request)"
  using head_fields_ok by (simp add: written_fields_def write_head_for_eq list_all_iff)

text \<open>So what holds of the fields the writer meant holds of the fields anyone reads.\<close>

lemma written_fields_all:
  assumes "valid_field_value date" and "P (head_fields v resp body date keep_alive head_request)"
  shows "(\<exists>fs. written_fields out v (resp_status resp) (write_head_for out v resp body date keep_alive head_request) fs)
    \<and> (\<forall>fs. written_fields out v (resp_status resp) (write_head_for out v resp body date keep_alive head_request) fs \<longrightarrow> P fs)"
proof (intro conjI allI impI)
  let ?head = "write_head_for out v resp body date keep_alive head_request"
  note w = write_head_for_written [OF assms(1), of out v resp body keep_alive head_request]
  then show "\<exists>fs. written_fields out v (resp_status resp) ?head fs" by blast
  fix fs assume "written_fields out v (resp_status resp) ?head fs"
  from written_fields_unique [OF this w refl] assms(2) show "P fs" by simp
qed

text \<open>C11. No response splitting: whatever names and values a handler puts in its headers, the
  written head is a status line and field lines whose names are tokens and whose values hold no
  CR, LF or NUL; read back with this crate's own scans it ends exactly where the writer stopped,
  whatever bytes follow, and it passes the strict line-ending check.\<close>

theorem write_head_no_splitting:
  assumes "valid_field_value date"
  shows "\<exists>fs. written_fields [] v (resp_status resp)
        (write_head_for [] v resp body date keep_alive head_request) fs
      \<and> list_all wire_ok fs
      \<and> find_head_end (write_head_for [] v resp body date keep_alive head_request @ after)
          = Some (length (write_head_for [] v resp body date keep_alive head_request))
      \<and> prescan (write_head_for [] v resp body date keep_alive head_request) = Inr ()"
proof -
  let ?fs = "head_fields v resp body date keep_alive head_request"
  let ?ls = "status_line v (resp_status resp) # map wire_line ?fs"
  have lines: "\<forall>l \<in> set ?ls. line_ok l"
    using head_fields_ok [OF assms] status_line_ok wire_ok_line by auto
  have w: "write_head_for [] v resp body date keep_alive head_request = head_lines ?ls @ CRLF"
    by (simp add: write_head_for_eq)
  have "find_head_end ((head_lines ?ls @ CRLF) @ after) = Some (length (head_lines ?ls) + 2)"
    using find_head_end_lines [OF _ lines, of after] by simp
  moreover have "prescan (head_lines ?ls @ CRLF) = Inr ()"
    using strict_lines_head_lines [OF lines] by (simp only: prescan_strict_lines)
  ultimately show ?thesis
    using head_fields_ok [OF assms] unfolding w written_fields_def
    by (intro exI [of _ ?fs]) (simp add: list_all_iff)
qed

definition sample_date :: bytes where
  "sample_date = ''Sun, 06 Nov 1994 08:49:37 GMT''"

definition sample_response :: response_head where
  "sample_response =
     \<lparr>resp_status = 200, resp_headers =
        [(OtherHeader (ByteStr ''X-A''), [CHR ''a'', CR, LF, CHR ''b'']), (ContentLength, ''7'')]\<rparr>"

theorem write_head_no_splitting_witness:
  "find_head_end (write_head_for [] Http11 sample_response (OutFixed ''hello'') sample_date True False @ ''hello'')
     = Some (length (write_head_for [] Http11 sample_response (OutFixed ''hello'') sample_date True False))"
  using write_head_no_splitting [of sample_date Http11 sample_response "OutFixed ''hello''" True False "''hello''"]
  by (auto simp: sample_date_def)

text \<open>C12. True framing: whatever framing fields the handler supplied, under whatever spelling, the
  written head can be read as field lines in exactly one way, and so read carries at most one
  \<^verbatim>\<open>Content-Length\<close> or \<^verbatim>\<open>Transfer-Encoding\<close> field in all; a
  body-bearing response states the exact length of a fixed body or a coding list ending in
  \<^verbatim>\<open>chunked\<close> for a stream on HTTP/1.1 and nothing on HTTP/1.0, and a 1xx, 204 or 304 carries no
  coding, nor, but for a 304, a length.\<close>

theorem write_head_true_framing:
  assumes "valid_field_value date" and "\<forall>b. body = OutFixed b \<longrightarrow> length b < u64_range"
  shows "(\<exists>fs. written_fields out v (resp_status resp)
        (write_head_for out v resp body date keep_alive head_request) fs)
    \<and> (\<forall>fs. written_fields out v (resp_status resp)
        (write_head_for out v resp body date keep_alive head_request) fs \<longrightarrow>
        framing_truthful v (resp_status resp) body head_request
          (wire_values ''content-length'' fs) (wire_values ''transfer-encoding'' fs))"
proof -
  let ?fs = "head_fields v resp body date keep_alive head_request"
  have "framing_truthful v (resp_status resp) body head_request
      (wire_values ''content-length'' ?fs) (wire_values ''transfer-encoding'' ?fs)"
    using written_framing_truthful [OF assms(2), of v "resp_status resp" head_request
        "handler_values ContentLength (resp_headers resp)" "handler_values TransferEncoding (resp_headers resp)"]
    unfolding head_fields_framing [of v resp body date keep_alive head_request, symmetric] by simp
  then show ?thesis by (rule written_fields_all [OF assms(1)])
qed

theorem write_head_true_framing_witness:
  "\<exists>fs. written_fields [] Http11 200
        (write_head_for [] Http11 sample_response (OutFixed ''hello'') sample_date True False) fs
      \<and> framing_truthful Http11 200 (OutFixed ''hello'') False
          (wire_values ''content-length'' fs) (wire_values ''transfer-encoding'' fs)"
  using write_head_true_framing [of sample_date "OutFixed ''hello''" "[]" Http11 sample_response True False]
  by (auto simp: sample_response_def sample_date_def)

lemma head_fields_keep_alive:
  assumes "resp_status resp \<noteq> 101"
  shows "is_keep_alive (read_head v (head_fields v resp body date keep_alive head_request)) = keep_alive"
  using head_fields_token [of "''close''" v resp body date keep_alive head_request]
    head_fields_token [of "''keep-alive''" v resp body date keep_alive head_request] assms
  by (cases v; cases keep_alive)
     (simp_all add: is_keep_alive_def read_head_token connection_field_def read_head_def [THEN arg_cong [of _ _ head_version]])

text \<open>C21. The connection's fate is stated as decided: for every response but a 101, the
  written head can be read as field lines in exactly one way, and a recipient that applies this
  crate's own persistence rule to them concludes exactly the \<^verbatim>\<open>keep_alive\<close> the server decided, whatever
  \<^verbatim>\<open>Connection\<close> fields the handler supplied.\<close>

theorem write_head_persistence:
  assumes "valid_field_value date" and "resp_status resp \<noteq> 101"
  shows "(\<exists>fs. written_fields out v (resp_status resp)
        (write_head_for out v resp body date keep_alive head_request) fs)
    \<and> (\<forall>fs. written_fields out v (resp_status resp)
        (write_head_for out v resp body date keep_alive head_request) fs \<longrightarrow>
        is_keep_alive (read_head v fs) = keep_alive)"
  using head_fields_keep_alive [OF assms(2)] by (rule written_fields_all [OF assms(1)])

theorem write_head_persistence_witness:
  "\<exists>fs. written_fields [] Http10 200
        (write_head_for [] Http10 sample_response OutNone sample_date True False) fs
      \<and> is_keep_alive (read_head Http10 fs)"
  using write_head_persistence [of sample_date sample_response "[]" Http10 OutNone True False]
  by (auto simp: sample_response_def sample_date_def)

section \<open>Trailers and the date\<close>

definition kept_trailers :: "header_vec \<Rightarrow> header_vec" where
  "kept_trailers trs = filter (\<lambda>(i, v). \<not> forbidden_in_trailers (canonical i) \<and> writable i v) trs"

lemma emit_trailers_eq:
  "emit_trailers out trs = out @ head_lines (map (\<lambda>(i, v). wire_line (header_as_str i, v)) (kept_trailers trs))"
  by (induction trs arbitrary: out rule: list.induct)
     (auto simp: kept_trailers_def put_field_eq split: prod.splits)

lemma writable_own_name_ok: "writable i v \<Longrightarrow> wire_ok (header_as_str i, v)"
  by (cases i) (use well_known_wire_ok [of i v] in \<open>auto simp: writable_def wire_ok_def well_known_def\<close>)

text \<open>C24. A trailer section cannot be split or smuggle a framing, routing or credential field: it is
  written as the zero chunk, one line per kept trailer with a token name and a value without CR,
  LF or NUL, and the blank line; every trailer that is kept is writable, and none is a forbidden
  field under any spelling.\<close>

theorem write_last_chunk_safe:
  "write_last_chunk out trs =
     out @ ''0'' @ CRLF @ head_lines (map (\<lambda>(i, v). wire_line (header_as_str i, v)) (kept_trailers trs)) @ CRLF
   \<and> list_all (\<lambda>(i, v). wire_ok (header_as_str i, v) \<and> \<not> forbidden_in_trailers (intern (header_as_str i)))
       (kept_trailers trs)"
proof -
  have "\<not> forbidden_in_trailers (intern (header_as_str i))"
    if w: "writable i v" and f: "\<not> forbidden_in_trailers (canonical i)" for i v
  proof
    assume a: "forbidden_in_trailers (intern (header_as_str i))"
    then have k: "well_known (intern (header_as_str i))" by (auto simp: forbidden_in_trailers_def well_known_def)
    from intern_eq_well_known_iff [OF k, of "header_as_str i"]
    have "canonical i = intern (header_as_str i)"
      using canonical_eq_iff [OF _ k, of i] writable_name_ok [OF w] by simp
    with a f show False by simp
  qed
  then show ?thesis
    by (auto simp: write_last_chunk_def emit_trailers_eq kept_trailers_def list_all_iff writable_own_name_ok)
qed

definition clock_secs :: "int \<Rightarrow> nat" where
  "clock_secs now = (if now < 0 then 0 else nat (now div 1000000000))"

definition date_cache_ok :: "(nat \<Rightarrow> bytes) \<Rightarrow> date_cache \<Rightarrow> bool" where
  "date_cache_ok fmt c \<longleftrightarrow>
     length (cache_buf c) = DATE_LEN \<and> (cache_valid c \<longrightarrow> cache_buf c = fmt (cache_secs c))"

fun date_run :: "(int \<Rightarrow> bytes) \<Rightarrow> date_cache \<Rightarrow> int list \<Rightarrow> bytes list" where
  "date_run fmt c [] = []"
| "date_run fmt c (now # ts) =
     (let (d, c') = date_cache_get fmt c now in d # date_run fmt c' ts)"

lemma date_cache_get_ok:
  assumes "date_cache_ok g c" and "\<forall>n. fmt n = g (clock_secs n)"
    and "\<forall>n. length (g n) = DATE_LEN" and "date_cache_get fmt c now = (d, c')"
  shows "d = fmt now \<and> date_cache_ok g c'"
proof -
  have f: "fmt now = g (clock_secs now)" using assms(2) by blast
  with assms(1,3,4) show ?thesis
    by (auto simp: date_cache_get_def date_cache_ok_def Let_def clock_secs_def [symmetric] f
        split: if_splits)
qed

text \<open>The date cache is invisible: for a formatter whose output depends on the second only and is
  an IMF-fixdate's 29 bytes, every response of a connection is given the date the formatter
  returns for its own time, in whatever order the clock reads.\<close>

lemma date_cache_transparent:
  assumes "\<forall>n. fmt n = g (clock_secs n)" and "\<forall>n. length (g n) = DATE_LEN"
  shows "date_run fmt date_cache_new ts = map fmt ts"
proof -
  have "date_run fmt c ts = map fmt ts" if "date_cache_ok g c" for c
    using that
  proof (induction ts arbitrary: c)
    case (Cons now ts)
    obtain d c' where g: "date_cache_get fmt c now = (d, c')" by (cases "date_cache_get fmt c now")
    from date_cache_get_ok [OF Cons.prems assms g] have "d = fmt now" "date_cache_ok g c'"
      by simp_all
    with Cons.IH g show ?case by simp
  qed simp
  moreover have "date_cache_ok g date_cache_new" by (simp add: date_cache_ok_def date_cache_new_def)
  ultimately show ?thesis by blast
qed

end
