(* ===== verification/H1_Body.thy ===== *)
theory H1_Body
  imports H1_Drain H1_Framing
begin

text \<open>
  \<^verbatim>\<open>src/src/service.rs\<close>: request bodies, responses and the \<^verbatim>\<open>BodyIo\<close> trait.  A trait object is a
  record of its methods, each a function on the state of the transport it was made for; the body
  is polled with that record and that state.  One turn of the loop of \<^verbatim>\<open>poll_chunk\<close> is \<open>body_step\<close>:
  its outer \<open>None\<close> is a panic and its inner \<open>None\<close> goes around again.  The loops themselves are
  \<open>partial_function\<close>s, whose value \<open>None\<close> is a panic or not returning; that they return is proved
  from the interface laws.

  HTTP/1 serializes a request against its response and each borrow of the shared cell lasts for
  one call, so \<^verbatim>\<open>try_borrow_mut\<close> succeeds and \<^verbatim>\<open>borrow_mut\<close> does not panic; the cell is not modelled.
  The fields that only the \<^verbatim>\<open>hyper-backend\<close> feature compiles are left out.
\<close>

datatype 'a pollable = Pending | Ready 'a

datatype io_error = TimedOut | WriteZero | UnexpectedEof | InvalidData | OtherIo

datatype body_error = BodyChunked chunked_error | BodyIoError io_error | Incomplete | TooLarge

definition body_error_status :: "body_error \<Rightarrow> nat" where
  "body_error_status e =
     (case e of
        BodyChunked c \<Rightarrow> chunked_error_status c
      | TooLarge \<Rightarrow> 413
      | Incomplete \<Rightarrow> 400
      | BodyIoError _ \<Rightarrow> 400)"

section \<open>The transport's side\<close>

record 'io body_io =
  poll_fill :: "'io \<Rightarrow> (io_error + bytes) pollable \<times> 'io"
  poll_send_continue :: "'io \<Rightarrow> (io_error + unit) pollable \<times> 'io"
  take_buffered :: "nat \<Rightarrow> 'io \<Rightarrow> bytes \<times> 'io"
  push_back :: "bytes \<Rightarrow> 'io \<Rightarrow> 'io"
  body_started :: "'io \<Rightarrow> nat \<times> 'io"
  body_finished :: "nat \<Rightarrow> 'io \<Rightarrow> 'io"

record body_state =
  bs_kind :: body_kind
  bs_buffered :: bytes
  bs_remaining :: nat
  bs_decoder :: "chunked_decoder option"
  bs_trailers :: "header_vec option"
  bs_trailers_ready :: bool
  bs_has_io :: bool
  bs_generation :: nat
  bs_notified :: bool
  bs_continue_sent :: bool
  bs_needs_continue :: bool
  bs_done :: bool
  bs_fully_read :: bool

definition notify_finished :: "'io body_io \<Rightarrow> body_state \<Rightarrow> 'io \<Rightarrow> body_state \<times> 'io" where
  "notify_finished vt s io =
     (if bs_notified s then (s, io)
      else if bs_has_io s then (s\<lparr>bs_notified := True\<rparr>, body_finished vt (bs_generation s) io)
      else (s, io))"

definition body_finish :: "'io body_io \<Rightarrow> body_state \<Rightarrow> 'io \<Rightarrow> body_state \<times> 'io" where
  "body_finish vt s io = notify_finished vt (s\<lparr>bs_done := True, bs_fully_read := True\<rparr>) io"

definition body_fail :: "'io body_io \<Rightarrow> body_state \<Rightarrow> 'io \<Rightarrow> body_state \<times> 'io" where
  "body_fail vt s io = notify_finished vt (s\<lparr>bs_done := True, bs_fully_read := False\<rparr>) io"

definition body_drop :: "'io body_io \<Rightarrow> body_state \<Rightarrow> 'io \<Rightarrow> 'io" where
  "body_drop vt s io = snd (notify_finished vt s io)"

definition register :: "'io body_io \<Rightarrow> 'io \<Rightarrow> bool \<Rightarrow> (nat \<times> bool) \<times> 'io" where
  "register vt io dn =
     (let (generation, io) = body_started vt io;
          io = (if dn then body_finished vt generation io else io)
      in ((generation, dn), io))"

section \<open>Constructors and accessors\<close>

definition body_empty :: body_state where
  "body_empty =
     \<lparr>bs_kind = BodyNone, bs_buffered = [], bs_remaining = 0, bs_decoder = None, bs_trailers = None,
      bs_trailers_ready = True, bs_has_io = False, bs_generation = 0, bs_notified = False,
      bs_continue_sent = True, bs_needs_continue = False, bs_done = True, bs_fully_read = True\<rparr>"

definition body_new :: "'io body_io \<Rightarrow> body_kind \<Rightarrow> 'io \<Rightarrow> bool \<Rightarrow> limits \<Rightarrow> body_state \<times> 'io" where
  "body_new vt kind io needs_continue l =
     (let (rem, dn) =
        (case kind of BodyNone \<Rightarrow> (0, True) | Length n \<Rightarrow> (n, n = 0) | Chunked \<Rightarrow> (0, False));
          ((generation, notified), io) = register vt io dn
      in (\<lparr>bs_kind = kind, bs_buffered = [], bs_remaining = rem,
           bs_decoder = (if kind = Chunked then Some (chunked_new l) else None),
           bs_trailers = None, bs_trailers_ready = dn, bs_has_io = True,
           bs_generation = generation, bs_notified = notified,
           bs_continue_sent = (\<not> needs_continue), bs_needs_continue = needs_continue,
           bs_done = dn, bs_fully_read = dn\<rparr>, io))"

definition body_from_bytes :: "bytes \<Rightarrow> body_state" where
  "body_from_bytes data =
     \<lparr>bs_kind = Length (length data), bs_buffered = data, bs_remaining = length data,
      bs_decoder = None, bs_trailers = None, bs_trailers_ready = True, bs_has_io = False,
      bs_generation = 0, bs_notified = False, bs_continue_sent = True, bs_needs_continue = False,
      bs_done = (length data = 0), bs_fully_read = True\<rparr>"

definition is_end :: "body_state \<Rightarrow> bool" where
  "is_end s = bs_done s"

definition continue_pending :: "body_state \<Rightarrow> bool" where
  "continue_pending s \<longleftrightarrow> bs_needs_continue s \<and> \<not> bs_continue_sent s"

definition was_fully_read :: "body_state \<Rightarrow> bool" where
  "was_fully_read s = bs_fully_read s"

definition body_trailers :: "body_state \<Rightarrow> header_vec option" where
  "body_trailers s =
     (if bs_trailers_ready s then Some (case bs_trailers s of Some t \<Rightarrow> t | None \<Rightarrow> []) else None)"

section \<open>Reading\<close>

text \<open>\<^verbatim>\<open>fill\<close>: \<open>Ready (Inr False)\<close> is the end of the stream.\<close>

definition body_fill ::
    "'io body_io \<Rightarrow> body_state \<Rightarrow> 'io \<Rightarrow> (body_error + bool) pollable \<times> body_state \<times> 'io" where
  "body_fill vt s io =
     (if \<not> bs_has_io s then (Ready (Inr False), s, io)
      else
        (case poll_fill vt io of
           (Pending, io) \<Rightarrow> (Pending, s, io)
         | (Ready (Inl e), io) \<Rightarrow> (Ready (Inl (BodyIoError e)), s, io)
         | (Ready (Inr fresh), io) \<Rightarrow>
             if fresh = [] then (Ready (Inr False), s, io)
             else (Ready (Inr True), s\<lparr>bs_buffered := bs_buffered s @ fresh\<rparr>, io)))"

type_synonym chunk_result = "(body_error + bytes) option pollable"

definition fail_with ::
    "'io body_io \<Rightarrow> body_error \<Rightarrow> body_state \<Rightarrow> 'io \<Rightarrow>
      (chunk_result option \<times> body_state \<times> 'io) option" where
  "fail_with vt e s io = (let (s, io) = body_fail vt s io in Some (Some (Ready (Some (Inl e))), s, io))"

definition fill_step ::
    "'io body_io \<Rightarrow> body_state \<Rightarrow> 'io \<Rightarrow> (chunk_result option \<times> body_state \<times> 'io) option" where
  "fill_step vt s io =
     (case body_fill vt s io of
        (Pending, s, io) \<Rightarrow> Some (Some Pending, s, io)
      | (Ready (Inl e), s, io) \<Rightarrow> fail_with vt e s io
      | (Ready (Inr False), s, io) \<Rightarrow> fail_with vt Incomplete s io
      | (Ready (Inr True), s, io) \<Rightarrow> Some (None, s, io))"

text \<open>
  Both framed kinds first take what the connection already buffered past the head, then deliver
  from the body's own buffer.
\<close>

definition top_up :: "'io body_io \<Rightarrow> nat \<Rightarrow> body_state \<Rightarrow> 'io \<Rightarrow> body_state \<times> 'io" where
  "top_up vt mx s io =
     (if bs_buffered s = [] \<and> bs_has_io s then
        (let (got, io) = take_buffered vt mx io
         in (if got \<noteq> [] then s\<lparr>bs_buffered := got\<rparr> else s, io))
      else (s, io))"

definition length_deliver ::
    "'io body_io \<Rightarrow> body_state \<Rightarrow> 'io \<Rightarrow> (chunk_result option \<times> body_state \<times> 'io) option" where
  "length_deliver vt s io =
     (if bs_buffered s \<noteq> [] then
        (let tk = min (length (bs_buffered s)) (bs_remaining s);
             chunk = take tk (bs_buffered s);
             s = s\<lparr>bs_buffered := drop tk (bs_buffered s),
                   bs_remaining := wrapping_sub_u64 (bs_remaining s) tk\<rparr>;
             (s, io) =
               (if bs_remaining s = 0 then
                  (let (s, io) = body_finish vt s io;
                       s = s\<lparr>bs_trailers_ready := True\<rparr>
                   in if bs_buffered s \<noteq> [] \<and> bs_has_io s
                      then (s\<lparr>bs_buffered := []\<rparr>, push_back vt (bs_buffered s) io)
                      else (s, io))
                else (s, io))
         in Some (Some (Ready (Some (Inr chunk))), s, io))
      else if bs_remaining s = 0 then
        (let (s, io) = body_finish vt s io
         in Some (Some (Ready None), s\<lparr>bs_trailers_ready := True\<rparr>, io))
      else fill_step vt s io)"

definition length_step ::
    "'io body_io \<Rightarrow> body_state \<Rightarrow> 'io \<Rightarrow> (chunk_result option \<times> body_state \<times> 'io) option" where
  "length_step vt s io =
     (let (s, io) = (if bs_remaining s > 0 then top_up vt (bs_remaining s) s io else (s, io))
      in length_deliver vt s io)"

definition chunked_deliver ::
    "'io body_io \<Rightarrow> body_state \<Rightarrow> 'io \<Rightarrow> (chunk_result option \<times> body_state \<times> 'io) option" where
  "chunked_deliver vt s io =
     (case bs_decoder s of
        None \<Rightarrow> None
      | Some decoder \<Rightarrow>
          (case poll decoder (bs_buffered s) of (r, decoder, buffered) \<Rightarrow>
             let s = s\<lparr>bs_decoder := Some decoder, bs_buffered := buffered\<rparr> in
             case r of
               Inl e \<Rightarrow> fail_with vt (BodyChunked e) s io
             | Inr (Some (Data d)) \<Rightarrow> Some (Some (Ready (Some (Inr d))), s, io)
             | Inr (Some (Trailers t)) \<Rightarrow> Some (None, s\<lparr>bs_trailers := Some t\<rparr>, io)
             | Inr (Some End) \<Rightarrow>
                 (let (s, io) = body_finish vt s io;
                      s = s\<lparr>bs_trailers_ready := True\<rparr>;
                      (s, io) =
                        (if bs_buffered s \<noteq> [] then
                           (s\<lparr>bs_buffered := []\<rparr>,
                            if bs_has_io s then push_back vt (bs_buffered s) io else io)
                         else (s, io))
                  in Some (Some (Ready None), s, io))
             | Inr None \<Rightarrow> fill_step vt s io))"

definition chunked_step ::
    "'io body_io \<Rightarrow> body_state \<Rightarrow> 'io \<Rightarrow> (chunk_result option \<times> body_state \<times> 'io) option" where
  "chunked_step vt s io =
     (let (s, io) = top_up vt (u64_range - 1) s io
      in chunked_deliver vt s io)"

definition body_step ::
    "'io body_io \<Rightarrow> body_state \<Rightarrow> 'io \<Rightarrow> (chunk_result option \<times> body_state \<times> 'io) option" where
  "body_step vt s io =
     (case bs_kind s of
        BodyNone \<Rightarrow> (let (s, io) = body_finish vt s io in Some (Some (Ready None), s, io))
      | Length _ \<Rightarrow> length_step vt s io
      | Chunked \<Rightarrow> chunked_step vt s io)"

partial_function (option) body_loop ::
    "'io body_io \<Rightarrow> body_state \<Rightarrow> 'io \<Rightarrow> (chunk_result \<times> body_state \<times> 'io) option" where
  "body_loop vt s io =
     (case body_step vt s io of
        None \<Rightarrow> None
      | Some (None, s', io') \<Rightarrow> body_loop vt s' io'
      | Some (Some r, s', io') \<Rightarrow> Some (r, s', io'))"

definition poll_chunk ::
    "'io body_io \<Rightarrow> body_state \<Rightarrow> 'io \<Rightarrow> (chunk_result \<times> body_state \<times> 'io) option" where
  "poll_chunk vt s io =
     (if bs_done s then Some (Ready None, s, io)
      else if \<not> bs_continue_sent s then
        (case (if bs_has_io s then poll_send_continue vt io else (Ready (Inr ()), io)) of
           (Pending, io) \<Rightarrow> Some (Pending, s, io)
         | (Ready (Inl e), io) \<Rightarrow>
             (let (s, io) = body_fail vt s io in Some (Ready (Some (Inl (BodyIoError e))), s, io))
         | (Ready (Inr _), io) \<Rightarrow> body_loop vt (s\<lparr>bs_continue_sent := True\<rparr>) io)
      else body_loop vt s io)"

text \<open>\<^verbatim>\<open>chunk().await\<close>: polled again after every \<^verbatim>\<open>Pending\<close>.\<close>

partial_function (option) chunk_await ::
    "'io body_io \<Rightarrow> body_state \<Rightarrow> 'io \<Rightarrow> ((body_error + bytes) option \<times> body_state \<times> 'io) option" where
  "chunk_await vt s io =
     (case poll_chunk vt s io of
        None \<Rightarrow> None
      | Some (Pending, s', io') \<Rightarrow> chunk_await vt s' io'
      | Some (Ready r, s', io') \<Rightarrow> Some (r, s', io'))"

type_synonym collector = "bytes option \<times> bytes option"

definition collect_add :: "collector \<Rightarrow> bytes \<Rightarrow> collector" where
  "collect_add c chunk =
     (case c of
        (None, None) \<Rightarrow> (None, Some chunk)
      | (None, Some f) \<Rightarrow> (Some (f @ chunk), None)
      | (Some v, f) \<Rightarrow> (Some (v @ chunk), f))"

definition collect_result :: "collector \<Rightarrow> bytes" where
  "collect_result c =
     (case c of (Some v, _) \<Rightarrow> v | (None, Some f) \<Rightarrow> f | (None, None) \<Rightarrow> [])"

partial_function (option) collect_loop ::
    "'io body_io \<Rightarrow> nat \<Rightarrow> collector \<Rightarrow> nat \<Rightarrow> body_state \<Rightarrow> 'io \<Rightarrow>
      ((body_error + bytes) \<times> body_state \<times> 'io) option" where
  "collect_loop vt cap c tot s io =
     (case chunk_await vt s io of
        None \<Rightarrow> None
      | Some (None, s', io') \<Rightarrow> Some (Inr (collect_result c), s', io')
      | Some (Some (Inl e), s', io') \<Rightarrow> Some (Inl e, s', io')
      | Some (Some (Inr chunk), s', io') \<Rightarrow>
          if wrapping_add_u64 tot (length chunk) > cap then
            (let (s2, io2) = (if \<not> bs_done s' then body_fail vt s' io' else (s', io'))
             in Some (Inl TooLarge, s2, io2))
          else collect_loop vt cap (collect_add c chunk) (wrapping_add_u64 tot (length chunk)) s' io')"

declare body_loop.simps [code] chunk_await.simps [code] collect_loop.simps [code]

definition collect ::
    "'io body_io \<Rightarrow> nat \<Rightarrow> body_state \<Rightarrow> 'io \<Rightarrow> ((body_error + bytes) \<times> body_state \<times> 'io) option" where
  "collect vt cap s io = collect_loop vt cap (None, None) 0 s io"

section \<open>Responses\<close>

text \<open>
  A streamed body is the list of what polling it does, in order: polling the request's body, and
  reporting \<^verbatim>\<open>Pending\<close>, a chunk or an error; it ends after the last item.
\<close>

datatype stream_item = StreamPollsBody | StreamPending | StreamChunk bytes | StreamError

datatype response_body = RespEmpty | RespFull bytes | RespStream "stream_item list"

record response =
  rsp_status :: nat
  rsp_headers :: header_vec
  rsp_body :: response_body

definition response_new :: "nat \<Rightarrow> response" where
  "response_new st = \<lparr>rsp_status = st, rsp_headers = [], rsp_body = RespEmpty\<rparr>"

definition response_ok :: response where
  "response_ok = response_new 200"

definition status_only :: "nat \<Rightarrow> response" where
  "status_only st = response_new st"

definition response_text :: "bytes \<Rightarrow> response" where
  "response_text body =
     (response_new 200)\<lparr>rsp_headers := [(ContentType, ''text/plain; charset=utf-8'')],
                        rsp_body := RespFull body\<rparr>"

definition response_json :: "bytes \<Rightarrow> response" where
  "response_json body =
     (response_new 200)\<lparr>rsp_headers := [(ContentType, ''application/json'')],
                        rsp_body := RespFull body\<rparr>"

definition response_header :: "response \<Rightarrow> header_id \<Rightarrow> bytes \<Rightarrow> response" where
  "response_header r i val = r\<lparr>rsp_headers := rsp_headers r @ [(i, val)]\<rparr>"

definition with_body :: "response \<Rightarrow> response_body \<Rightarrow> response" where
  "with_body r b = r\<lparr>rsp_body := b\<rparr>"

section \<open>The interface\<close>

text \<open>
  What a body relies on of its transport: \<open>held\<close> is what the connection has buffered, \<open>coming\<close>
  what the transport will still deliver, and \<open>left\<close> bounds the outcomes it will still report.  A
  read hands over bytes that come after everything held, which is why a body must have emptied
  the buffer before it reads.
\<close>

locale body_transport =
  fixes vt :: "'io body_io"
    and held :: "'io \<Rightarrow> bytes"
    and coming :: "'io \<Rightarrow> bytes"
    and left :: "'io \<Rightarrow> nat"
  assumes take_law: "take_buffered vt n io = (got, io') \<Longrightarrow>
      got = take n (held io) \<and> held io' = drop n (held io) \<and> coming io' = coming io \<and> left io' = left io"
    and push_law: "held (push_back vt b io) = b @ held io \<and> coming (push_back vt b io) = coming io
      \<and> left (push_back vt b io) = left io"
    and fill_law: "poll_fill vt io = (Ready (Inr fresh), io') \<Longrightarrow> fresh \<noteq> [] \<Longrightarrow>
      held io' = held io \<and> coming io = fresh @ coming io' \<and> left io' < left io"
    and fill_eof_law: "poll_fill vt io = (Ready (Inr []), io') \<Longrightarrow> held io' = held io \<and> coming io = []"
    and fill_pending_law: "poll_fill vt io = (Pending, io') \<Longrightarrow>
      held io' = held io \<and> coming io' = coming io \<and> left io' < left io"
    and continue_law: "poll_send_continue vt io = (r, io') \<Longrightarrow>
      held io' = held io \<and> coming io' = coming io \<and> left io' \<le> left io \<and> (r = Pending \<longrightarrow> left io' < left io)"
    and started_law: "body_started vt io = (g, io') \<Longrightarrow>
      held io' = held io \<and> coming io' = coming io \<and> left io' = left io"
    and finished_law: "held (body_finished vt g io) = held io \<and> coming (body_finished vt g io) = coming io
      \<and> left (body_finished vt g io) = left io"
begin

definition ahead :: "'io \<Rightarrow> bytes" where
  "ahead io = held io @ coming io"

lemma notify_io:
  assumes "notify_finished vt s io = (s', io')"
  shows "held io' = held io \<and> coming io' = coming io \<and> left io' = left io \<and> (\<exists>n. s' = s\<lparr>bs_notified := n\<rparr>)"
  using assms finished_law [of "bs_generation s" io]
  by (auto simp: notify_finished_def split: if_splits intro: exI [of _ "bs_notified s"])

lemma finish_io:
  assumes "body_finish vt s io = (s', io')"
  shows "held io' = held io \<and> coming io' = coming io
    \<and> (\<exists>n. s' = s\<lparr>bs_done := True, bs_fully_read := True, bs_notified := n\<rparr>)"
  using notify_io [of "s\<lparr>bs_done := True, bs_fully_read := True\<rparr>" io s' io'] assms
  by (auto simp: body_finish_def)

lemma fail_io:
  assumes "body_fail vt s io = (s', io')"
  shows "held io' = held io \<and> coming io' = coming io
    \<and> (\<exists>n. s' = s\<lparr>bs_done := True, bs_fully_read := False, bs_notified := n\<rparr>)"
  using notify_io [of "s\<lparr>bs_done := True, bs_fully_read := False\<rparr>" io s' io'] assms
  by (auto simp: body_fail_def)

end

section \<open>Where a body has got to\<close>

text \<open>A stretch \<open>c\<close> of the stream is a complete body of kind \<open>k\<close> whose content is \<open>b\<close>.\<close>

definition body_is :: "body_kind \<Rightarrow> bytes \<Rightarrow> bytes \<Rightarrow> bool" where
  "body_is k c b \<longleftrightarrow>
     (case k of
        BodyNone \<Rightarrow> c = [] \<and> b = []
      | Length n \<Rightarrow> c = b \<and> length b = n
      | Chunked \<Rightarrow> (\<exists>ts. chunked_grammar c b ts))"

text \<open>
  Having consumed \<open>c\<close> and delivered \<open>b\<close>, whatever completes the rest of the body completes the
  whole.
\<close>

definition in_progress :: "body_state \<Rightarrow> bytes \<Rightarrow> bytes \<Rightarrow> bool" where
  "in_progress s c b \<longleftrightarrow>
     (case bs_kind s of
        BodyNone \<Rightarrow> False
      | Length n \<Rightarrow> c = b \<and> length b + bs_remaining s = n \<and> n < u64_range
      | Chunked \<Rightarrow>
          length b \<le> length c \<and>
          (\<exists>d. bs_decoder s = Some d \<and> decoder_ok d \<and>
             (\<forall>c' b' ts. rest_grammar d c' b' ts \<longrightarrow> (\<exists>ts'. chunked_grammar (c @ c') (b @ b') ts'))))"

lemma in_progress_cong:
  "bs_kind s = bs_kind s' \<Longrightarrow> bs_remaining s = bs_remaining s' \<Longrightarrow> bs_decoder s = bs_decoder s' \<Longrightarrow>
   in_progress s c b = in_progress s' c b"
  by (cases "bs_kind s'") (simp_all add: in_progress_def)

lemma in_progress_length: "in_progress s c b \<Longrightarrow> length b \<le> length c"
  by (cases "bs_kind s") (auto simp: in_progress_def)

lemma poll_rest_grammar:
  assumes "decoder_ok d"
  shows "poll d buf = (Inr ev, d', buf') \<Longrightarrow>
    decoder_ok d' \<and> (\<exists>c. buf = c @ buf' \<and> (\<forall>c' b ts. rest_grammar d' c' b ts \<longrightarrow>
      rest_grammar d (c @ c') (event_data (Some (Inr ev)) @ b) (event_trailers (Some (Inr ev)) @ ts)))"
  using assms
proof (induction d buf rule: run_induct)
  case (Step d buf)
  obtain r d1 b1 where s: "poll_step d buf = (r, d1, b1)" by (cases "poll_step d buf") auto
  show ?case
  proof (cases r)
    case None
    with s Step.prems have p1: "poll d1 b1 = (Inr ev, d', buf')" by (simp add: poll.simps [of d buf])
    have ok1: "decoder_ok d1" using poll_step_ok [OF Step(1) s] None by simp
    from Step.IH [OF s _ ok1 p1] None obtain c where c: "decoder_ok d'" "b1 = c @ buf'"
      "\<forall>c' b ts. rest_grammar d' c' b ts \<longrightarrow>
        rest_grammar d1 (c @ c') (event_data (Some (Inr ev)) @ b) (event_trailers (Some (Inr ev)) @ ts)"
      by auto
    have "suffix b1 buf" using poll_step_frame [OF Step(1) s] by simp
    then obtain c0 where c0: "buf = c0 @ b1" by (auto simp: suffix_def)
    have "rest_grammar d ((c0 @ c) @ c') (event_data (Some (Inr ev)) @ b) (event_trailers (Some (Inr ev)) @ ts)"
      if "rest_grammar d' c' b ts" for c' b ts
      using rest_grammar_step [OF Step(1) s _ c(3) [rule_format, OF that]] None c0
      by (auto simp: event_trailers_def)
    with c c0 show ?thesis by (intro conjI exI [of _ "c0 @ c"]) auto
  next
    case (Some x)
    with s Step.prems have x: "x = Inr ev" "d1 = d'" "b1 = buf'" by (simp_all add: poll.simps [of d buf])
    have ok: "decoder_ok d'" using poll_step_ok [OF Step(1) s] Some x by simp
    show ?thesis
    proof (cases "goes_on r")
      case True
      have "suffix b1 buf" using poll_step_frame [OF Step(1) s] by simp
      then obtain c0 where c0: "buf = c0 @ b1" by (auto simp: suffix_def)
      have "rest_grammar d (c0 @ c') (event_data (Some (Inr ev)) @ b) (event_trailers (Some (Inr ev)) @ ts)"
        if "rest_grammar d' c' b ts" for c' b ts
        using rest_grammar_step [OF Step(1) s True] that Some x c0 by force
      with ok c0 x show ?thesis by blast
    next
      case False
      with Some x consider "ev = None" | "ev = Some End" by (cases ev) auto
      then show ?thesis
      proof cases
        case A: 1
        with poll_step_need_more [of d buf d1 b1] s Some x ok show ?thesis by (auto simp: event_trailers_def)
      next
        case A: 2
        with s Some x have "state d = StEnding \<or> state d = StDone" "buf' = buf" "state d' = StDone"
          by (cases "state d"; auto simp: poll_step_size poll_step_trailers Let_def poll_step_def [of d buf]
              split: sum.splits option.splits if_split_asm)+
        with A ok show ?thesis by (auto simp: rest_grammar_simps event_trailers_def)
      qed
    qed
  qed
qed

lemma poll_End_state: "poll d buf = (Inr (Some End), d', buf') \<Longrightarrow> state d' = StDone"
proof (induction d buf rule: poll.induct)
  case (1 d buf)
  obtain r d1 b1 where s: "poll_step d buf = (r, d1, b1)" by (cases "poll_step d buf") auto
  show ?case
  proof (cases r)
    case None
    with s 1 show ?thesis by (simp add: poll.simps [of d buf])
  next
    case (Some x)
    with s 1(2) have "poll_step d buf = (Some (Inr (Some End)), d', buf')"
      by (simp add: poll.simps [of d buf])
    then show ?thesis
      by (cases "state d")
         (auto simp: poll_step_size poll_step_trailers Let_def poll_step_def [of d buf]
           split: sum.splits option.splits if_split_asm)
  qed
qed

lemma poll_consumes:
  assumes "decoder_ok d"
  shows "poll d buf = (Inr (Some ev), d', buf') \<Longrightarrow> ev \<noteq> End \<Longrightarrow>
    length buf' < length buf \<and> length (event_data (Some (Inr (Some ev)))) + length buf' \<le> length buf"
  using assms
proof (induction d buf rule: run_induct)
  case (Step d buf)
  obtain r d1 b1 where s: "poll_step d buf = (r, d1, b1)" by (cases "poll_step d buf") auto
  show ?case
  proof (cases r)
    case None
    with s Step.prems have p1: "poll d1 b1 = (Inr (Some ev), d', buf')" by (simp add: poll.simps [of d buf])
    have "decoder_ok d1" using poll_step_ok [OF Step(1) s] None by simp
    from Step.IH [OF s _ this p1 Step.prems(2)] None poll_step_continue_shorter [of d buf d1 b1] s
    show ?thesis by simp
  next
    case (Some x)
    with s Step.prems have e: "poll_step d buf = (Some (Inr (Some ev)), d', buf')"
      by (simp add: poll.simps [of d buf])
    have "state d = StData \<longleftrightarrow> remaining d > 0" using decoder_okD(3) [OF Step(1)] .
    with e Step.prems(2) show ?thesis
      by (auto simp: poll_step_def Let_def find_line_Some_iff
          split: chunk_state.splits sum.splits option.splits if_splits)
  qed
qed

definition chunk_of :: "chunk_result option \<Rightarrow> bytes" where
  "chunk_of r = (case r of Some (Ready (Some (Inr x))) \<Rightarrow> x | _ \<Rightarrow> [])"

lemma chunk_of_simps [simp]:
  "chunk_of None = []" "chunk_of (Some Pending) = []" "chunk_of (Some (Ready None)) = []"
  "chunk_of (Some (Ready (Some (Inl e)))) = []" "chunk_of (Some (Ready (Some (Inr x)))) = x"
  by (simp_all add: chunk_of_def)

text \<open>A handler polls its body as often as it likes; \<open>poll_times\<close> gathers what \<open>k\<close> polls deliver.\<close>

primrec poll_times ::
    "'io body_io \<Rightarrow> nat \<Rightarrow> body_state \<Rightarrow> 'io \<Rightarrow> (bytes \<times> body_state \<times> 'io) option" where
  "poll_times vt 0 s io = Some ([], s, io)"
| "poll_times vt (Suc k) s io =
     (case poll_chunk vt s io of
        None \<Rightarrow> None
      | Some (r, s', io') \<Rightarrow>
          (case poll_times vt k s' io' of
             None \<Rightarrow> None
           | Some (b, s2, io2) \<Rightarrow> Some (chunk_of (Some r) @ b, s2, io2)))"

lemma collect_result_add: "collect_result (collect_add c x) = collect_result c @ x"
  by (auto simp: collect_result_def collect_add_def split: prod.splits option.splits)

context body_transport
begin

text \<open>
  Of \<open>stream\<close>, everything the connection held or would still receive when the body was created, the
  body has delivered \<open>b\<close>; and if it is done and claims to be fully read, what is still ahead is
  exactly what follows a complete body.
\<close>

definition unread :: "bytes \<Rightarrow> bytes \<Rightarrow> body_state \<Rightarrow> 'io \<Rightarrow> bool" where
  "unread stream b s io \<longleftrightarrow>
     bs_has_io s \<and> length stream < u64_range \<and> \<not> bs_done s \<and> \<not> bs_fully_read s \<and>
     (\<exists>c. in_progress s c b \<and> stream = c @ bs_buffered s @ ahead io \<and> (bs_buffered s \<noteq> [] \<longrightarrow> held io = []))"

definition ended :: "bytes \<Rightarrow> bytes \<Rightarrow> body_state \<Rightarrow> 'io \<Rightarrow> bool" where
  "ended stream b s io \<longleftrightarrow>
     bs_has_io s \<and> bs_done s \<and> length b \<le> length stream \<and>
     (bs_fully_read s \<longrightarrow> (\<exists>c. body_is (bs_kind s) c b \<and> stream = c @ ahead io))"

lemma fail_with_ended:
  assumes "fail_with vt e s io = Some (r, s', io')" and "bs_has_io s" and "length b \<le> length stream"
  shows "ended stream b s' io' \<and> bs_kind s' = bs_kind s \<and> chunk_of r = [] \<and> r \<noteq> None"
proof -
  obtain s1 io1 where f: "body_fail vt s io = (s1, io1)" by (cases "body_fail vt s io")
  with fail_io [OF f] assms show ?thesis by (auto simp: fail_with_def ended_def)
qed

lemma fill_step_inv:
  assumes "fill_step vt s io = Some (r, s', io')" and "bs_has_io s" and "held io = []"
    and "in_progress s c b" and "stream = c @ bs_buffered s @ ahead io" and "length stream < u64_range"
    and "\<not> bs_done s" and "\<not> bs_fully_read s"
  shows "(unread stream b s' io' \<or> r \<noteq> None \<and> ended stream b s' io')
    \<and> bs_kind s' = bs_kind s \<and> chunk_of r = []"
proof -
  obtain q io1 where q: "poll_fill vt io = (q, io1)" by (cases "poll_fill vt io")
  have lb: "length b \<le> length stream" using in_progress_length [OF assms(4)] assms(5) by simp
  have cong: "in_progress (s\<lparr>bs_buffered := x\<rparr>) c b" for x
    using assms(4) in_progress_cong [of "s\<lparr>bs_buffered := x\<rparr>" s] by simp
  show ?thesis
  proof (cases q)
    case Pending
    with q assms fill_pending_law [of io io1] show ?thesis
      by (auto simp: fill_step_def body_fill_def unread_def ahead_def)
  next
    case (Ready z)
    show ?thesis
    proof (cases z)
      case (Inl e)
      with Ready q assms lb fail_with_ended [of "BodyIoError e" s io1 r s' io' b stream] show ?thesis
        by (simp add: fill_step_def body_fill_def)
    next
      case (Inr fresh)
      show ?thesis
      proof (cases "fresh = []")
        case True
        with Ready Inr q assms lb fail_with_ended [of Incomplete s io1 r s' io' b stream] show ?thesis
          by (simp add: fill_step_def body_fill_def)
      next
        case False
        with Ready Inr q assms have o: "r = None" "s' = s\<lparr>bs_buffered := bs_buffered s @ fresh\<rparr>" "io' = io1"
          by (simp_all add: fill_step_def body_fill_def)
        from fill_law [of io fresh io1] q Ready Inr False assms(3)
        have "held io1 = []" "coming io = fresh @ coming io1" by simp_all
        with o assms cong show ?thesis by (auto simp: unread_def ahead_def)
      qed
    qed
  qed
qed

lemma finished_ended:
  assumes "body_finish vt s io = (s1, io1)" and "bs_has_io s" and "body_is (bs_kind s) c b"
    and "stream = c @ bs_buffered s @ ahead io" and "bs_buffered s \<noteq> [] \<longrightarrow> held io = []"
    and "length b \<le> length c"
  shows "ended stream b (s1\<lparr>bs_trailers_ready := True, bs_buffered := []\<rparr>)
      (if bs_buffered s1 \<noteq> [] then push_back vt (bs_buffered s1) io1 else io1)
    \<and> bs_kind s1 = bs_kind s \<and> bs_has_io s1 \<and> bs_buffered s1 = bs_buffered s"
  using finish_io [OF assms(1)] push_law [of "bs_buffered s" io1] assms(2-)
  by (auto simp: ended_def ahead_def)

lemma top_up_inv:
  assumes "top_up vt mx s io = (s1, io1)" and "bs_has_io s" and "bs_buffered s \<noteq> [] \<longrightarrow> held io = []"
  shows "bs_buffered s1 @ ahead io1 = bs_buffered s @ ahead io \<and> (\<exists>x. s1 = s\<lparr>bs_buffered := x\<rparr>)
    \<and> (held io1 = [] \<or> bs_buffered s = [] \<and> length (bs_buffered s1) = mx) \<and> left io1 = left io
    \<and> (mx > 0 \<longrightarrow> bs_buffered s1 = [] \<longrightarrow> held io1 = [])"
proof (cases "bs_buffered s = []")
  case True
  obtain got iot where t: "take_buffered vt mx io = (got, iot)" by (cases "take_buffered vt mx io")
  from take_law [OF t] True assms t show ?thesis
    by (cases "length (held io) \<le> mx")
       (auto simp: top_up_def ahead_def split: if_splits intro: exI [of _ "[]"] exI [of _ "bs_buffered s"])
next
  case False
  with assms show ?thesis
    by (auto simp: top_up_def intro: exI [of _ "bs_buffered s"])
qed

lemma length_deliver_inv:
  assumes "bs_has_io s" and "length stream < u64_range" and "\<not> bs_done s" and "\<not> bs_fully_read s"
    and k: "bs_kind s = Length n" and n: "length b + bs_remaining s = n" "n < u64_range"
    and str: "stream = b @ bs_buffered s @ ahead io"
    and hb: "held io = [] \<or> length (bs_buffered s) = bs_remaining s" "bs_buffered s = [] \<longrightarrow> held io = []"
    and step: "length_deliver vt s io = Some (r, s', io')"
  shows "(unread stream (b @ chunk_of r) s' io' \<or> r \<noteq> None \<and> ended stream (b @ chunk_of r) s' io')
    \<and> bs_kind s' = bs_kind s"
proof (cases "bs_buffered s = []")
  case buf: True
  show ?thesis
  proof (cases "bs_remaining s = 0")
    case True
    obtain s1 io1 where f: "body_finish vt s io = (s1, io1)" by (cases "body_finish vt s io")
    from finish_io [OF f] True buf f step str n k assms(1) show ?thesis
      by (auto simp: length_deliver_def ended_def body_is_def ahead_def)
  next
    case False
    have "in_progress s b b" using k n by (simp add: in_progress_def)
    with fill_step_inv [of s io r s' io' b b stream] assms False buf show ?thesis
      by (simp add: length_deliver_def)
  qed
next
  case buf: False
  define tk where "tk = min (length (bs_buffered s)) (bs_remaining s)"
  define x where "x = take tk (bs_buffered s)"
  define s1 where "s1 = s\<lparr>bs_buffered := drop tk (bs_buffered s), bs_remaining := bs_remaining s - tk\<rparr>"
  have w: "wrapping_sub_u64 (bs_remaining s) tk = bs_remaining s - tk"
    using n by (intro wrapping_sub_u64_exact) (simp_all add: tk_def)
  have x: "bs_buffered s = x @ drop tk (bs_buffered s)" "length x = tk" by (simp_all add: x_def tk_def)
  have str1: "stream = (b @ x) @ bs_buffered s1 @ ahead io" using str x(1) by (simp add: s1_def)
  show ?thesis
  proof (cases "bs_remaining s \<le> length (bs_buffered s)")
    case True
    then have rem: "bs_remaining s1 = 0" and tkr: "tk = bs_remaining s" by (simp_all add: s1_def tk_def)
    obtain s2 io2 where f: "body_finish vt s1 io = (s2, io2)" by (cases "body_finish vt s1 io")
    have rem': "bs_remaining s - tk = 0" using tkr by simp
    have f': "body_finish vt (s\<lparr>bs_buffered := drop tk (bs_buffered s), bs_remaining := 0\<rparr>) io = (s2, io2)"
      using f tkr by (simp add: s1_def)
    have bi: "body_is (bs_kind s1) (b @ x) (b @ x)" using k n x(2) tkr by (simp add: body_is_def s1_def)
    have hb1: "bs_buffered s1 \<noteq> [] \<longrightarrow> held io = []" using hb tkr by (auto simp: s1_def)
    have "bs_has_io s1" using assms(1) by (simp add: s1_def)
    note e = finished_ended [OF f this bi str1 hb1 order_refl]
    have o: "r = Some (Ready (Some (Inr x)))" "s' = s2\<lparr>bs_trailers_ready := True, bs_buffered := []\<rparr>"
      "io' = (if bs_buffered s2 \<noteq> [] then push_back vt (bs_buffered s2) io2 else io2)"
      using step buf rem f' e
      by (cases s2; auto simp: length_deliver_def Let_def w tk_def [symmetric] x_def [symmetric] rem'
          split: if_splits)+
    have "ended stream (b @ chunk_of r) s' io'" unfolding o chunk_of_simps using e by blast
    with o e show ?thesis by (simp add: s1_def)
  next
    case False
    then have rem: "bs_remaining s1 > 0" and tkr: "tk = length (bs_buffered s)" by (simp_all add: s1_def tk_def)
    have "r = Some (Ready (Some (Inr x)))" "s' = s1" "io' = io"
      using step buf False
      by (auto simp: length_deliver_def Let_def w tk_def [symmetric] x_def [symmetric] s1_def tkr [symmetric])
    moreover have "in_progress s1 (b @ x) (b @ x)"
      using k n x(2) False tkr by (simp add: in_progress_def s1_def)
    ultimately show ?thesis using assms str1 hb tkr
      by (auto simp: unread_def s1_def)
  qed
qed

lemma chunked_deliver_inv:
  assumes "bs_has_io s" and "length stream < u64_range" and "\<not> bs_done s" and "\<not> bs_fully_read s"
    and k: "bs_kind s = Chunked" and ip: "in_progress s c b"
    and str: "stream = c @ bs_buffered s @ ahead io" and h: "held io = []"
    and step: "chunked_deliver vt s io = Some (r, s', io')"
  shows "(unread stream (b @ chunk_of r) s' io' \<or> r \<noteq> None \<and> ended stream (b @ chunk_of r) s' io')
    \<and> bs_kind s' = bs_kind s"
proof -
  from ip k obtain d where d: "bs_decoder s = Some d" "decoder_ok d"
    and g: "\<forall>c' b' ts. rest_grammar d c' b' ts \<longrightarrow> (\<exists>ts'. chunked_grammar (c @ c') (b @ b') ts')"
    by (auto simp: in_progress_def)
  obtain q d' rest where p: "poll d (bs_buffered s) = (q, d', rest)" by (cases "poll d (bs_buffered s)") auto
  define s1 where "s1 = s\<lparr>bs_decoder := Some d', bs_buffered := rest\<rparr>"
  show ?thesis
  proof (cases q)
    case (Inl e)
    with step d p fail_with_ended [of "BodyChunked e" s1 io r s' io' b stream] assms(1) str
      in_progress_length [OF ip] show ?thesis
      by (simp add: chunked_deliver_def s1_def)
  next
    case (Inr ev)
    from poll_rest_grammar [OF d(2), of "bs_buffered s" ev d' rest] p Inr obtain e where
      d': "decoder_ok d'" and e: "bs_buffered s = e @ rest"
      and g': "\<forall>c' b ts. rest_grammar d' c' b ts \<longrightarrow>
        rest_grammar d (e @ c') (event_data (Some (Inr ev)) @ b) (event_trailers (Some (Inr ev)) @ ts)"
      by auto
    have g2: "\<exists>ts'. chunked_grammar ((c @ e) @ c') ((b @ event_data (Some (Inr ev))) @ b') ts'"
      if "rest_grammar d' c' b' ts" for c' b' ts
      using g g' that by (metis append.assoc)
    have "length (event_data (Some (Inr ev))) \<le> length e"
    proof (cases "ev = None \<or> ev = Some End")
      case False
      then obtain y where "ev = Some y" "y \<noteq> End" by auto
      with p Inr e poll_consumes [OF d(2), of "bs_buffered s" y d' rest] show ?thesis by simp
    qed auto
    then have ip1: "in_progress s1 (c @ e) (b @ event_data (Some (Inr ev)))"
      using k d' g2 in_progress_length [OF ip] by (auto simp: in_progress_def s1_def)
    have str1: "stream = (c @ e) @ bs_buffered s1 @ ahead io" using str e by (simp add: s1_def)
    have f1: "bs_has_io s1" "\<not> bs_done s1" "\<not> bs_fully_read s1" "bs_kind s1 = Chunked"
      using assms by (simp_all add: s1_def)
    note st = step [unfolded chunked_deliver_def, simplified d p option.case prod.case Let_def
        s1_def [symmetric], simplified Inr sum.case]
    show ?thesis
    proof (cases ev)
      case None
      with st ip1 fill_step_inv [OF _ f1(1) h ip1 str1 assms(2) f1(2,3), of r s' io'] k f1 show ?thesis
        by simp
    next
      case (Some v)
      show ?thesis
      proof (cases v)
        case (Data x)
        with Some st ip1 str1 f1 assms(2) h k show ?thesis by (auto simp: unread_def)
      next
        case (Trailers t)
        with Some st have "r = None" "s' = s1\<lparr>bs_trailers := Some t\<rparr>" "io' = io" by simp_all
        moreover have "in_progress (s1\<lparr>bs_trailers := Some t\<rparr>) (c @ e) b"
          using ip1 Some Trailers in_progress_cong [of "s1\<lparr>bs_trailers := Some t\<rparr>" s1] by simp
        ultimately show ?thesis using str1 f1 assms(2) h k by (auto simp: unread_def)
      next
        case End
        obtain s2 io2 where f: "body_finish vt s1 io = (s2, io2)" by (cases "body_finish vt s1 io")
        have "state d' = StDone" using poll_End_state p Inr Some End by metis
        then have "rest_grammar d' [] [] []" by (simp add: rest_grammar_simps)
        from g2 [OF this] Some End have "body_is (bs_kind s1) (c @ e) b" by (auto simp: body_is_def f1)
        from finished_ended [OF f f1(1) this str1] h in_progress_length [OF ip]
        have e2: "ended stream b (s2\<lparr>bs_trailers_ready := True, bs_buffered := []\<rparr>)
            (if bs_buffered s2 \<noteq> [] then push_back vt (bs_buffered s2) io2 else io2)
          \<and> bs_kind s2 = bs_kind s1 \<and> bs_has_io s2" by (metis le_add1 le_trans length_append)
        moreover have "r = Some (Ready None)" "s' = s2\<lparr>bs_trailers_ready := True, bs_buffered := []\<rparr>"
          "io' = (if bs_buffered s2 \<noteq> [] then push_back vt (bs_buffered s2) io2 else io2)"
          using st Some End f e2 by (auto split: if_splits)
        ultimately show ?thesis using f1 k by simp
      qed
    qed
  qed
qed

lemma body_step_inv:
  assumes u: "unread stream b s io" and step: "body_step vt s io = Some (r, s', io')"
  shows "(unread stream (b @ chunk_of r) s' io' \<or> r \<noteq> None \<and> ended stream (b @ chunk_of r) s' io')
    \<and> bs_kind s' = bs_kind s"
proof -
  from u obtain c where hio: "bs_has_io s" and len: "length stream < u64_range"
    and nd: "\<not> bs_done s" "\<not> bs_fully_read s" and ip: "in_progress s c b"
    and str: "stream = c @ bs_buffered s @ ahead io" and hb: "bs_buffered s \<noteq> [] \<longrightarrow> held io = []"
    unfolding unread_def by blast
  show ?thesis
  proof (cases "bs_kind s")
    case BodyNone
    with ip show ?thesis by (simp add: in_progress_def)
  next
    case (Length n)
    note k = this
    with ip have n: "c = b" "length b + bs_remaining s = n" "n < u64_range" by (simp_all add: in_progress_def)
    show ?thesis
    proof (cases "bs_remaining s > 0")
      case True
      obtain s1 io1 where t: "top_up vt (bs_remaining s) s io = (s1, io1)" by (cases "top_up vt (bs_remaining s) s io")
      from top_up_inv [OF t hio hb] obtain x where s1: "s1 = s\<lparr>bs_buffered := x\<rparr>"
        "bs_buffered s1 @ ahead io1 = bs_buffered s @ ahead io"
        "held io1 = [] \<or> length (bs_buffered s1) = bs_remaining s"
        "bs_buffered s1 = [] \<longrightarrow> held io1 = []" using True by auto
      with length_deliver_inv [of s1 stream n b io1 r s' io'] hio len nd k n str step t True show ?thesis
        by (simp add: body_step_def length_step_def)
    next
      case False
      show ?thesis
      proof (cases "bs_buffered s = []")
        case True
        obtain s1 io1 where f: "body_finish vt s io = (s1, io1)" by (cases "body_finish vt s io")
        from finish_io [OF f] False True f step str n k hio show ?thesis
          by (auto simp: body_step_def length_step_def length_deliver_def ended_def body_is_def ahead_def)
      next
        case buf: False
        with length_deliver_inv [of s stream n b io r s' io'] hio len nd k n str step False hb show ?thesis
          by (simp add: body_step_def length_step_def)
      qed
    qed
  next
    case Chunked
    obtain s1 io1 where t: "top_up vt (u64_range - 1) s io = (s1, io1)" by (cases "top_up vt (u64_range - 1) s io")
    from top_up_inv [OF t hio hb] obtain x where s1: "s1 = s\<lparr>bs_buffered := x\<rparr>"
      "bs_buffered s1 @ ahead io1 = bs_buffered s @ ahead io"
      "held io1 = [] \<or> length (bs_buffered s1) = u64_range - 1" by auto
    have "held io1 = []"
    proof (rule ccontr)
      assume "held io1 \<noteq> []"
      with s1(3) have "length (bs_buffered s1 @ ahead io1) \<ge> u64_range"
        by (cases "held io1") (simp_all add: ahead_def)
      with s1(2) str len show False by simp
    qed
    moreover have "in_progress s1 c b" using ip in_progress_cong [of s1 s] s1(1) by simp
    ultimately show ?thesis
      using chunked_deliver_inv [of s1 stream c b io1 r s' io'] hio len nd Chunked str s1 step t
      by (simp add: body_step_def chunked_step_def)
  qed
qed

text \<open>How much the loop still has to do: the outcomes to come and the bytes not yet delivered.\<close>

definition todo :: "body_state \<Rightarrow> 'io \<Rightarrow> nat" where
  "todo s io = left io + length (bs_buffered s @ ahead io)"

lemma fill_step_todo:
  assumes "bs_has_io s"
  shows "\<exists>r s' io'. fill_step vt s io = Some (r, s', io') \<and> (bs_done s' \<or> todo s' io' < todo s io)"
proof -
  obtain q io1 where q: "poll_fill vt io = (q, io1)" by (cases "poll_fill vt io")
  have f: "\<exists>r s' io'. fail_with vt e s io1 = Some (r, s', io') \<and> bs_done s'" for e
  proof -
    obtain s2 io2 where "body_fail vt s io1 = (s2, io2)" by (cases "body_fail vt s io1")
    with fail_io [OF this] show ?thesis by (auto simp: fail_with_def)
  qed
  show ?thesis
  proof (cases q)
    case Pending
    with q assms fill_pending_law [of io io1] show ?thesis
      by (simp add: fill_step_def body_fill_def todo_def ahead_def)
  next
    case (Ready z)
    show ?thesis
    proof (cases z)
      case (Inl e)
      with Ready q assms f [of "BodyIoError e"] show ?thesis by (auto simp: fill_step_def body_fill_def)
    next
      case (Inr fresh)
      with Ready q assms f [of Incomplete] fill_law [of io fresh io1] show ?thesis
        by (cases "fresh = []") (auto simp: fill_step_def body_fill_def todo_def ahead_def)
    qed
  qed
qed

lemma length_deliver_todo:
  assumes "bs_has_io s" and "bs_remaining s < u64_range"
  shows "\<exists>r s' io'. length_deliver vt s io = Some (r, s', io') \<and> (bs_done s' \<or> todo s' io' < todo s io)"
proof (cases "bs_buffered s = []")
  case True
  obtain s1 io1 where f: "body_finish vt s io = (s1, io1)" by (cases "body_finish vt s io")
  from True finish_io [OF f] f fill_step_todo [OF assms(1), of io] show ?thesis
    by (cases "bs_remaining s = 0") (auto simp: length_deliver_def)
next
  case False
  define tk where "tk = min (length (bs_buffered s)) (bs_remaining s)"
  define s1 where "s1 = s\<lparr>bs_buffered := drop tk (bs_buffered s), bs_remaining := bs_remaining s - tk\<rparr>"
  have w: "wrapping_sub_u64 (bs_remaining s) tk = bs_remaining s - tk"
    using assms(2) by (intro wrapping_sub_u64_exact) (simp_all add: tk_def)
  obtain s2 io2 where f: "body_finish vt s1 io = (s2, io2)" by (cases "body_finish vt s1 io")
  show ?thesis
  proof (cases "bs_remaining s - tk = 0")
    case True
    then have "s1 = s\<lparr>bs_buffered := drop tk (bs_buffered s), bs_remaining := 0\<rparr>" by (simp add: s1_def)
    with f finish_io [OF f] False True show ?thesis
      by (auto simp: length_deliver_def Let_def w tk_def [symmetric])
  next
    case go: False
    then have "tk > 0" using False by (simp add: tk_def)
    with go False show ?thesis
      by (auto simp: length_deliver_def Let_def w tk_def [symmetric] todo_def)
  qed
qed

lemma chunked_deliver_todo:
  assumes "bs_has_io s" and "bs_decoder s = Some d" and "decoder_ok d"
  shows "\<exists>r s' io'. chunked_deliver vt s io = Some (r, s', io') \<and> (bs_done s' \<or> todo s' io' < todo s io)"
proof -
  obtain q d' rest where p: "poll d (bs_buffered s) = (q, d', rest)" by (cases "poll d (bs_buffered s)") auto
  define s1 where "s1 = s\<lparr>bs_decoder := Some d', bs_buffered := rest\<rparr>"
  have f1: "bs_has_io s1" using assms(1) by (simp add: s1_def)
  note dl = chunked_deliver_def [of vt s io, unfolded assms(2) option.case p prod.case Let_def s1_def [symmetric]]
  obtain s2 io2 where ff: "body_fail vt s1 io = (s2, io2)" by (cases "body_fail vt s1 io")
  obtain s3 io3 where fi: "body_finish vt s1 io = (s3, io3)" by (cases "body_finish vt s1 io")
  show ?thesis
  proof (cases q)
    case (Inl e)
    with dl ff fail_io [OF ff] show ?thesis by (auto simp: fail_with_def)
  next
    case (Inr ev)
    show ?thesis
    proof (cases ev)
      case None
      from poll_rest_grammar [OF assms(3), of "bs_buffered s" ev d' rest] p Inr
      have "length rest \<le> length (bs_buffered s)" by auto
      then have "todo s1 io \<le> todo s io" by (simp add: todo_def s1_def)
      with None Inr dl fill_step_todo [OF f1, of io] show ?thesis by (auto dest: less_le_trans)
    next
      case (Some v)
      show ?thesis
      proof (cases "v = End")
        case True
        with Some Inr dl fi finish_io [OF fi] show ?thesis by (auto simp: Let_def split: if_splits)
      next
        case False
        with poll_consumes [OF assms(3), of "bs_buffered s" v d' rest] p Inr Some
        have "todo s1 io < todo s io" by (simp add: todo_def s1_def)
        with Some Inr dl False show ?thesis by (cases v) (auto simp: todo_def)
      qed
    qed
  qed
qed

lemma body_step_todo:
  assumes "unread stream b s io"
  shows "\<exists>r s' io'. body_step vt s io = Some (r, s', io') \<and> (bs_done s' \<or> todo s' io' < todo s io)"
proof -
  from assms obtain c where hio: "bs_has_io s" and ip: "in_progress s c b"
    and hb: "bs_buffered s \<noteq> [] \<longrightarrow> held io = []"
    unfolding unread_def by blast
  have top: "bs_has_io s1 \<and> bs_remaining s1 = bs_remaining s \<and> bs_decoder s1 = bs_decoder s
      \<and> todo s1 io1 = todo s io" if "top_up vt mx s io = (s1, io1)" for mx s1 io1
    using top_up_inv [OF that hio hb] hio by (auto simp: todo_def simp flip: length_append)
  show ?thesis
  proof (cases "bs_kind s")
    case BodyNone
    with ip show ?thesis by (simp add: in_progress_def)
  next
    case (Length n)
    obtain s1 io1 where t: "top_up vt (bs_remaining s) s io = (s1, io1)" by (cases "top_up vt (bs_remaining s) s io")
    from Length ip have "bs_remaining s < u64_range" by (simp add: in_progress_def)
    with top [OF t] t hio Length length_deliver_todo [of s io] length_deliver_todo [of s1 io1] show ?thesis
      by (cases "bs_remaining s > 0") (auto simp: body_step_def length_step_def)
  next
    case Chunked
    obtain s1 io1 where t: "top_up vt (u64_range - 1) s io = (s1, io1)" by (cases "top_up vt (u64_range - 1) s io")
    from Chunked ip obtain d where "bs_decoder s = Some d" "decoder_ok d" by (auto simp: in_progress_def)
    with top [OF t] t Chunked chunked_deliver_todo [of s1 d io1] show ?thesis
      by (auto simp: body_step_def chunked_step_def)
  qed
qed

text \<open>Where a poll leaves a body that was not done: what it returned says how it ended.\<close>

definition outcome_ok :: "(body_error + bytes) option pollable \<Rightarrow> body_state \<Rightarrow> bool" where
  "outcome_ok r s \<longleftrightarrow>
     (case r of
        Pending \<Rightarrow> \<not> bs_done s
      | Ready None \<Rightarrow> bs_done s \<and> bs_fully_read s
      | Ready (Some (Inl e)) \<Rightarrow> bs_done s \<and> \<not> bs_fully_read s \<and> e \<noteq> TooLarge
      | Ready (Some (Inr x)) \<Rightarrow> bs_done s \<longrightarrow> bs_fully_read s)"

lemma outcome_ok_simps [simp]:
  "outcome_ok Pending s \<longleftrightarrow> \<not> bs_done s"
  "outcome_ok (Ready None) s \<longleftrightarrow> bs_done s \<and> bs_fully_read s"
  "outcome_ok (Ready (Some (Inl e))) s \<longleftrightarrow> bs_done s \<and> \<not> bs_fully_read s \<and> e \<noteq> TooLarge"
  "outcome_ok (Ready (Some (Inr x))) s \<longleftrightarrow> (bs_done s \<longrightarrow> bs_fully_read s)"
  by (simp_all add: outcome_ok_def)

lemma fill_step_outcome:
  assumes "fill_step vt s io = Some (r, s', io')" and "\<not> bs_done s"
  shows "case r of None \<Rightarrow> \<not> bs_done s' | Some q \<Rightarrow> outcome_ok q s'"
  using assms
  by (auto simp: fill_step_def body_fill_def fail_with_def body_fail_def notify_finished_def
      split: if_splits pollable.splits sum.splits prod.splits bool.splits)

lemma finish_done:
  "body_finish vt s io = (s', io') \<Longrightarrow> bs_done s' \<and> bs_fully_read s'"
  "body_fail vt s io = (s', io') \<Longrightarrow> bs_done s' \<and> \<not> bs_fully_read s'"
  by (auto simp: body_finish_def body_fail_def notify_finished_def split: if_splits)

lemma body_step_outcome:
  assumes "body_step vt s io = Some (r, s', io')" and "\<not> bs_done s"
  shows "case r of None \<Rightarrow> \<not> bs_done s' | Some q \<Rightarrow> outcome_ok q s'"
proof -
  have top: "\<not> bs_done s1" if "top_up vt mx s io = (s1, io1)" for mx s1 io1
    using that assms(2) by (auto simp: top_up_def split: if_splits prod.splits)
  have del: "case r of None \<Rightarrow> \<not> bs_done s' | Some q \<Rightarrow> outcome_ok q s'"
    if "length_deliver vt s1 io1 = Some (r, s', io')" "\<not> bs_done s1" for s1 io1
    using that fill_step_outcome [of s1 io1 r s' io']
    by (auto simp: length_deliver_def Let_def dest!: finish_done(1) split: if_splits prod.splits)
  have cdel: "case r of None \<Rightarrow> \<not> bs_done s' | Some q \<Rightarrow> outcome_ok q s'"
    if c: "chunked_deliver vt s1 io1 = Some (r, s', io')" and n: "\<not> bs_done s1" for s1 io1
  proof -
    from c obtain d q d' rest where d: "bs_decoder s1 = Some d" "poll d (bs_buffered s1) = (q, d', rest)"
      by (cases "bs_decoder s1"; cases "poll (the (bs_decoder s1)) (bs_buffered s1)")
         (auto simp: chunked_deliver_def)
    define s2 where "s2 = s1\<lparr>bs_decoder := Some d', bs_buffered := rest\<rparr>"
    have n2: "\<not> bs_done s2" using n by (simp add: s2_def)
    note dl = c [unfolded chunked_deliver_def d option.case prod.case Let_def s2_def [symmetric]]
    from dl n2 fill_step_outcome [of s2 io1 r s' io'] show ?thesis
      by (cases q rule: sum.exhaust)
         (auto simp: fail_with_def dest!: finish_done
           split: option.splits chunk_event.splits if_splits prod.splits)
  qed
  show ?thesis
    using assms top del cdel
    by (auto simp: body_step_def length_step_def chunked_step_def dest!: finish_done
        split: body_kind.splits prod.splits if_splits)
qed

text \<open>A body that has delivered \<open>b\<close>, whether it is still being read or not.\<close>

definition tracks :: "bytes \<Rightarrow> bytes \<Rightarrow> body_state \<Rightarrow> 'io \<Rightarrow> bool" where
  "tracks stream b s io \<longleftrightarrow> unread stream b s io \<or> ended stream b s io"

lemma body_loop_returns:
  assumes "unread stream b s io"
  shows "\<exists>r s' io'. body_loop vt s io = Some (r, s', io') \<and> tracks stream (b @ chunk_of (Some r)) s' io'
    \<and> bs_kind s' = bs_kind s \<and> outcome_ok r s' \<and> (bs_done s' \<or> todo s' io' < todo s io)"
  using assms
proof (induction "todo s io" arbitrary: s io rule: less_induct)
  case less
  from body_step_todo [OF less.prems] obtain r s1 io1 where
    step: "body_step vt s io = Some (r, s1, io1)" and t: "bs_done s1 \<or> todo s1 io1 < todo s io" by blast
  note inv = body_step_inv [OF less.prems step]
  have "\<not> bs_done s" using less.prems by (simp add: unread_def)
  note out = body_step_outcome [OF step this]
  show ?case
  proof (cases r)
    case None
    with inv out t have "unread stream b s1 io1" "todo s1 io1 < todo s io" "bs_kind s1 = bs_kind s" by simp_all
    from less.hyps [OF this(2,1)] this(2,3) None step show ?thesis
      by (auto simp: body_loop.simps [of vt s io] intro: less_trans)
  next
    case (Some q)
    with step inv out t show ?thesis by (auto simp: body_loop.simps [of vt s io] tracks_def)
  qed
qed

lemma unread_continue_sent: "unread stream b (s\<lparr>bs_continue_sent := x\<rparr>) io = unread stream b s io"
  using in_progress_cong [of "s\<lparr>bs_continue_sent := x\<rparr>" s] by (simp add: unread_def)

lemma unread_length: "unread stream b s io \<Longrightarrow> length b \<le> length stream"
  using in_progress_length by (force simp: unread_def)

lemma poll_chunk_returns:
  assumes "unread stream b s io"
  shows "\<exists>r s' io'. poll_chunk vt s io = Some (r, s', io') \<and> tracks stream (b @ chunk_of (Some r)) s' io'
    \<and> bs_kind s' = bs_kind s \<and> outcome_ok r s' \<and> (bs_done s' \<or> todo s' io' < todo s io)"
proof -
  from assms have nd: "\<not> bs_done s" and hio: "bs_has_io s" by (simp_all add: unread_def)
  show ?thesis
  proof (cases "bs_continue_sent s")
    case True
    with body_loop_returns [OF assms] nd show ?thesis by (simp add: poll_chunk_def)
  next
    case False
    obtain q io1 where q: "poll_send_continue vt io = (q, io1)" by (cases "poll_send_continue vt io")
    note c = continue_law [OF q]
    have u: "unread stream b s io1" using assms c by (simp add: unread_def ahead_def)
    show ?thesis
    proof (cases q)
      case Pending
      with q False nd hio u c show ?thesis
        by (auto simp: poll_chunk_def tracks_def todo_def ahead_def)
    next
      case (Ready z)
      show ?thesis
      proof (cases z)
        case (Inl e)
        obtain s2 io2 where f: "body_fail vt s io1 = (s2, io2)" by (cases "body_fail vt s io1")
        with Inl Ready q False nd hio fail_io [OF f] unread_length [OF assms] show ?thesis
          by (auto simp: poll_chunk_def tracks_def ended_def)
      next
        case (Inr v)
        let ?s = "s\<lparr>bs_continue_sent := True\<rparr>"
        have "unread stream b ?s io1" using u by (simp add: unread_continue_sent)
        moreover have "todo ?s io1 \<le> todo s io" using c by (simp add: todo_def ahead_def)
        ultimately show ?thesis
          using body_loop_returns [of stream b ?s io1] Inr Ready q False nd hio
          by (auto simp: poll_chunk_def dest: less_le_trans)
      qed
    qed
  qed
qed

lemma poll_chunk_done: "bs_done s \<Longrightarrow> poll_chunk vt s io = Some (Ready None, s, io)"
  by (simp add: poll_chunk_def)

lemma chunk_await_returns:
  assumes "unread stream b s io"
  shows "\<exists>r s' io'. chunk_await vt s io = Some (r, s', io')
    \<and> tracks stream (b @ chunk_of (Some (Ready r))) s' io' \<and> bs_kind s' = bs_kind s
    \<and> outcome_ok (Ready r) s' \<and> (bs_done s' \<or> todo s' io' < todo s io)"
  using assms
proof (induction "todo s io" arbitrary: s io rule: less_induct)
  case less
  from poll_chunk_returns [OF less.prems] obtain r s1 io1 where
    p: "poll_chunk vt s io = Some (r, s1, io1)" "tracks stream (b @ chunk_of (Some r)) s1 io1"
    "bs_kind s1 = bs_kind s" "outcome_ok r s1" "bs_done s1 \<or> todo s1 io1 < todo s io" by blast
  show ?case
  proof (cases r)
    case Pending
    with p have "unread stream b s1 io1" "todo s1 io1 < todo s io" by (auto simp: tracks_def ended_def)
    from less.hyps [OF this(2,1)] this(2) p Pending show ?thesis
      by (auto simp: chunk_await.simps [of vt s io] intro: less_trans)
  next
    case (Ready v)
    with p show ?thesis by (auto simp: chunk_await.simps [of vt s io])
  qed
qed

text \<open>
  \<^verbatim>\<open>collect\<close> returns, and what it returns as data is the whole body.  Its running total cannot wrap:
  it is the length of what was delivered.
\<close>

lemma collect_loop_returns:
  assumes "unread stream (collect_result c) s io \<or> ended stream (collect_result c) s io \<and> bs_fully_read s"
    and "length stream < u64_range" and "tot = length (collect_result c)"
    and "length (collect_result c) \<le> cap"
  shows "\<exists>r s' io'. collect_loop vt cap c tot s io = Some (r, s', io') \<and> bs_kind s' = bs_kind s
    \<and> (case r of
         Inr data \<Rightarrow> bs_fully_read s' \<and> ended stream data s' io' \<and> length data \<le> cap
       | Inl e \<Rightarrow> (\<exists>b. ended stream b s' io' \<and> (e = TooLarge \<longrightarrow> length b > cap)))"
  using assms
proof (induction "if bs_done s then 0 else Suc (todo s io)" arbitrary: s io c tot rule: less_induct)
  case less
  show ?case
  proof (cases "bs_done s")
    case True
    with less.prems have "ended stream (collect_result c) s io" "bs_fully_read s" by (auto simp: unread_def)
    moreover have "collect_loop vt cap c tot s io = Some (Inr (collect_result c), s, io)"
      using True by (simp add: collect_loop.simps [of vt cap c tot s io] chunk_await.simps [of vt s io] poll_chunk_def)
    ultimately show ?thesis using less.prems(4) by auto
  next
    case False
    with less.prems have u: "unread stream (collect_result c) s io" by (auto simp: ended_def)
    from chunk_await_returns [OF u] obtain r s1 io1 where
      p: "chunk_await vt s io = Some (r, s1, io1)"
      "tracks stream (collect_result c @ chunk_of (Some (Ready r))) s1 io1"
      "bs_kind s1 = bs_kind s" "outcome_ok (Ready r) s1" "bs_done s1 \<or> todo s1 io1 < todo s io" by blast
    note cl = collect_loop.simps [of vt cap c tot s io]
    consider "r = None" | e where "r = Some (Inl e)" | x where "r = Some (Inr x)"
      by (metis (full_types) old.sum.exhaust option.exhaust)
    then show ?thesis
    proof cases
      case R: 1
      with p have "ended stream (collect_result c) s1 io1" "bs_fully_read s1" by (auto simp: tracks_def unread_def)
      with R p cl less.prems show ?thesis by simp
    next
      case R: (2 e)
      with p have "ended stream (collect_result c) s1 io1" by (auto simp: tracks_def unread_def)
      with R p cl show ?thesis by auto
    next
      case R: (3 x)
      let ?b = "collect_result (collect_add c x)"
      have t: "tracks stream ?b s1 io1" using p(2) R by (simp add: collect_result_add)
      have lb: "length ?b \<le> length stream" using t unread_length by (auto simp: tracks_def ended_def)
      have tot: "wrapping_add_u64 tot (length x) = length ?b"
        using lb less.prems(2,3) by (simp add: collect_result_add wrapping_add_u64_exact)
      show ?thesis
      proof (cases "length ?b > cap")
        case True
        obtain s2 io2 where f: "body_fail vt s1 io1 = (s2, io2)" by (cases "body_fail vt s1 io1")
        have "ended stream ?b s2 io2 \<and> bs_kind s2 = bs_kind s1" if "\<not> bs_done s1"
          using t that fail_io [OF f] lb by (auto simp: tracks_def ended_def unread_def)
        moreover have "ended stream ?b s1 io1" if "bs_done s1" using t that by (auto simp: tracks_def unread_def)
        ultimately show ?thesis using R p True f tot by (cases "bs_done s1") (auto simp: cl)
      next
        case False
        have "unread stream ?b s1 io1 \<or> ended stream ?b s1 io1 \<and> bs_fully_read s1"
          using t R p(4) by (auto simp: tracks_def ended_def)
        moreover have "(if bs_done s1 then 0 else Suc (todo s1 io1)) < (if bs_done s then 0 else Suc (todo s io))"
          using \<open>\<not> bs_done s\<close> p(5) by auto
        ultimately show ?thesis
          using less.hyps [of s1 io1 "collect_add c x" "length ?b"] less.prems(2) False R p tot by (simp add: cl)
      qed
    qed
  qed
qed

lemma collect_returns:
  assumes "unread stream [] s io \<or> ended stream [] s io \<and> bs_fully_read s" and "length stream < u64_range"
  shows "\<exists>r s' io'. collect vt cap s io = Some (r, s', io') \<and> bs_kind s' = bs_kind s
    \<and> (case r of
         Inr data \<Rightarrow> bs_fully_read s' \<and> ended stream data s' io' \<and> length data \<le> cap
       | Inl e \<Rightarrow> (\<exists>b. ended stream b s' io' \<and> (e = TooLarge \<longrightarrow> length b > cap)))"
  using collect_loop_returns [of stream "(None, None)" s io 0 cap] assms
  by (simp add: collect_def collect_result_def)

text \<open>A new body has delivered nothing of what lies ahead.\<close>

lemma body_new_tracks:
  assumes "body_new vt k io nc l = (s, io')" and "limits_ok l" and "length (ahead io) < u64_range"
    and "\<forall>n. k = Length n \<longrightarrow> n < u64_range"
  shows "(unread (ahead io) [] s io' \<or> ended (ahead io) [] s io' \<and> bs_fully_read s)
    \<and> bs_kind s = k \<and> (bs_fully_read s \<longleftrightarrow> k = BodyNone \<or> k = Length 0)"
proof -
  obtain g io1 where g: "body_started vt io = (g, io1)" by (cases "body_started vt io")
  note g' = started_law [OF g]
  have gr: "\<exists>ts'. chunked_grammar c' b' ts'" if "rest_grammar (chunked_new l) c' b' ts" for c' b' ts
    using that by (auto simp: rest_grammar_def chunked_new_def)
  show ?thesis
  proof (cases k)
    case BodyNone
    with assms g g' finished_law [of g io1] show ?thesis
      by (auto simp: body_new_def register_def ended_def body_is_def ahead_def)
  next
    case (Length n)
    with assms g g' finished_law [of g io1] show ?thesis
      by (cases "n = 0")
         (auto simp: body_new_def register_def unread_def ended_def in_progress_def body_is_def ahead_def)
  next
    case Chunked
    with assms g g' chunked_new_ok [OF assms(2)] gr show ?thesis
      by (auto simp: body_new_def register_def unread_def in_progress_def ahead_def)
  qed
qed

lemma poll_times_tracks:
  assumes "tracks stream b s io"
  shows "\<exists>d s' io'. poll_times vt k s io = Some (d, s', io') \<and> tracks stream (b @ d) s' io'
    \<and> bs_kind s' = bs_kind s"
  using assms
proof (induction k arbitrary: b s io)
  case (Suc k)
  have "\<exists>r s1 io1. poll_chunk vt s io = Some (r, s1, io1) \<and> tracks stream (b @ chunk_of (Some r)) s1 io1
      \<and> bs_kind s1 = bs_kind s"
  proof (cases "bs_done s")
    case True
    with Suc.prems show ?thesis by (simp add: poll_chunk_done)
  next
    case False
    with Suc.prems have "unread stream b s io" by (auto simp: tracks_def ended_def)
    from poll_chunk_returns [OF this] show ?thesis by blast
  qed
  then obtain r s1 io1 where p: "poll_chunk vt s io = Some (r, s1, io1)"
    "tracks stream (b @ chunk_of (Some r)) s1 io1" "bs_kind s1 = bs_kind s" by blast
  from Suc.IH [OF p(2)] p(1,3) show ?case by auto
qed simp

lemma tracks_fully_read:
  assumes "tracks stream b s io" and "bs_fully_read s"
  shows "\<exists>c. body_is (bs_kind s) c b \<and> stream = c @ ahead io"
  using assms by (auto simp: tracks_def unread_def ended_def)

end

section \<open>What a body cannot change\<close>

text \<open>
  A body reaches its transport only through the six methods, so whatever they all keep, every
  poll keeps.
\<close>

locale body_keeps =
  fixes vt :: "'io body_io"
    and keeps :: "'io \<Rightarrow> bool"
  assumes fill_keeps: "keeps io \<Longrightarrow> keeps (snd (poll_fill vt io))"
    and continue_keeps: "keeps io \<Longrightarrow> keeps (snd (poll_send_continue vt io))"
    and take_keeps: "keeps io \<Longrightarrow> keeps (snd (take_buffered vt n io))"
    and push_keeps: "keeps io \<Longrightarrow> keeps (push_back vt b io)"
    and started_keeps: "keeps io \<Longrightarrow> keeps (snd (body_started vt io))"
    and finished_keeps: "keeps io \<Longrightarrow> keeps (body_finished vt g io)"
begin

lemma notify_keeps: "keeps io \<Longrightarrow> keeps (snd (notify_finished vt s io))"
  by (simp add: notify_finished_def finished_keeps)

lemma register_keeps: "keeps io \<Longrightarrow> keeps (snd (register vt io dn))"
  using started_keeps [of io] by (auto simp: register_def Let_def split: prod.splits intro: finished_keeps)

lemma finish_keeps: "keeps io \<Longrightarrow> keeps (snd (body_finish vt s io))"
  by (simp add: body_finish_def notify_keeps)

lemma fail_keeps: "keeps io \<Longrightarrow> keeps (snd (body_fail vt s io))"
  by (simp add: body_fail_def notify_keeps)

lemma fail_with_keeps: "keeps io \<Longrightarrow> fail_with vt e s io = Some (r, s', io') \<Longrightarrow> keeps io'"
  using fail_keeps [of io s] by (auto simp: fail_with_def split: prod.splits)

lemma fill_step_keeps:
  assumes "keeps io" and "fill_step vt s io = Some (r, s', io')"
  shows "keeps io'"
proof -
  obtain q io1 where q: "poll_fill vt io = (q, io1)" by (cases "poll_fill vt io")
  with fill_keeps [OF assms(1)] have "keeps io1" by simp
  with assms q fail_with_keeps [of _ _ _ r s' io'] show ?thesis
    by (auto simp: fill_step_def body_fill_def split: if_splits pollable.splits sum.splits)
qed

lemma top_up_keeps: "keeps io \<Longrightarrow> keeps (snd (top_up vt mx s io))"
  using take_keeps [of io mx] by (auto simp: top_up_def split: prod.splits)

lemma length_deliver_keeps:
  assumes "keeps io" and "length_deliver vt s io = Some (r, s', io')"
  shows "keeps io'"
proof -
  have fin: "keeps io1" if "body_finish vt s1 io = (s2, io1)" for s1 s2 io1
    using finish_keeps [OF assms(1), of s1] that by simp
  show ?thesis
    using assms fill_step_keeps [OF assms(1), of s r s' io']
    by (auto simp: length_deliver_def Let_def split: if_splits prod.splits dest: fin intro: push_keeps)
qed

lemma chunked_deliver_keeps:
  assumes "keeps io" and "chunked_deliver vt s io = Some (r, s', io')"
  shows "keeps io'"
proof -
  from assms obtain d q d' rest where d: "bs_decoder s = Some d" "poll d (bs_buffered s) = (q, d', rest)"
    by (cases "bs_decoder s"; cases "poll (the (bs_decoder s)) (bs_buffered s)") (auto simp: chunked_deliver_def)
  define s1 where "s1 = s\<lparr>bs_decoder := Some d', bs_buffered := rest\<rparr>"
  note dl = assms(2) [unfolded chunked_deliver_def d option.case prod.case Let_def s1_def [symmetric]]
  have f: "keeps (snd (body_finish vt s1 io))" using finish_keeps [OF assms(1)] .
  from dl f fill_step_keeps [OF assms(1), of s1 r s' io'] fail_with_keeps [OF assms(1), of _ s1 r s' io'] assms(1)
  show ?thesis
    by (auto simp: push_keeps split: sum.splits option.splits chunk_event.splits if_splits prod.splits)
qed

lemma body_step_keeps:
  assumes "keeps io" and "body_step vt s io = Some (r, s', io')"
  shows "keeps io'"
proof -
  have top: "keeps io1" if "top_up vt mx s io = (s1, io1)" for mx s1 io1
    using top_up_keeps [OF assms(1), of mx s] that by simp
  have fin: "keeps io1" if "body_finish vt s io = (s1, io1)" for s1 io1
    using finish_keeps [OF assms(1), of s] that by simp
  show ?thesis
    using assms
    by (auto simp: body_step_def length_step_def chunked_step_def
        split: body_kind.splits prod.splits if_splits
        dest: top fin length_deliver_keeps chunked_deliver_keeps)
qed

lemma body_loop_keeps:
  assumes "body_loop vt s io = Some q" and "keeps io"
  shows "keeps (snd (snd q))"
proof -
  have "vt0 = vt \<longrightarrow> keeps io \<longrightarrow> keeps (snd (snd q))" if "body_loop vt0 s io = Some q" for vt0 s io q
    using that
  proof (rule body_loop.raw_induct [rotated])
    fix f v s io and y :: "chunk_result \<times> body_state \<times> 'io"
    assume ih: "\<And>v s io y. f v s io = Some y \<Longrightarrow> v = vt \<longrightarrow> keeps io \<longrightarrow> keeps (snd (snd y))"
      and eq: "(case body_step v s io of None \<Rightarrow> None | Some (None, s', io') \<Rightarrow> f v s' io'
        | Some (Some r, s', io') \<Rightarrow> Some (r, s', io')) = Some y"
    show "v = vt \<longrightarrow> keeps io \<longrightarrow> keeps (snd (snd y))"
    proof (intro impI)
      assume v: "v = vt" and k: "keeps io"
      from eq obtain r s1 io1 where b: "body_step v s io = Some (r, s1, io1)"
        by (cases "body_step v s io") auto
      have "keeps io1" using body_step_keeps [OF k] b v by simp
      with eq b ih [of v s1 io1 y] v show "keeps (snd (snd y))" by (cases r) auto
    qed
  qed
  with assms show ?thesis by simp
qed

lemma poll_chunk_keeps:
  assumes "keeps io" and "poll_chunk vt s io = Some (r, s', io')"
  shows "keeps io'"
proof -
  obtain q io1 where q: "poll_send_continue vt io = (q, io1)" by (cases "poll_send_continue vt io")
  with continue_keeps [OF assms(1)] have k: "keeps io1" by simp
  then have f: "keeps (snd (body_fail vt s io1))" by (rule fail_keeps)
  show ?thesis
    using assms q k f body_loop_keeps [of s io] body_loop_keeps [of "s\<lparr>bs_continue_sent := True\<rparr>"]
    by (fastforce simp: poll_chunk_def split: if_splits pollable.splits sum.splits prod.splits)
qed

lemma poll_times_keeps:
  "keeps io \<Longrightarrow> poll_times vt k s io = Some (b, s', io') \<Longrightarrow> keeps io'"
proof (induction k arbitrary: s io b)
  case (Suc k)
  from Suc.prems(2) obtain r s1 io1 b1 where "poll_chunk vt s io = Some (r, s1, io1)"
    "poll_times vt k s1 io1 = Some (b1, s', io')"
    by (auto split: option.splits prod.splits)
  with Suc.IH poll_chunk_keeps [OF Suc.prems(1)] show ?case by blast
qed simp

end

end
