(* ===== verification/H1_Io.thy ===== *)
theory H1_Io
  imports H1_Body H1_Parse
begin

text \<open>
  The transport side of \<^verbatim>\<open>src/src/conn.rs\<close>: \<^verbatim>\<open>IoState\<close>, its implementation of \<^verbatim>\<open>BodyIo\<close>, and the
  head-scan cursor.  The transport itself (any \<^verbatim>\<open>AsyncRead + AsyncWrite\<close>) is not code of the crate;
  it is a script of what its polls report, so a statement for every script is a statement for
  every transport.  A script that has run out reports the end of the stream to a read, and accepts
  writes and flushes.
\<close>

section \<open>The transport\<close>

datatype read_event = RdPending | RdData bytes | RdError io_error

datatype write_event = WrPending | WrAccept nat | WrError io_error

datatype flush_event = FlPending | FlDone | FlError io_error

record transport =
  rd :: "read_event list"
  wr :: "write_event list"
  fl :: "flush_event list"
  sent :: bytes

definition poll_read :: "transport \<Rightarrow> (io_error + bytes) pollable \<times> transport" where
  "poll_read t =
     (case rd t of
        [] \<Rightarrow> (Ready (Inr []), t)
      | RdPending # es \<Rightarrow> (Pending, t\<lparr>rd := es\<rparr>)
      | RdData b # es \<Rightarrow> (Ready (Inr b), t\<lparr>rd := es\<rparr>)
      | RdError e # es \<Rightarrow> (Ready (Inl e), t\<lparr>rd := es\<rparr>))"

definition poll_write :: "bytes \<Rightarrow> transport \<Rightarrow> (io_error + nat) pollable \<times> transport" where
  "poll_write b t =
     (case wr t of
        [] \<Rightarrow> (Ready (Inr (length b)), t\<lparr>sent := sent t @ b\<rparr>)
      | WrPending # es \<Rightarrow> (Pending, t\<lparr>wr := es\<rparr>)
      | WrAccept n # es \<Rightarrow>
          (Ready (Inr (min n (length b))), t\<lparr>wr := es, sent := sent t @ take n b\<rparr>)
      | WrError e # es \<Rightarrow> (Ready (Inl e), t\<lparr>wr := es\<rparr>))"

definition poll_flush :: "transport \<Rightarrow> (io_error + unit) pollable \<times> transport" where
  "poll_flush t =
     (case fl t of
        [] \<Rightarrow> (Ready (Inr ()), t)
      | FlPending # es \<Rightarrow> (Pending, t\<lparr>fl := es\<rparr>)
      | FlDone # es \<Rightarrow> (Ready (Inr ()), t\<lparr>fl := es\<rparr>)
      | FlError e # es \<Rightarrow> (Ready (Inl e), t\<lparr>fl := es\<rparr>))"

text \<open>What the script will still deliver: data up to the end of the stream or the first error.\<close>

fun stream_of :: "read_event list \<Rightarrow> bytes" where
  "stream_of [] = []"
| "stream_of (RdPending # es) = stream_of es"
| "stream_of (RdData b # es) = (if b = [] then [] else b @ stream_of es)"
| "stream_of (RdError e # es) = []"

definition script_left :: "transport \<Rightarrow> nat" where
  "script_left t = length (rd t) + length (wr t) + length (fl t)"

section \<open>The shared state\<close>

definition CONTINUE :: bytes where
  "CONTINUE = ''HTTP/1.1 100 Continue'' @ CRLF @ CRLF"

record io_state =
  ios_io :: transport
  ios_buf :: bytes
  ios_scanned :: nat
  ios_head_end :: "nat option"
  ios_body_finished :: bool
  ios_body_generation :: nat
  ios_pending_continue :: nat

definition reset_scan :: "io_state \<Rightarrow> io_state" where
  "reset_scan st = st\<lparr>ios_scanned := 0, ios_head_end := None\<rparr>"

definition poll_read_more :: "io_state \<Rightarrow> (io_error + nat) pollable \<times> io_state" where
  "poll_read_more st =
     (case poll_read (ios_io st) of
        (Pending, t) \<Rightarrow> (Pending, st\<lparr>ios_io := t\<rparr>)
      | (Ready (Inl e), t) \<Rightarrow> (Ready (Inl e), st\<lparr>ios_io := t\<rparr>)
      | (Ready (Inr b), t) \<Rightarrow> (Ready (Inr (length b)), st\<lparr>ios_io := t, ios_buf := ios_buf st @ b\<rparr>))"

definition io_poll_fill :: "io_state \<Rightarrow> (io_error + bytes) pollable \<times> io_state" where
  "io_poll_fill st =
     (let held = length (ios_buf st) in
      case poll_read_more st of
        (Pending, st) \<Rightarrow> (Pending, st)
      | (Ready (Inl e), st) \<Rightarrow> (Ready (Inl e), st)
      | (Ready (Inr n), st) \<Rightarrow>
          if n = 0 then (Ready (Inr []), st)
          else
            (Ready (Inr (drop held (ios_buf st))),
             reset_scan (st\<lparr>ios_buf := take held (ios_buf st)\<rparr>)))"

definition io_take_buffered :: "nat \<Rightarrow> io_state \<Rightarrow> bytes \<times> io_state" where
  "io_take_buffered mx st =
     (let n = min (length (ios_buf st)) mx
      in (take n (ios_buf st), reset_scan (st\<lparr>ios_buf := drop n (ios_buf st)\<rparr>)))"

definition io_push_back :: "bytes \<Rightarrow> io_state \<Rightarrow> io_state" where
  "io_push_back b st =
     (if b = [] then st
      else
        (let st = reset_scan st in
         if ios_buf st = [] then st\<lparr>ios_buf := ios_buf st @ b\<rparr>
         else st\<lparr>ios_buf := b @ ios_buf st\<rparr>))"

definition io_body_started :: "io_state \<Rightarrow> nat \<times> io_state" where
  "io_body_started st =
     (let g = wrapping_add_u64 (ios_body_generation st) 1
      in (g, st\<lparr>ios_body_generation := g, ios_body_finished := False\<rparr>))"

definition io_body_finished :: "nat \<Rightarrow> io_state \<Rightarrow> io_state" where
  "io_body_finished g st =
     (if g = ios_body_generation st then st\<lparr>ios_body_finished := True\<rparr> else st)"

text \<open>
  \<open>Inr\<close> leaves the write loop.  A pending count over the length of the interim response would be
  an index out of range; the connection only ever sets it to that length or to zero.
\<close>

function continue_loop :: "io_state \<Rightarrow> (io_error pollable + unit) \<times> io_state" where
  "continue_loop st =
     (if ios_pending_continue st > 0 then
        (let rest = drop (length CONTINUE - ios_pending_continue st) CONTINUE in
         case poll_write rest (ios_io st) of
           (Pending, t) \<Rightarrow> (Inl Pending, st\<lparr>ios_io := t\<rparr>)
         | (Ready (Inl e), t) \<Rightarrow> (Inl (Ready e), st\<lparr>ios_io := t\<rparr>)
         | (Ready (Inr n), t) \<Rightarrow>
             if n = 0 then (Inl (Ready WriteZero), st\<lparr>ios_io := t\<rparr>)
             else
               continue_loop (st\<lparr>ios_io := t,
                 ios_pending_continue := ios_pending_continue st - min n (ios_pending_continue st)\<rparr>))
      else (Inr (), st))"
  by pat_completeness auto
termination
  by (relation "measure ios_pending_continue") auto

declare continue_loop.simps [simp del]

definition io_poll_send_continue :: "io_state \<Rightarrow> (io_error + unit) pollable \<times> io_state" where
  "io_poll_send_continue st =
     (case continue_loop st of
        (Inl Pending, st) \<Rightarrow> (Pending, st)
      | (Inl (Ready e), st) \<Rightarrow> (Ready (Inl e), st)
      | (Inr _, st) \<Rightarrow>
          (case poll_flush (ios_io st) of (r, t) \<Rightarrow> (r, st\<lparr>ios_io := t\<rparr>)))"

definition io_vt :: "io_state body_io" where
  "io_vt =
     \<lparr>poll_fill = io_poll_fill, poll_send_continue = io_poll_send_continue,
      take_buffered = io_take_buffered, push_back = io_push_back,
      body_started = io_body_started, body_finished = io_body_finished\<rparr>"

lemma io_vt_simps [simp]:
  "poll_fill io_vt = io_poll_fill" "poll_send_continue io_vt = io_poll_send_continue"
  "take_buffered io_vt = io_take_buffered" "push_back io_vt = io_push_back"
  "body_started io_vt = io_body_started" "body_finished io_vt = io_body_finished"
  by (simp_all add: io_vt_def)

text \<open>\<^verbatim>\<open>IoState::write_now\<close>: writes without waiting; anything but progress ends it.\<close>

function write_now_loop :: "bytes \<Rightarrow> transport \<Rightarrow> transport" where
  "write_now_loop b t =
     (if b \<noteq> [] then
        (case poll_write b t of
           (Ready (Inr n), t) \<Rightarrow> if n > 0 then write_now_loop (drop n b) t else t
         | (_, t) \<Rightarrow> t)
      else snd (poll_flush t))"
  by pat_completeness auto
termination
  by (relation "measure (\<lambda>(b, _). length b)") auto

declare write_now_loop.simps [simp del]

definition write_now :: "bytes \<Rightarrow> io_state \<Rightarrow> io_state" where
  "write_now b st = st\<lparr>ios_io := write_now_loop b (ios_io st)\<rparr>"

text \<open>The state \<^verbatim>\<open>Connection::with_buffered\<close> starts with, and the split \<^verbatim>\<open>serve\<close> makes at the end of a head.\<close>

definition io_new :: "transport \<Rightarrow> bytes \<Rightarrow> io_state" where
  "io_new t buffered =
     \<lparr>ios_io = t, ios_buf = buffered, ios_scanned = 0, ios_head_end = None,
      ios_body_finished = False, ios_body_generation = 0, ios_pending_continue = 0\<rparr>"

definition split_head :: "io_state \<Rightarrow> (bytes \<times> io_state) option" where
  "split_head st =
     (case (case ios_head_end st of Some e \<Rightarrow> Some e | None \<Rightarrow> find_head_end (ios_buf st)) of
        None \<Rightarrow> None
      | Some e \<Rightarrow> Some (take e (ios_buf st), reset_scan (st\<lparr>ios_buf := drop e (ios_buf st)\<rparr>)))"

text \<open>
  \<^verbatim>\<open>has_complete_head\<close>: whole empty lines at the front are dropped, then the search for the end of the
  head resumes three bytes before where the last one stopped.
\<close>

fun blank_pairs :: "bytes \<Rightarrow> nat" where
  "blank_pairs (a # b # r) = (if [a, b] = CRLF then Suc (blank_pairs r) else 0)"
| "blank_pairs _ = 0"

definition has_complete_head :: "io_state \<Rightarrow> bool \<times> io_state" where
  "has_complete_head st =
     (let blank = blank_pairs (ios_buf st) * 2;
          st = (if blank > 0
                then st\<lparr>ios_buf := drop blank (ios_buf st), ios_scanned := ios_scanned st - blank\<rparr>
                else st)
      in if length (ios_buf st) \<le> ios_scanned st then (False, st)
         else
           (let from = ios_scanned st - 3 in
            case find_head_end (drop from (ios_buf st)) of
              Some e \<Rightarrow> (True, st\<lparr>ios_head_end := Some (from + e)\<rparr>)
            | None \<Rightarrow> (False, st\<lparr>ios_scanned := length (ios_buf st)\<rparr>)))"

section \<open>The interface laws\<close>

definition io_coming :: "io_state \<Rightarrow> bytes" where
  "io_coming st = stream_of (rd (ios_io st))"

definition io_left :: "io_state \<Rightarrow> nat" where
  "io_left st = script_left (ios_io st)"

lemma poll_write_frame:
  assumes "poll_write b t = (r, t')"
  shows "rd t' = rd t \<and> fl t' = fl t \<and> length (wr t') \<le> length (wr t)
    \<and> (r = Pending \<longrightarrow> length (wr t') < length (wr t))
    \<and> sent t' = sent t @ take (case r of Ready (Inr n) \<Rightarrow> n | _ \<Rightarrow> 0) b
    \<and> (case r of Ready (Inr n) \<Rightarrow> n \<le> length b | _ \<Rightarrow> True)"
  using assms
  by (auto simp: poll_write_def min_def split: list.splits write_event.splits)

lemma poll_flush_frame:
  assumes "poll_flush t = (r, t')"
  shows "rd t' = rd t \<and> wr t' = wr t \<and> sent t' = sent t \<and> length (fl t') \<le> length (fl t)
    \<and> (r = Pending \<longrightarrow> length (fl t') < length (fl t))"
  using assms by (auto simp: poll_flush_def split: list.splits flush_event.splits)

text \<open>
  However often the interim response is polled, it goes out byte by byte in order: what is owed
  shrinks by exactly what was sent.
\<close>

definition only_writes :: "io_state \<Rightarrow> io_state \<Rightarrow> bool" where
  "only_writes st st' \<longleftrightarrow>
     ios_buf st' = ios_buf st \<and> ios_scanned st' = ios_scanned st \<and> ios_head_end st' = ios_head_end st
     \<and> ios_body_finished st' = ios_body_finished st \<and> ios_body_generation st' = ios_body_generation st"

lemma continue_loop_frame:
  assumes "continue_loop st = (r, st')"
  shows "only_writes st st'
    \<and> rd (ios_io st') = rd (ios_io st) \<and> fl (ios_io st') = fl (ios_io st)
    \<and> length (wr (ios_io st')) \<le> length (wr (ios_io st))
    \<and> (r = Inl Pending \<longrightarrow> length (wr (ios_io st')) < length (wr (ios_io st)))
    \<and> ios_pending_continue st' \<le> ios_pending_continue st
    \<and> (r = Inr () \<longrightarrow> ios_pending_continue st' = 0)
    \<and> (ios_pending_continue st \<le> length CONTINUE \<longrightarrow>
        sent (ios_io st') @ drop (length CONTINUE - ios_pending_continue st') CONTINUE
        = sent (ios_io st) @ drop (length CONTINUE - ios_pending_continue st) CONTINUE)"
  using assms
proof (induction st arbitrary: st' rule: continue_loop.induct)
  case (1 st)
  show ?case
  proof (cases "ios_pending_continue st > 0")
    case False
    with 1(2) show ?thesis by (auto simp: continue_loop.simps [of st] only_writes_def)
  next
    case True
    define rest where "rest = drop (length CONTINUE - ios_pending_continue st) CONTINUE"
    obtain q t where q: "poll_write rest (ios_io st) = (q, t)" by (cases "poll_write rest (ios_io st)")
    note f = poll_write_frame [OF q]
    note cl = continue_loop.simps [of st, folded rest_def, unfolded Let_def]
    consider "q = Pending" | e where "q = Ready (Inl e)" | "q = Ready (Inr 0)"
      | n where "q = Ready (Inr (Suc n))"
      by (metis not0_implies_Suc pollable.exhaust sum.exhaust)
    then show ?thesis
    proof cases
      case Q: (4 n)
      define k where "k = ios_pending_continue st - min (Suc n) (ios_pending_continue st)"
      define st1 where "st1 = st\<lparr>ios_io := t, ios_pending_continue := k\<rparr>"
      have go: "continue_loop st = continue_loop st1"
        using True q Q by (simp add: cl st1_def k_def)
      have ih: "only_writes st1 st'
          \<and> rd (ios_io st') = rd (ios_io st1) \<and> fl (ios_io st') = fl (ios_io st1)
          \<and> length (wr (ios_io st')) \<le> length (wr (ios_io st1))
          \<and> (r = Inl Pending \<longrightarrow> length (wr (ios_io st')) < length (wr (ios_io st1)))
          \<and> ios_pending_continue st' \<le> ios_pending_continue st1
          \<and> (r = Inr () \<longrightarrow> ios_pending_continue st' = 0)
          \<and> (ios_pending_continue st1 \<le> length CONTINUE \<longrightarrow>
              sent (ios_io st') @ drop (length CONTINUE - ios_pending_continue st') CONTINUE
              = sent (ios_io st1) @ drop (length CONTINUE - ios_pending_continue st1) CONTINUE)"
        unfolding st1_def k_def
        by (rule 1(1) [of rest "Ready (Inr (Suc n))" t "Inr (Suc n)" "Suc n" st'])
           (use True q Q go 1(2) in \<open>simp_all add: rest_def st1_def k_def\<close>)
      have "sent t @ drop (length CONTINUE - k) CONTINUE = sent (ios_io st) @ rest"
        if "ios_pending_continue st \<le> length CONTINUE"
      proof -
        from f Q that have "Suc n \<le> ios_pending_continue st" by (simp add: rest_def)
        with that have "drop (length CONTINUE - k) CONTINUE = drop (Suc n) rest"
          by (simp add: rest_def k_def min_def add.commute Suc_diff_le)
        with f Q show ?thesis by simp
      qed
      moreover have "k \<le> ios_pending_continue st" by (simp add: k_def)
      moreover have "only_writes st st'" using ih by (simp add: only_writes_def st1_def)
      ultimately show ?thesis
        using f Q ih by (auto simp: st1_def rest_def [symmetric])
    qed (use 1(2) True q f in \<open>auto simp: cl rest_def [symmetric] only_writes_def\<close>)
  qed
qed

lemma send_continue_frame:
  assumes "io_poll_send_continue st = (r, st')"
  shows "only_writes st st'
    \<and> rd (ios_io st') = rd (ios_io st) \<and> io_left st' \<le> io_left st \<and> (r = Pending \<longrightarrow> io_left st' < io_left st)
    \<and> ios_pending_continue st' \<le> ios_pending_continue st
    \<and> (r = Ready (Inr ()) \<longrightarrow> ios_pending_continue st' = 0)
    \<and> (ios_pending_continue st \<le> length CONTINUE \<longrightarrow>
        sent (ios_io st') @ drop (length CONTINUE - ios_pending_continue st') CONTINUE
        = sent (ios_io st) @ drop (length CONTINUE - ios_pending_continue st) CONTINUE)"
proof -
  obtain q st1 where q: "continue_loop st = (q, st1)" by (cases "continue_loop st")
  obtain p t1 where p: "poll_flush (ios_io st1) = (p, t1)" by (cases "poll_flush (ios_io st1)")
  note c = continue_loop_frame [OF q] and f = poll_flush_frame [OF p]
  consider "q = Inl Pending" | e where "q = Inl (Ready e)" | "q = Inr ()"
    by (metis (full_types) old.unit.exhaust pollable.exhaust sum.exhaust)
  then show ?thesis
  proof cases
    case 3
    with assms q p have "r = p" "st' = st1\<lparr>ios_io := t1\<rparr>" by (simp_all add: io_poll_send_continue_def)
    with c f 3 show ?thesis by (auto simp: io_left_def script_left_def only_writes_def)
  qed (use assms q c in \<open>auto simp: io_poll_send_continue_def io_left_def script_left_def\<close>)
qed

interpretation io: body_transport io_vt ios_buf io_coming io_left
proof
  fix n st got st'
  assume "take_buffered io_vt n st = (got, st')"
  then show "got = take n (ios_buf st) \<and> ios_buf st' = drop n (ios_buf st)
      \<and> io_coming st' = io_coming st \<and> io_left st' = io_left st"
    by (auto simp: io_take_buffered_def reset_scan_def io_coming_def io_left_def Let_def min_def)
next
  fix b st
  show "ios_buf (push_back io_vt b st) = b @ ios_buf st \<and> io_coming (push_back io_vt b st) = io_coming st
      \<and> io_left (push_back io_vt b st) = io_left st"
    by (simp add: io_push_back_def reset_scan_def io_coming_def io_left_def Let_def)
next
  fix st fresh st'
  assume "poll_fill io_vt st = (Ready (Inr fresh), st')" and "fresh \<noteq> []"
  then show "ios_buf st' = ios_buf st \<and> io_coming st = fresh @ io_coming st' \<and> io_left st' < io_left st"
    by (auto simp: io_poll_fill_def poll_read_more_def poll_read_def reset_scan_def io_coming_def io_left_def
        script_left_def Let_def split: list.splits read_event.splits if_splits)
next
  fix st st'
  assume "poll_fill io_vt st = (Ready (Inr []), st')"
  then show "ios_buf st' = ios_buf st \<and> io_coming st = []"
    by (auto simp: io_poll_fill_def poll_read_more_def poll_read_def io_coming_def Let_def
        split: list.splits read_event.splits if_splits)
next
  fix st st'
  assume "poll_fill io_vt st = (Pending, st')"
  then show "ios_buf st' = ios_buf st \<and> io_coming st' = io_coming st \<and> io_left st' < io_left st"
    by (auto simp: io_poll_fill_def poll_read_more_def poll_read_def io_coming_def io_left_def script_left_def Let_def
        split: list.splits read_event.splits if_splits)
next
  fix st r st'
  assume "poll_send_continue io_vt st = (r, st')"
  then have "io_poll_send_continue st = (r, st')" by simp
  from send_continue_frame [OF this]
  show "ios_buf st' = ios_buf st \<and> io_coming st' = io_coming st \<and> io_left st' \<le> io_left st
      \<and> (r = Pending \<longrightarrow> io_left st' < io_left st)"
    by (auto simp: io_coming_def only_writes_def)
next
  fix st g st'
  assume "body_started io_vt st = (g, st')"
  then show "ios_buf st' = ios_buf st \<and> io_coming st' = io_coming st \<and> io_left st' = io_left st"
    by (auto simp: io_body_started_def io_coming_def io_left_def Let_def)
next
  fix g st
  show "ios_buf (body_finished io_vt g st) = ios_buf st \<and> io_coming (body_finished io_vt g st) = io_coming st
      \<and> io_left (body_finished io_vt g st) = io_left st"
    by (simp add: io_body_finished_def io_coming_def io_left_def)
qed

section \<open>The scan cursor\<close>

text \<open>
  The cursor is an optimization: no terminator lies wholly before it, and a remembered end of head
  is the one a search of the whole buffer finds.
\<close>

definition scan_ok :: "io_state \<Rightarrow> bool" where
  "scan_ok st \<longleftrightarrow>
     ios_scanned st \<le> length (ios_buf st) \<and>
     (\<forall>j. j + 4 \<le> ios_scanned st \<longrightarrow> \<not> prefix (CRLF @ CRLF) (drop j (ios_buf st))) \<and>
     (\<forall>e. ios_head_end st = Some e \<longrightarrow>
        find_head_end (ios_buf st) = Some e \<and> blank_pairs (ios_buf st) = 0)"

lemma find_sub_resume:
  assumes "\<forall>j < m. \<not> prefix pat (drop j xs)" and "m \<le> length xs"
  shows "find_sub pat xs = map_option ((+) m) (find_sub pat (drop m xs))"
  using assms
proof (induction m arbitrary: xs)
  case 0
  then show ?case by (simp add: option.map_ident)
next
  case (Suc m)
  then obtain y ys where xs: "xs = y # ys" by (cases xs) auto
  have "\<forall>j < m. \<not> prefix pat (drop j ys)" using Suc.prems(1) xs by fastforce
  with Suc xs have "find_sub pat ys = map_option ((+) m) (find_sub pat (drop m ys))" by simp
  moreover have "\<not> prefix pat xs" using Suc.prems(1) by fastforce
  ultimately show ?case using xs by (simp add: option.map_comp comp_def)
qed

lemma find_head_end_append:
  assumes "find_head_end xs = Some e"
  shows "find_head_end (xs @ ys) = Some e"
proof -
  from assms obtain i where i: "e = i + 4" "find_sub (CRLF @ CRLF) xs = Some i"
    by (auto simp: find_head_end_def)
  then have p: "i \<le> length xs" "prefix (CRLF @ CRLF) (drop i xs)" "\<forall>j < i. \<not> prefix (CRLF @ CRLF) (drop j xs)"
    unfolding find_sub_Some_iff by blast+
  have len: "length (CRLF @ CRLF) \<le> length (drop i xs)" using p(2) by (rule prefix_length_le)
  have "\<not> prefix (CRLF @ CRLF) (drop j (xs @ ys))" if "j < i" for j
  proof
    assume "prefix (CRLF @ CRLF) (drop j (xs @ ys))"
    moreover have "drop j (xs @ ys) = drop j xs @ ys" using that p(1) by simp
    ultimately have "prefix (CRLF @ CRLF) (drop j xs)"
      using len that by (auto intro: prefix_length_prefix [of _ "drop j xs @ ys"])
    with p(3) that show False by blast
  qed
  moreover have "prefix (CRLF @ CRLF) (drop i (xs @ ys))"
    using p(1,2) by (simp only: drop_append prefix_prefix)
  ultimately have "find_sub (CRLF @ CRLF) (xs @ ys) = Some i"
    using p(1) by (simp only: find_sub_Some_iff length_append) simp
  with i(1) show ?thesis by (simp add: find_head_end_def)
qed

lemma blank_pairs_length: "blank_pairs xs * 2 \<le> length xs"
  by (induction xs rule: blank_pairs.induct) auto

lemma blank_pairs_drop: "blank_pairs (drop (blank_pairs xs * 2) xs) = 0"
  by (induction xs rule: blank_pairs.induct) auto

lemma has_complete_head_cursor:
  assumes "scan_ok st" and "has_complete_head st = (r, st')"
  shows "scan_ok st' \<and> ios_buf st' = drop (blank_pairs (ios_buf st) * 2) (ios_buf st)
    \<and> (r \<longleftrightarrow> find_head_end (ios_buf st') \<noteq> None)
    \<and> (r \<longrightarrow> ios_head_end st' = find_head_end (ios_buf st'))
    \<and> ios_io st' = ios_io st \<and> ios_body_finished st' = ios_body_finished st
    \<and> ios_body_generation st' = ios_body_generation st \<and> ios_pending_continue st' = ios_pending_continue st"
proof -
  define blank where "blank = blank_pairs (ios_buf st) * 2"
  define st1 where "st1 = (if blank > 0
      then st\<lparr>ios_buf := drop blank (ios_buf st), ios_scanned := ios_scanned st - blank\<rparr> else st)"
  define buf where "buf = drop blank (ios_buf st)"
  define k where "k = ios_scanned st - blank"
  have f1: "ios_buf st1 = buf" "ios_scanned st1 = k" "ios_head_end st1 = ios_head_end st" "ios_io st1 = ios_io st"
    "ios_body_finished st1 = ios_body_finished st" "ios_body_generation st1 = ios_body_generation st"
    "ios_pending_continue st1 = ios_pending_continue st"
    by (simp_all add: st1_def buf_def k_def)
  have k: "k \<le> length buf" using assms(1) by (auto simp: scan_ok_def buf_def k_def)
  have none: "\<forall>j. j + 4 \<le> k \<longrightarrow> \<not> prefix (CRLF @ CRLF) (drop j buf)"
  proof (intro allI impI)
    fix j
    assume "j + 4 \<le> k"
    then have "(j + blank) + 4 \<le> ios_scanned st" by (simp add: k_def)
    with assms(1) show "\<not> prefix (CRLF @ CRLF) (drop j buf)" unfolding scan_ok_def buf_def by (metis add.commute drop_drop)
  qed
  have bp: "blank_pairs buf = 0" by (simp add: buf_def blank_def blank_pairs_drop)
  have he: "\<forall>e. ios_head_end st = Some e \<longrightarrow> find_head_end buf = Some e"
    using assms(1) by (auto simp: scan_ok_def buf_def blank_def)
  have skip: "find_head_end buf = map_option ((+) (k - 3)) (find_head_end (drop (k - 3) buf))"
    using find_sub_resume [of "k - 3" "CRLF @ CRLF" buf] none [rule_format] k
    by (simp add: find_head_end_def option.map_comp comp_def add.assoc)
  have short: "find_head_end buf = None" if "length buf \<le> k"
  proof -
    have "find_head_end (drop (k - 3) buf) = None"
      using that k by (auto simp: find_head_end_def find_sub_None_iff dest!: sublist_length_le)
    with skip show ?thesis by simp
  qed
  have "has_complete_head st =
      (if length buf \<le> k then (False, st1)
       else case find_head_end (drop (k - 3) buf) of
          Some e \<Rightarrow> (True, st1\<lparr>ios_head_end := Some (k - 3 + e)\<rparr>)
        | None \<Rightarrow> (False, st1\<lparr>ios_scanned := length buf\<rparr>))"
    unfolding has_complete_head_def Let_def blank_def [symmetric] st1_def [symmetric] f1 ..
  with assms(2) consider
      "length buf \<le> k" "r = False" "st' = st1"
    | e where "find_head_end buf = Some e" "r = True" "st' = st1\<lparr>ios_head_end := Some e\<rparr>"
    | "find_head_end buf = None" "r = False" "st' = st1\<lparr>ios_scanned := length buf\<rparr>"
    using skip by (auto split: if_splits option.splits)
  then show ?thesis
  proof cases
    case R: 1
    with short he f1 k none bp show ?thesis
      by (auto simp: scan_ok_def buf_def [symmetric] blank_def [symmetric] split: option.splits)
  next
    case R: (2 e)
    with f1 k none bp show ?thesis
      by (auto simp: scan_ok_def buf_def [symmetric] blank_def [symmetric])
  next
    case R: 3
    have "\<not> prefix (CRLF @ CRLF) (drop j buf)" for j
    proof
      assume "prefix (CRLF @ CRLF) (drop j buf)"
      then have "sublist (CRLF @ CRLF) buf"
        by (meson prefix_imp_sublist sublist_drop sublist_order.order_trans)
      with R(1) show False by (simp add: find_head_end_def find_sub_None_iff)
    qed
    with R f1 he bp show ?thesis
      by (auto simp: scan_ok_def buf_def [symmetric] blank_def [symmetric] split: option.splits)
  qed
qed

section \<open>What a body writes\<close>

text \<open>
  The bytes sent and the part of the interim response still owed, together, never change while a
  body is polled: the interim response goes out once, in order, and nothing else is written.
\<close>

definition owes :: "bytes \<Rightarrow> nat \<Rightarrow> io_state \<Rightarrow> bool" where
  "owes w p st \<longleftrightarrow>
     ios_pending_continue st \<le> p \<and> p \<le> length CONTINUE \<and>
     sent (ios_io st) @ drop (length CONTINUE - ios_pending_continue st) CONTINUE = w"

lemma poll_read_more_frame:
  assumes "poll_read_more st = (r, st')"
  shows "sent (ios_io st') = sent (ios_io st) \<and> ios_pending_continue st' = ios_pending_continue st
    \<and> ios_scanned st' = ios_scanned st \<and> ios_head_end st' = ios_head_end st
    \<and> ios_body_finished st' = ios_body_finished st
    \<and> (\<exists>b. ios_buf st' = ios_buf st @ b \<and> (b \<noteq> [] \<longrightarrow> io_coming st = b @ io_coming st'))
    \<and> ((\<forall>n. r \<noteq> Ready (Inr (Suc n))) \<longrightarrow> ios_buf st' = ios_buf st)
    \<and> (r = Pending \<longrightarrow> io_coming st' = io_coming st)"
proof (cases "rd (ios_io st)")
  case Nil
  with assms show ?thesis by (auto simp: poll_read_more_def poll_read_def)
next
  case (Cons e es)
  with assms show ?thesis
    by (cases e) (auto simp: poll_read_more_def poll_read_def io_coming_def neq_Nil_conv)
qed

interpretation owed: body_keeps io_vt "owes w p" for w p
proof
  fix st
  assume o: "owes w p st"
  obtain r st' where q: "poll_read_more st = (r, st')" by (cases "poll_read_more st")
  from o poll_read_more_frame [OF q] q show "owes w p (snd (poll_fill io_vt st))"
    by (auto simp: io_poll_fill_def owes_def reset_scan_def Let_def split: pollable.splits sum.splits)
  obtain r2 st2 where c: "io_poll_send_continue st = (r2, st2)" by (cases "io_poll_send_continue st")
  from send_continue_frame [OF c] o c show "owes w p (snd (poll_send_continue io_vt st))"
    by (auto simp: owes_def)
qed (simp_all add: owes_def io_take_buffered_def io_push_back_def io_body_started_def io_body_finished_def
      reset_scan_def Let_def)

lemma scan_ok_cong:
  "ios_buf st' = ios_buf st \<Longrightarrow> ios_scanned st' = ios_scanned st \<Longrightarrow> ios_head_end st' = ios_head_end st \<Longrightarrow>
   scan_ok st' = scan_ok st"
  by (simp add: scan_ok_def)

lemma scan_ok_reset [simp]: "scan_ok (reset_scan st)"
  by (simp add: scan_ok_def reset_scan_def)

interpretation scanned: body_keeps io_vt scan_ok
proof
  fix st
  assume o: "scan_ok st"
  obtain r st' where p: "poll_read_more st = (r, st')" by (cases "poll_read_more st")
  have same: "scan_ok st'" if "\<forall>n. r \<noteq> Ready (Inr (Suc n))"
    using poll_read_more_frame [OF p] scan_ok_cong [of st' st] o that by blast
  consider "\<forall>n. r \<noteq> Ready (Inr (Suc n))" | n where "r = Ready (Inr (Suc n))" by blast
  then show "scan_ok (snd (poll_fill io_vt st))"
    by cases (use p same in \<open>simp_all add: io_poll_fill_def Let_def split: pollable.splits sum.splits\<close>)
  obtain r2 st2 where c: "io_poll_send_continue st = (r2, st2)" by (cases "io_poll_send_continue st")
  have "scan_ok st2" using send_continue_frame [OF c] scan_ok_cong [of st2 st] o
    unfolding only_writes_def by blast
  with c show "scan_ok (snd (poll_send_continue io_vt st))" by simp
next
  fix st g
  assume "scan_ok st"
  then show "scan_ok (snd (body_started io_vt st))" "scan_ok (body_finished io_vt g st)"
    by (simp_all add: io_body_started_def io_body_finished_def Let_def scan_ok_def)
next
  fix st b
  assume "scan_ok st"
  then show "scan_ok (push_back io_vt b st)"
    by (simp add: io_push_back_def Let_def) (simp add: scan_ok_def reset_scan_def)
qed (simp add: io_take_buffered_def Let_def)

section \<open>Every state a connection reaches\<close>

inductive io_reach :: "io_state \<Rightarrow> bool" where
  io_start: "io_reach (io_new t buffered)"
| io_read: "io_reach st \<Longrightarrow> io_reach (snd (poll_read_more st))"
| io_scan: "io_reach st \<Longrightarrow> io_reach (snd (has_complete_head st))"
| io_split: "io_reach st \<Longrightarrow> split_head st = Some (h, st') \<Longrightarrow> io_reach st'"
| io_body: "io_reach st \<Longrightarrow> poll_chunk io_vt s st = Some (r, s', st') \<Longrightarrow> io_reach st'"
| io_register: "io_reach st \<Longrightarrow> io_reach (snd (register io_vt st dn))"
| io_dropped: "io_reach st \<Longrightarrow> io_reach (body_drop io_vt s st)"
| io_expect: "io_reach st \<Longrightarrow> io_reach (st\<lparr>ios_pending_continue := n, ios_body_finished := f\<rparr>)"
| io_written: "io_reach st \<Longrightarrow> rd t = rd (ios_io st) \<Longrightarrow> io_reach (st\<lparr>ios_io := t\<rparr>)"

inductive_cases io_reach_cases: "io_reach st"

lemma prefix_drop_append:
  assumes "prefix pat (drop j (xs @ ys))" and "j + length pat \<le> length xs"
  shows "prefix pat (drop j xs)"
proof -
  have "prefix pat (drop j xs @ ys)" using assms by simp
  moreover have "prefix (drop j xs) (drop j xs @ ys)" by simp
  ultimately show ?thesis using assms(2) by (auto intro: prefix_length_prefix)
qed

lemma blank_pairs_append: "blank_pairs xs = 0 \<Longrightarrow> 2 \<le> length xs \<Longrightarrow> blank_pairs (xs @ ys) = 0"
  by (cases xs rule: blank_pairs.cases) (auto split: if_splits)

lemma find_head_end_length: "find_head_end xs = Some e \<Longrightarrow> 4 \<le> e \<and> e \<le> length xs"
  by (auto simp: find_head_end_def find_sub_Some_iff dest: prefix_length_le)

lemma scan_ok_read:
  assumes "scan_ok st"
  shows "scan_ok (snd (poll_read_more st))"
proof -
  obtain r st' where p: "poll_read_more st = (r, st')" by (cases "poll_read_more st")
  from poll_read_more_frame [OF p] obtain b where b: "ios_buf st' = ios_buf st @ b"
    "ios_scanned st' = ios_scanned st" "ios_head_end st' = ios_head_end st" by blast
  have none: "\<not> prefix (CRLF @ CRLF) (drop j (ios_buf st @ b))" if "j + 4 \<le> ios_scanned st" for j
  proof -
    have "j + length (CRLF @ CRLF) \<le> length (ios_buf st)" using that assms by (simp add: scan_ok_def)
    with prefix_drop_append [of "CRLF @ CRLF" j "ios_buf st" b] assms that show ?thesis
      unfolding scan_ok_def by blast
  qed
  have "find_head_end (ios_buf st @ b) = Some e \<and> blank_pairs (ios_buf st @ b) = 0"
    if "ios_head_end st = Some e" for e
    using assms that find_head_end_append [of "ios_buf st" e b] find_head_end_length [of "ios_buf st" e]
      blank_pairs_append [of "ios_buf st" b]
    by (auto simp: scan_ok_def)
  with none b p assms show ?thesis by (simp add: scan_ok_def)
qed

lemma scan_ok_register:
  assumes "scan_ok st"
  shows "scan_ok (snd (register io_vt st dn))"
  using scanned.register_keeps [OF assms] .

lemma io_reach_scan_ok: "io_reach st \<Longrightarrow> scan_ok st"
proof (induction rule: io_reach.induct)
  case (io_start t buffered)
  then show ?case by (simp add: io_new_def scan_ok_def)
next
  case (io_read st)
  then show ?case by (simp add: scan_ok_read)
next
  case (io_scan st)
  then show ?case using has_complete_head_cursor [of st] by (metis prod.collapse)
next
  case (io_split st h st')
  then show ?case by (auto simp: split_head_def split: option.splits)
next
  case (io_body st s r s' st')
  then show ?case by (blast intro: scanned.poll_chunk_keeps)
next
  case (io_register st dn)
  then show ?case by (simp add: scan_ok_register)
next
  case (io_dropped st s)
  then show ?case by (simp add: body_drop_def scanned.notify_keeps)
qed (simp_all add: scan_ok_def)

text \<open>C15. The resumed search is exact: whenever a connection asks whether a complete head is buffered,
  in whatever state its reads, bodies, push-backs and earlier searches left it, the answer and the
  end it remembers are those of searching the whole buffer from the front, after dropping the
  empty lines before a request.\<close>

theorem scan_cursor_exact:
  assumes "io_reach st" and "has_complete_head st = (r, st')"
  shows "ios_buf st' = drop (blank_pairs (ios_buf st) * 2) (ios_buf st) \<and> blank_pairs (ios_buf st') = 0
    \<and> (r \<longleftrightarrow> find_head_end (ios_buf st') \<noteq> None)
    \<and> (r \<longrightarrow> ios_head_end st' = find_head_end (ios_buf st'))"
  using has_complete_head_cursor [OF io_reach_scan_ok [OF assms(1)] assms(2)]
  by (simp add: blank_pairs_drop)

definition sample_io :: "read_event list \<Rightarrow> bytes \<Rightarrow> io_state" where
  "sample_io es buffered = io_new \<lparr>rd = es, wr = [], fl = [], sent = []\<rparr> buffered"

theorem scan_cursor_exact_witness:
  "fst (has_complete_head (sample_io [] (CRLF @ ''GET'' @ CRLF @ CRLF @ ''x'')))
   \<longleftrightarrow> find_head_end (''GET'' @ CRLF @ CRLF @ ''x'') \<noteq> None"
proof -
  let ?st = "sample_io [] (CRLF @ ''GET'' @ CRLF @ CRLF @ ''x'')"
  obtain r st' where h: "has_complete_head ?st = (r, st')" by (cases "has_complete_head ?st")
  have "io_reach ?st" unfolding sample_io_def by (rule io_start)
  from scan_cursor_exact [OF this h] h show ?thesis
    by (simp add: sample_io_def io_new_def blank_pairs.simps)
qed

section \<open>A body over a connection\<close>

definition kind_fits :: "body_kind \<Rightarrow> bool" where
  "kind_fits k = (case k of Length n \<Rightarrow> n < u64_range | _ \<Rightarrow> True)"

text \<open>What the connection has buffered and will still receive.\<close>

definition upcoming :: "io_state \<Rightarrow> bytes" where
  "upcoming st = ios_buf st @ io_coming st"

lemma ahead_upcoming: "io.ahead st = upcoming st"
  by (simp add: io.ahead_def upcoming_def)

lemma body_new_io: "body_new vt k io nc l = (s, io') \<Longrightarrow> \<exists>dn. io' = snd (register vt io dn)"
  by (auto simp: body_new_def Let_def split: prod.splits) (metis snd_conv)+

text \<open>C9. No request smuggling through a body: however the transport splits the stream and however
  often a handler polls the body of its request, polling never panics and always returns; and if
  the body then counts as fully read (which is what lets the connection be reused), the bytes
  taken from the stream are exactly one complete body of the declared kind, its content is exactly
  what was delivered, and every byte after it is still ahead, in order, for the next request.\<close>

theorem fully_read_leaves_next_request:
  assumes "limits_ok l" and "kind_fits k" and "length (upcoming st) < u64_range"
  shows "case body_new io_vt k st needs_continue l of (s0, st0) \<Rightarrow>
    \<exists>b s st'. poll_times io_vt polls s0 st0 = Some (b, s, st')
      \<and> (was_fully_read s \<longrightarrow> (\<exists>c. body_is k c b \<and> upcoming st = c @ upcoming st'))"
proof -
  obtain s0 st0 where n: "body_new io_vt k st needs_continue l = (s0, st0)"
    by (cases "body_new io_vt k st needs_continue l")
  have "\<forall>n. k = Length n \<longrightarrow> n < u64_range" using assms(2) by (auto simp: kind_fits_def)
  from io.body_new_tracks [OF n assms(1) _ this] assms(3)
  have t: "io.tracks (upcoming st) [] s0 st0" and kd: "bs_kind s0 = k"
    by (auto simp: io.tracks_def ahead_upcoming)
  from io.poll_times_tracks [OF t, of polls] obtain b s st' where
    p: "poll_times io_vt polls s0 st0 = Some (b, s, st')" "io.tracks (upcoming st) b s st'" "bs_kind s = k"
    using kd by auto
  with io.tracks_fully_read [OF p(2)] n show ?thesis
    by (auto simp: was_fully_read_def ahead_upcoming)
qed

theorem fully_read_leaves_next_request_witness:
  "case body_new io_vt (Length 3) (sample_io [RdPending, RdData ''bcGET''] ''a'') False default_limits of
     (s0, st0) \<Rightarrow> \<exists>b s st'. poll_times io_vt 4 s0 st0 = Some (b, s, st')
       \<and> (was_fully_read s \<longrightarrow> (\<exists>c. body_is (Length 3) c b
            \<and> upcoming (sample_io [RdPending, RdData ''bcGET''] ''a'') = c @ upcoming st'))"
  by (rule fully_read_leaves_next_request [OF default_limits_ok])
     (simp_all add: kind_fits_def upcoming_def io_coming_def sample_io_def io_new_def)

text \<open>C10. \<^verbatim>\<open>collect\<close> always comes back, whatever the transport does, and never with part of a body: either
  it returns data of at most \<open>cap\<close> bytes, the body is exactly that data and what follows it is
  still ahead; or it reports an error, with \<^verbatim>\<open>TooLarge\<close> only when more than \<open>cap\<close> bytes were
  delivered.  A body of declared length that the stream cuts short is never returned.\<close>

theorem collect_returns_whole_body:
  assumes "limits_ok l" and "kind_fits k" and "length (upcoming st) < u64_range"
  shows "case body_new io_vt k st needs_continue l of (s0, st0) \<Rightarrow>
    \<exists>r s st'. collect io_vt cap s0 st0 = Some (r, s, st') \<and>
      (case r of
         Inr data \<Rightarrow> was_fully_read s \<and> length data \<le> cap
           \<and> (\<exists>c. body_is k c data \<and> upcoming st = c @ upcoming st')
       | Inl e \<Rightarrow> (was_fully_read s \<longrightarrow> (\<exists>c b. body_is k c b \<and> upcoming st = c @ upcoming st'))
           \<and> (e = TooLarge \<longrightarrow> cap < length (upcoming st)))"
proof -
  obtain s0 st0 where n: "body_new io_vt k st needs_continue l = (s0, st0)"
    by (cases "body_new io_vt k st needs_continue l")
  have "\<forall>n. k = Length n \<longrightarrow> n < u64_range" using assms(2) by (auto simp: kind_fits_def)
  from io.body_new_tracks [OF n assms(1) _ this] assms(3)
  have t: "io.unread (upcoming st) [] s0 st0 \<or> io.ended (upcoming st) [] s0 st0 \<and> bs_fully_read s0"
    and kd: "bs_kind s0 = k"
    by (auto simp: ahead_upcoming)
  from io.collect_returns [OF t assms(3), of cap] obtain r s st' where
    c: "collect io_vt cap s0 st0 = Some (r, s, st')" "bs_kind s = k"
    "case r of
         Inr data \<Rightarrow> bs_fully_read s \<and> io.ended (upcoming st) data s st' \<and> length data \<le> cap
       | Inl e \<Rightarrow> (\<exists>b. io.ended (upcoming st) b s st' \<and> (e = TooLarge \<longrightarrow> length b > cap))"
    using kd by auto
  with n show ?thesis
    by (auto simp: was_fully_read_def io.ended_def ahead_upcoming split: sum.splits)
qed

theorem collect_returns_whole_body_witness:
  "case body_new io_vt Chunked (sample_io [RdData ''2''] []) True default_limits of (s0, st0) \<Rightarrow>
    \<exists>r s st'. collect io_vt 10 s0 st0 = Some (r, s, st') \<and>
      (case r of
         Inr data \<Rightarrow> was_fully_read s \<and> length data \<le> 10
           \<and> (\<exists>c. body_is Chunked c data \<and> upcoming (sample_io [RdData ''2''] []) = c @ upcoming st')
       | Inl e \<Rightarrow> (was_fully_read s \<longrightarrow> (\<exists>c b. body_is Chunked c b
             \<and> upcoming (sample_io [RdData ''2''] []) = c @ upcoming st'))
           \<and> (e = TooLarge \<longrightarrow> 10 < length (upcoming (sample_io [RdData ''2''] []))))"
  by (rule collect_returns_whole_body [OF default_limits_ok])
     (simp_all add: kind_fits_def upcoming_def io_coming_def sample_io_def io_new_def)

text \<open>C16. Reading a body writes nothing but the interim response, and that once: after any number of
  polls, under short writes, refusals and pending writes alike, the bytes sent since are the next
  bytes of the \<^verbatim>\<open>100 Continue\<close> that was owed, as many as are no longer owed.\<close>

theorem body_writes_only_continue:
  assumes "limits_ok l" and "kind_fits k" and "length (upcoming st) < u64_range"
    and "ios_pending_continue st \<le> length CONTINUE"
  shows "case body_new io_vt k st needs_continue l of (s0, st0) \<Rightarrow>
    \<exists>b s st' m. poll_times io_vt polls s0 st0 = Some (b, s, st')
      \<and> ios_pending_continue st = ios_pending_continue st' + m
      \<and> sent (ios_io st') = sent (ios_io st) @ take m (drop (length CONTINUE - ios_pending_continue st) CONTINUE)"
proof -
  obtain s0 st0 where n: "body_new io_vt k st needs_continue l = (s0, st0)"
    by (cases "body_new io_vt k st needs_continue l")
  have "\<forall>n. k = Length n \<longrightarrow> n < u64_range" using assms(2) by (auto simp: kind_fits_def)
  from io.body_new_tracks [OF n assms(1) _ this] assms(3)
  have "io.tracks (upcoming st) [] s0 st0" by (auto simp: io.tracks_def ahead_upcoming)
  from io.poll_times_tracks [OF this, of polls] obtain b s st' where
    p: "poll_times io_vt polls s0 st0 = Some (b, s, st')" by auto
  let ?d = "\<lambda>n. drop (length CONTINUE - n) CONTINUE"
  define w where "w = sent (ios_io st) @ ?d (ios_pending_continue st)"
  have "owes w (ios_pending_continue st) st" using assms(4) by (simp add: owes_def w_def)
  then have "owes w (ios_pending_continue st) st0"
    using owed.register_keeps body_new_io [OF n] by blast
  from owed.poll_times_keeps [OF this p] have le: "ios_pending_continue st' \<le> ios_pending_continue st"
    and eq: "sent (ios_io st') @ ?d (ios_pending_continue st') = sent (ios_io st) @ ?d (ios_pending_continue st)"
    by (simp_all add: owes_def w_def)
  define m where "m = ios_pending_continue st - ios_pending_continue st'"
  have "?d (ios_pending_continue st') = drop m (?d (ios_pending_continue st))"
    using le assms(4) by (simp add: m_def)
  with eq have "sent (ios_io st') = sent (ios_io st) @ take m (?d (ios_pending_continue st))"
    by (metis append.assoc append_same_eq append_take_drop_id)
  with p le n show ?thesis by (auto simp: m_def intro!: exI [of _ m])
qed

theorem body_writes_only_continue_witness:
  "case body_new io_vt (Length 3) ((sample_io [RdData ''abc''] [])\<lparr>ios_pending_continue := 25\<rparr>) True default_limits of
     (s0, st0) \<Rightarrow> \<exists>b s st' m. poll_times io_vt 4 s0 st0 = Some (b, s, st')
      \<and> 25 = ios_pending_continue st' + m \<and> sent (ios_io st') = take m CONTINUE"
  using body_writes_only_continue [where l = default_limits and k = "Length 3" and needs_continue = True
      and st = "(sample_io [RdData ''abc''] [])\<lparr>ios_pending_continue := 25\<rparr>" and polls = 4]
  by (simp add: default_limits_ok kind_fits_def upcoming_def io_coming_def sample_io_def io_new_def CONTINUE_def
      split: prod.splits)

end
