(* ===== verification/H1_Deadline.thy ===== *)
theory H1_Deadline
  imports H1_Limits
begin

text \<open>
  \<^verbatim>\<open>src/src/deadline.rs\<close>: the reusable, lazily armed deadline of a connection.  Instants and durations
  are nanoseconds.  The timer of the runtime is not code of the crate: when a poll at instant
  \<open>now\<close> finds a timer with deadline \<open>d\<close> elapsed is the parameter \<open>fires now d\<close>.
\<close>

type_synonym instant = nat

abbreviation u64_max :: nat where
  "u64_max \<equiv> 2 ^ 64 - 1"

text \<open>The seconds of an \<^verbatim>\<open>Instant\<close> are an \<open>i64\<close>.\<close>

definition instant_range :: nat where
  "instant_range = 2 ^ 63 * 1000000000"

definition instant_checked_add :: "instant \<Rightarrow> duration \<Rightarrow> instant option" where
  "instant_checked_add now d = (if now + d < instant_range then Some (now + d) else None)"

definition FAR_FUTURE :: duration where
  "FAR_FUTURE = from_secs (86400 * 365)"

record conn_deadline =
  dl_sleep :: instant
  dl_tick :: duration
  dl_target :: "instant option"

definition div_ceil :: "nat \<Rightarrow> nat \<Rightarrow> nat" where
  "div_ceil a b = (if a mod b > 0 then a div b + 1 else a div b)"

definition round_up :: "duration \<Rightarrow> duration \<Rightarrow> duration" where
  "round_up d tick =
     (if d < 2 ^ 64 \<and> tick < 2 ^ 64 then
        (if tick = 0 then d else min (div_ceil d tick * tick) u64_max)
      else if d = 0 then d
      else u64_max)"

definition deadline_new :: "duration \<Rightarrow> instant \<Rightarrow> conn_deadline" where
  "deadline_new tick now =
     \<lparr>dl_sleep = now + FAR_FUTURE, dl_tick = (if tick = 0 then from_millis 1 else tick), dl_target = None\<rparr>"

definition deadline_arm :: "conn_deadline \<Rightarrow> instant \<Rightarrow> duration \<Rightarrow> conn_deadline" where
  "deadline_arm d now after =
     (let target = (case instant_checked_add now (round_up after (dl_tick d)) of
                      Some t \<Rightarrow> t | None \<Rightarrow> now + FAR_FUTURE);
          d = d\<lparr>dl_target := Some target\<rparr>
      in if dl_sleep d > target then d\<lparr>dl_sleep := target\<rparr> else d)"

definition deadline_disarm :: "conn_deadline \<Rightarrow> conn_deadline" where
  "deadline_disarm d = d\<lparr>dl_target := None\<rparr>"

text \<open>The loop of \<^verbatim>\<open>poll_expired\<close>, on the deadline of the timer.  It goes around at most once.\<close>

function expired_loop ::
    "(instant \<Rightarrow> instant \<Rightarrow> bool) \<Rightarrow> instant \<Rightarrow> instant \<Rightarrow> instant \<Rightarrow> bool \<times> instant" where
  "expired_loop fires now target sleep =
     (if \<not> fires now sleep then (False, sleep)
      else if sleep \<ge> target then (True, sleep)
      else expired_loop fires now target target)"
  by pat_completeness auto
termination
  by (relation "measure (\<lambda>(_, _, target, sleep). target - sleep)") auto

declare expired_loop.simps [simp del]

definition poll_expired ::
    "(instant \<Rightarrow> instant \<Rightarrow> bool) \<Rightarrow> instant \<Rightarrow> conn_deadline \<Rightarrow> bool \<times> conn_deadline" where
  "poll_expired fires now d =
     (case dl_target d of
        None \<Rightarrow> (False, d)
      | Some target \<Rightarrow>
          (case expired_loop fires now target (dl_sleep d) of (r, sleep) \<Rightarrow> (r, d\<lparr>dl_sleep := sleep\<rparr>)))"

section \<open>Rounding\<close>

lemma div_ceil_bounds:
  assumes "0 < n"
  shows "a \<le> div_ceil a n * n" "div_ceil a n * n < a + n" "n dvd div_ceil a n * n"
proof -
  have e: "div_ceil a n * n = a div n * n + (if a mod n > 0 then n else 0)"
    by (simp add: div_ceil_def)
  define q m where "q = a div n * n" and "m = a mod n"
  have a: "a = q + m" "m < n" using assms by (simp_all add: q_def m_def)
  show "a \<le> div_ceil a n * n" "div_ceil a n * n < a + n"
    unfolding e q_def [symmetric] m_def [symmetric] using a assms by auto
qed simp

text \<open>Rounding a delay up to the tick never shortens it, lengthens it by less than a tick, and ends
  on a multiple of the tick, for every delay and tick of \<open>u64\<close> nanoseconds whose rounding fits; a
  delay beyond that saturates instead of wrapping.\<close>

lemma round_up_bounds:
  assumes "0 < tick" and "tick < 2 ^ 64" and "d + tick \<le> 2 ^ 64"
  shows "d \<le> round_up d tick \<and> round_up d tick < d + tick \<and> tick dvd round_up d tick
    \<and> (2 ^ 64 \<le> e \<longrightarrow> round_up e tick = 2 ^ 64 - 1)"
proof -
  have "div_ceil d tick * tick \<le> u64_max"
    using div_ceil_bounds(2) [OF assms(1), of d] assms(3) by simp
  then have "round_up d tick = div_ceil d tick * tick"
    using assms by (simp add: round_up_def)
  moreover have "2 ^ 64 \<le> e \<longrightarrow> round_up e tick = 2 ^ 64 - 1" by (simp add: round_up_def)
  ultimately show ?thesis using div_ceil_bounds [OF assms(1), of d] by simp
qed

section \<open>The lazy timer against an eager one\<close>

text \<open>
  The reference deadline resets its timer on every arm, so the timer always holds the target.
\<close>

datatype deadline_op = Arm instant duration | Disarm | PollAt instant

fun lazy_run ::
    "(instant \<Rightarrow> instant \<Rightarrow> bool) \<Rightarrow> conn_deadline \<Rightarrow> deadline_op list \<Rightarrow> bool list" where
  "lazy_run fires d [] = []"
| "lazy_run fires d (Arm now after # ops) = lazy_run fires (deadline_arm d now after) ops"
| "lazy_run fires d (Disarm # ops) = lazy_run fires (deadline_disarm d) ops"
| "lazy_run fires d (PollAt now # ops) =
     (case poll_expired fires now d of (r, d') \<Rightarrow> r # lazy_run fires d' ops)"

fun eager_run ::
    "(instant \<Rightarrow> instant \<Rightarrow> bool) \<Rightarrow> duration \<Rightarrow> instant option \<Rightarrow> deadline_op list \<Rightarrow> bool list" where
  "eager_run fires tick t [] = []"
| "eager_run fires tick t (Arm now after # ops) =
     eager_run fires tick
       (Some (case instant_checked_add now (round_up after tick) of
                Some t \<Rightarrow> t | None \<Rightarrow> now + FAR_FUTURE)) ops"
| "eager_run fires tick t (Disarm # ops) = eager_run fires tick None ops"
| "eager_run fires tick t (PollAt now # ops) =
     (case t of None \<Rightarrow> False | Some target \<Rightarrow> fires now target) # eager_run fires tick t ops"

text \<open>The timer is never later than the target.\<close>

definition deadline_ok :: "conn_deadline \<Rightarrow> bool" where
  "deadline_ok d \<longleftrightarrow> (\<forall>t. dl_target d = Some t \<longrightarrow> dl_sleep d \<le> t)"

lemma deadline_arm_ok: "deadline_ok (deadline_arm d now after)"
  by (simp add: deadline_ok_def deadline_arm_def Let_def)

lemma poll_expired_eager:
  assumes "deadline_ok d" and "\<forall>now s t. fires now t \<and> s \<le> t \<longrightarrow> fires now s"
    and "poll_expired fires now d = (r, d')"
  shows "r = (case dl_target d of None \<Rightarrow> False | Some t \<Rightarrow> fires now t)
    \<and> deadline_ok d' \<and> dl_target d' = dl_target d \<and> dl_tick d' = dl_tick d"
proof (cases "dl_target d")
  case None
  with assms show ?thesis by (simp add: poll_expired_def)
next
  case (Some t)
  with assms(1) have le: "dl_sleep d \<le> t" by (simp add: deadline_ok_def)
  have "expired_loop fires now t (dl_sleep d) =
      (fires now t, if fires now (dl_sleep d) then t else dl_sleep d)"
    using le assms(2) by (auto simp: expired_loop.simps [of fires now t])
  with Some assms(3) le show ?thesis by (auto simp: poll_expired_def deadline_ok_def)
qed

lemma lazy_run_eager:
  assumes "\<forall>now s t. fires now t \<and> s \<le> t \<longrightarrow> fires now s" and "deadline_ok d"
  shows "lazy_run fires d ops = eager_run fires (dl_tick d) (dl_target d) ops"
  using assms(2)
proof (induction ops arbitrary: d)
  case (Cons op ops)
  show ?case
  proof (cases op)
    case (Arm now after)
    with Cons.IH [OF deadline_arm_ok, of d now after] show ?thesis
      by (simp add: deadline_arm_def Let_def split: if_splits)
  next
    case Disarm
    with Cons.IH [of "deadline_disarm d"] show ?thesis by (simp add: deadline_disarm_def deadline_ok_def)
  next
    case (PollAt now)
    obtain r d' where p: "poll_expired fires now d = (r, d')" by (cases "poll_expired fires now d")
    from poll_expired_eager [OF Cons.prems assms(1) p] Cons.IH [of d'] p PollAt show ?thesis by simp
  qed
qed simp

text \<open>C17. Arming lazily is invisible: for any sequence of arming, disarming and polling, the deadline that
  touches its timer only for an earlier target reports exactly what one that resets its timer on
  every arm reports.  All that is used of the runtime's timer is that a timer set no later than one
  that has elapsed has elapsed too.\<close>

theorem lazy_deadline_is_eager:
  assumes "\<forall>now s t. fires now t \<and> s \<le> t \<longrightarrow> fires now s"
  shows "lazy_run fires (deadline_new tick now0) ops
    = eager_run fires (if tick = 0 then from_millis 1 else tick) None ops"
  using lazy_run_eager [OF assms, of "deadline_new tick now0" ops]
  by (simp add: deadline_new_def deadline_ok_def)

theorem lazy_deadline_is_eager_witness:
  "lazy_run (\<lambda>now t. t \<le> now) (deadline_new 10 0) [Arm 0 25, Arm 5 100, PollAt 40, PollAt 105, Disarm, PollAt 200]
   = eager_run (\<lambda>now t. t \<le> now) 10 None [Arm 0 25, Arm 5 100, PollAt 40, PollAt 105, Disarm, PollAt 200]"
  using lazy_deadline_is_eager [of "\<lambda>now t. t \<le> now" 10 0
      "[Arm 0 25, Arm 5 100, PollAt 40, PollAt 105, Disarm, PollAt 200]"]
  by (simp del: lazy_run.simps eager_run.simps)

lemma deadline_arm_target:
  assumes "0 < dl_tick d" and "dl_tick d < 2 ^ 64" and "after + dl_tick d \<le> 2 ^ 64"
    and "now0 + after + dl_tick d < instant_range"
  shows "\<exists>t. dl_target (deadline_arm d now0 after) = Some t \<and> now0 + after \<le> t \<and> t < now0 + after + dl_tick d"
proof -
  have b: "after \<le> round_up after (dl_tick d)" "round_up after (dl_tick d) < after + dl_tick d"
    using round_up_bounds [OF assms(1-3)] by simp_all
  then have "instant_checked_add now0 (round_up after (dl_tick d)) = Some (now0 + round_up after (dl_tick d))"
    using assms(4) by (simp add: instant_checked_add_def)
  with b show ?thesis by (simp add: deadline_arm_def Let_def)
qed

lemma expired_loop_iff:
  assumes "sleep \<le> target"
  shows "fst (expired_loop fires now target sleep) \<longleftrightarrow> fires now sleep \<and> fires now target"
  using assms by (auto simp: expired_loop.simps [of fires now target])

text \<open>A poll reports a deadline with target \<open>t\<close> expired only if \<open>t\<close> has passed, and does when every timer
  up to \<open>t\<close> has elapsed.\<close>

lemma poll_expired_target:
  assumes "deadline_ok d" and "dl_target d = Some t" and "poll_expired fires now d = (r, d')"
  shows "dl_target d' = Some t" "dl_tick d' = dl_tick d" "deadline_ok d'"
    "(\<forall>s. fires now s \<longrightarrow> s \<le> now) \<Longrightarrow> r \<Longrightarrow> t \<le> now"
    "\<forall>s. s \<le> t \<longrightarrow> fires now s \<Longrightarrow> r"
proof -
  have le: "dl_sleep d \<le> t" using assms(1,2) by (simp add: deadline_ok_def)
  note e = expired_loop_iff [OF le, of fires now]
  show "dl_target d' = Some t" "dl_tick d' = dl_tick d" "deadline_ok d'"
    using assms(2,3) le by (auto simp: poll_expired_def deadline_ok_def expired_loop.simps [of fires now t]
        split: prod.splits if_splits)
  show "t \<le> now" if "\<forall>s. fires now s \<longrightarrow> s \<le> now" "r"
    using that e assms(2,3) by (auto simp: poll_expired_def split: prod.splits)
  show r if "\<forall>s. s \<le> t \<longrightarrow> fires now s"
    using that e le assms(2,3) by (auto simp: poll_expired_def split: prod.splits)
qed

text \<open>C26. A deadline never fires early: if, after a deadline was armed for \<open>after\<close> from \<open>now0\<close>, a poll
  reports it expired, at least \<open>after\<close> has passed, whatever the timer held before; and once the
  timer is sure to have elapsed a tick after that moment, a poll reports it.\<close>

theorem deadline_never_early:
  assumes "\<forall>now t. fires now t \<longrightarrow> t \<le> now" and "0 < dl_tick d" and "dl_tick d < 2 ^ 64"
    and "after + dl_tick d \<le> 2 ^ 64" and "now0 + after + dl_tick d < instant_range"
  shows "(fst (poll_expired fires now (deadline_arm d now0 after)) \<longrightarrow> now0 + after \<le> now)
    \<and> ((\<forall>s. s \<le> now0 + after + dl_tick d \<longrightarrow> fires now s)
        \<longrightarrow> fst (poll_expired fires now (deadline_arm d now0 after)))"
proof -
  let ?d = "deadline_arm d now0 after"
  obtain t where t: "dl_target ?d = Some t" "now0 + after \<le> t" "t < now0 + after + dl_tick d"
    using deadline_arm_target [OF assms(2-)] by blast
  obtain r d' where p: "poll_expired fires now ?d = (r, d')" by (cases "poll_expired fires now ?d")
  from poll_expired_target [OF deadline_arm_ok t(1) p] assms(1) t(2,3) p show ?thesis
    by (auto intro: le_trans)
qed

theorem deadline_never_early_witness:
  "fst (poll_expired (\<lambda>now t. t \<le> now) 40 (deadline_arm (deadline_new 10 0) 0 25))
   \<and> \<not> fst (poll_expired (\<lambda>now t. t \<le> now) 20 (deadline_arm (deadline_new 10 0) 0 25))"
  using deadline_never_early [of "\<lambda>now t. t \<le> now" "deadline_new 10 0" 25 0 40]
    deadline_never_early [of "\<lambda>now t. t \<le> now" "deadline_new 10 0" 25 0 20]
  by (simp add: deadline_new_def instant_range_def)

end
