(* ===== verification/H1_Conn.thy ===== *)
theory H1_Conn
  imports H1_Io H1_Deadline H1_Write
begin

text \<open>
  \<^verbatim>\<open>src/src/conn.rs\<close>: the state machine of one connection.

  What is not code of the crate is in \<open>env\<close>: the tokenizer, the date formatter, the runtime's timer
  and the service.  A handler is the list of what its future does, in order (polling its body,
  dropping it, or reporting \<^verbatim>\<open>Pending\<close>), then its response or a panic, and where it leaves the body.
  A statement for every such script is a statement for every handler, whatever it decides on.
  Each reading of a clock takes the next of \<open>c_instants\<close> or \<open>c_clock\<close>.

  An operation returns \<open>Inl\<close> the I/O error it passes on with \<^verbatim>\<open>?\<close>, and the outer \<open>None\<close> where a poll
  of a body could panic.  Waiting on a future is polling it until it is ready.
\<close>

section \<open>Configuration and state\<close>

definition STREAM_FLUSH_BYTES :: nat where
  "STREAM_FLUSH_BYTES = 8 * 1024"

definition PIPELINE_FLUSH_BYTES :: nat where
  "PIPELINE_FLUSH_BYTES = 32 * 1024"

record conn_config =
  cfg_limits :: limits
  cfg_tick :: duration
  cfg_server_name :: "bytes option"

definition default_config :: conn_config where
  "default_config =
     \<lparr>cfg_limits = default_limits, cfg_tick = from_millis 100, cfg_server_name = None\<rparr>"

datatype disposition = KeepConn | CloseConn | UpgradeConn

datatype head_outcome = HeadReady | HeadEof | IdleTimeout | HeaderTimeout | HeadFailed nat

datatype handler_act = PollBody | DropBody | Wait

text \<open>Where a handler leaves its body: dropped with its future, inside its streamed response, or kept.\<close>

datatype retention = Released | InStream | Stashed

record handling =
  h_acts :: "handler_act list"
  h_result :: "response option"
  h_retention :: retention

record env =
  e_httparse :: httparse
  e_date :: "int \<Rightarrow> bytes"
  e_fires :: "instant \<Rightarrow> instant \<Rightarrow> bool"
  e_service :: "nat \<Rightarrow> head \<Rightarrow> handling"
  e_config :: conn_config

abbreviation e_limits :: "env \<Rightarrow> limits" where
  "e_limits env \<equiv> cfg_limits (e_config env)"

record conn =
  c_io :: io_state
  c_out :: bytes
  c_date :: date_cache
  c_deadline :: conn_deadline
  c_handler_deadline :: "conn_deadline option"
  c_body_deadline_at :: "instant option"
  c_held_in_out :: bool
  c_body :: body_state
  c_body_alive :: bool
  c_instants :: "instant list"
  c_clock :: "int list"
  c_served :: nat

type_synonym 'a conn_result = "((io_error + 'a) \<times> conn) option"

section \<open>Clocks and deadlines\<close>

definition next_instant :: "conn \<Rightarrow> instant \<times> conn" where
  "next_instant c =
     (case c_instants c of [] \<Rightarrow> (0, c) | t # ts \<Rightarrow> (t, c\<lparr>c_instants := (if ts = [] then [t] else ts)\<rparr>))"

definition next_time :: "conn \<Rightarrow> int \<times> conn" where
  "next_time c =
     (case c_clock c of [] \<Rightarrow> (0, c) | t # ts \<Rightarrow> (t, c\<lparr>c_clock := (if ts = [] then [t] else ts)\<rparr>))"

definition arm :: "duration \<Rightarrow> conn \<Rightarrow> conn" where
  "arm after c = (let (now, c) = next_instant c in c\<lparr>c_deadline := deadline_arm (c_deadline c) now after\<rparr>)"

definition disarm :: "conn \<Rightarrow> conn" where
  "disarm c = c\<lparr>c_deadline := deadline_disarm (c_deadline c)\<rparr>"

definition deadline_expired :: "env \<Rightarrow> conn \<Rightarrow> bool \<times> conn" where
  "deadline_expired env c =
     (let (now, c) = next_instant c;
          (r, d) = poll_expired (e_fires env) now (c_deadline c)
      in (r, c\<lparr>c_deadline := d\<rparr>))"

definition start_body_deadline :: "env \<Rightarrow> conn \<Rightarrow> conn" where
  "start_body_deadline env c =
     (let (now, c) = next_instant c
      in c\<lparr>c_body_deadline_at := instant_checked_add now (body_timeout (e_limits env))\<rparr>)"

definition conn_new :: "env \<Rightarrow> transport \<Rightarrow> bytes \<Rightarrow> date_cache \<Rightarrow> instant list \<Rightarrow> int list \<Rightarrow> conn" where
  "conn_new env t buffered date instants clock =
     (let tick = cfg_tick (e_config env);
          now = (case instants of [] \<Rightarrow> 0 | t # _ \<Rightarrow> t)
      in \<lparr>c_io = io_new t buffered, c_out = [], c_date = date,
          c_deadline = deadline_new tick now,
          c_handler_deadline = map_option (\<lambda>_. deadline_new tick now) (handler_timeout (e_limits env)),
          c_body_deadline_at = None, c_held_in_out = False,
          c_body = body_empty\<lparr>bs_fully_read := False\<rparr>, c_body_alive = False,
          c_instants = instants, c_clock = clock, c_served = 0\<rparr>)"

section \<open>Writing\<close>

text \<open>One poll of \<^verbatim>\<open>write_all_from\<close>: the bytes not yet accepted are kept for the next.\<close>

function write_poll :: "bytes \<Rightarrow> transport \<Rightarrow> (io_error + unit) pollable \<times> bytes \<times> transport" where
  "write_poll b t =
     (if b = [] then (case poll_flush t of (r, t) \<Rightarrow> (r, [], t))
      else
        (case poll_write b t of
           (Pending, t) \<Rightarrow> (Pending, b, t)
         | (Ready (Inl e), t) \<Rightarrow> (Ready (Inl e), b, t)
         | (Ready (Inr n), t) \<Rightarrow>
             if n = 0 then (Ready (Inl WriteZero), b, t) else write_poll (drop n b) t))"
  by pat_completeness auto
termination
  by (relation "measure (\<lambda>(b, _). length b)") auto

declare write_poll.simps [simp del]

lemma write_poll_frame:
  assumes "write_poll b t = (r, b', t')"
  shows "rd t' = rd t \<and> script_left t' \<le> script_left t \<and> (r = Pending \<longrightarrow> script_left t' < script_left t)
    \<and> (\<exists>x. b = x @ b' \<and> sent t' = sent t @ x) \<and> (r = Ready (Inr ()) \<longrightarrow> b' = [])"
  using assms
proof (induction b t rule: write_poll.induct)
  case (1 b t)
  show ?case
  proof (cases "b = []")
    case True
    obtain q t1 where q: "poll_flush t = (q, t1)" by (cases "poll_flush t")
    from poll_flush_frame [OF q] q True 1(2) show ?thesis
      by (auto simp: write_poll.simps [of "[]" t] script_left_def)
  next
    case False
    obtain q t1 where q: "poll_write b t = (q, t1)" by (cases "poll_write b t")
    note f = poll_write_frame [OF q]
    consider "q = Pending" | e where "q = Ready (Inl e)" | "q = Ready (Inr 0)"
      | n where "q = Ready (Inr (Suc n))"
      by (metis not0_implies_Suc pollable.exhaust sum.exhaust)
    then show ?thesis
    proof cases
      case Q: (4 n)
      with False q 1(2) have "write_poll (drop (Suc n) b) t1 = (r, b', t')"
        by (simp add: write_poll.simps [of b t])
      from 1(1) [OF False q [symmetric] _ _ _ this, of "Inr (Suc n)"] Q
      obtain x where x: "rd t' = rd t1" "script_left t' \<le> script_left t1"
        "r = Pending \<longrightarrow> script_left t' < script_left t1" "drop (Suc n) b = x @ b'" "sent t' = sent t1 @ x"
        "r = Ready (Inr ()) \<longrightarrow> b' = []" by auto
      have "b = (take (Suc n) b @ x) @ b'" using x(4) by (metis append.assoc append_take_drop_id)
      moreover have "sent t' = sent t @ take (Suc n) b @ x" using x(5) f Q by simp
      ultimately show ?thesis using x f Q by (auto simp: script_left_def)
    qed (use f False q 1(2) in \<open>auto simp: write_poll.simps [of b t] script_left_def\<close>)
  qed
qed

definition with_transport :: "transport \<Rightarrow> conn \<Rightarrow> conn" where
  "with_transport t c = c\<lparr>c_io := (c_io c)\<lparr>ios_io := t\<rparr>\<rparr>"

lemma clock_io [simp]:
  "c_io (snd (next_instant c)) = c_io c" "c_io (snd (next_time c)) = c_io c"
  "c_io (arm d c) = c_io c" "c_io (disarm c) = c_io c" "c_io (start_body_deadline env c) = c_io c"
  by (auto simp: next_instant_def next_time_def arm_def disarm_def start_body_deadline_def
      split: list.splits prod.splits)

lemma deadline_expired_io: "deadline_expired env c = (r, c') \<Longrightarrow> c_io c' = c_io c"
  by (auto simp: deadline_expired_def next_instant_def split: list.splits prod.splits)

text \<open>\<^verbatim>\<open>flush\<close>: each wake-up polls the deadline first, then goes on writing.\<close>

function flush_wait :: "env \<Rightarrow> bytes \<Rightarrow> conn \<Rightarrow> (io_error + unit) \<times> conn" where
  "flush_wait env b c =
     (case deadline_expired env c of (expired, c) \<Rightarrow>
        if expired then (Inl TimedOut, c)
        else
          (case write_poll b (ios_io (c_io c)) of
             (Pending, b', t) \<Rightarrow> flush_wait env b' (with_transport t c)
           | (Ready r, _, t) \<Rightarrow> (r, with_transport t c)))"
  by pat_completeness auto
termination
  by (relation "measure (\<lambda>(_, _, c). io_left (c_io c))")
     (auto simp: io_left_def with_transport_def dest!: sym [THEN deadline_expired_io] sym [THEN write_poll_frame])

declare flush_wait.simps [simp del]

definition flush :: "env \<Rightarrow> conn \<Rightarrow> (io_error + unit) \<times> conn" where
  "flush env c =
     (let c = arm (write_timeout (e_limits env)) c;
          (r, c) =
            (if c_out c = [] then
               (case deadline_expired env c of (expired, c) \<Rightarrow> (if expired then Inl TimedOut else Inr (), c))
             else flush_wait env (c_out c) c)
      in (r, (disarm c)\<lparr>c_out := []\<rparr>))"

function settle_wait :: "env \<Rightarrow> conn \<Rightarrow> (io_error + unit) \<times> conn" where
  "settle_wait env c =
     (case deadline_expired env c of (expired, c) \<Rightarrow>
        if expired then (Inl TimedOut, c)
        else
          (case io_poll_send_continue (c_io c) of
             (Pending, st) \<Rightarrow> settle_wait env (c\<lparr>c_io := st\<rparr>)
           | (Ready r, st) \<Rightarrow> (r, c\<lparr>c_io := st\<rparr>)))"
  by pat_completeness auto
termination
  by (relation "measure (\<lambda>(_, c). io_left (c_io c))")
     (auto dest!: sym [THEN deadline_expired_io] sym [THEN send_continue_frame])

declare settle_wait.simps [simp del]

definition settle_continue :: "env \<Rightarrow> conn \<Rightarrow> (io_error + unit) \<times> conn" where
  "settle_continue env c =
     (let pending = ios_pending_continue (c_io c) in
      if pending = length CONTINUE then (Inr (), c\<lparr>c_io := (c_io c)\<lparr>ios_pending_continue := 0\<rparr>\<rparr>)
      else if pending = 0 then (Inr (), c)
      else
        (let c = arm (write_timeout (e_limits env)) c;
             (r, c) = settle_wait env c
         in (r, disarm c)))"

definition current_date :: "env \<Rightarrow> conn \<Rightarrow> bytes \<times> conn" where
  "current_date env c =
     (let (now, c) = next_time c;
          (date, cache) = date_cache_get (e_date env) (c_date c) now
      in (date, c\<lparr>c_date := cache\<rparr>))"

definition write_error :: "env \<Rightarrow> version \<Rightarrow> nat \<Rightarrow> conn \<Rightarrow> conn" where
  "write_error env v st c =
     (case settle_continue env c of
        (Inl _, c) \<Rightarrow> c
      | (Inr _, c) \<Rightarrow>
          (let (date, c) = current_date env c;
               c = c\<lparr>c_out := write_head (c_out c) v \<lparr>resp_status = st, resp_headers = []\<rparr> OutNone date False\<rparr>
           in snd (flush env c)))"

section \<open>Reading a head\<close>

definition conn_has_head :: "conn \<Rightarrow> bool \<times> conn" where
  "conn_has_head c = (case has_complete_head (c_io c) of (r, st) \<Rightarrow> (r, c\<lparr>c_io := st\<rparr>))"

definition request_started :: "conn \<Rightarrow> bool" where
  "request_started c = begins_request (ios_buf (c_io c))"

lemma poll_read_more_left:
  "poll_read_more st = (r, st') \<Longrightarrow>
    io_left st' \<le> io_left st \<and> (r = Pending \<or> (\<exists>n. r = Ready (Inr (Suc n))) \<longrightarrow> io_left st' < io_left st)"
  by (auto simp: poll_read_more_def poll_read_def io_left_def script_left_def
      split: list.splits read_event.splits)

text \<open>\<open>None\<close> is the deadline, which each wake-up polls first.\<close>

function read_wait :: "env \<Rightarrow> conn \<Rightarrow> (io_error + nat) option \<times> conn" where
  "read_wait env c =
     (case deadline_expired env c of (expired, c) \<Rightarrow>
        if expired then (None, c)
        else
          (case poll_read_more (c_io c) of
             (Pending, st) \<Rightarrow> read_wait env (c\<lparr>c_io := st\<rparr>)
           | (Ready r, st) \<Rightarrow> (Some r, c\<lparr>c_io := st\<rparr>)))"
  by pat_completeness auto
termination
  by (relation "measure (\<lambda>(_, c). io_left (c_io c))")
     (auto dest!: sym [THEN deadline_expired_io] sym [THEN poll_read_more_left])

declare read_wait.simps [simp del]

lemma read_wait_left:
  "read_wait env c = (Some (Inr n), c') \<Longrightarrow> n \<noteq> 0 \<Longrightarrow> io_left (c_io c') < io_left (c_io c)"
proof (induction env c rule: read_wait.induct)
  case (1 env c)
  obtain ex c1 where e: "deadline_expired env c = (ex, c1)" by (cases "deadline_expired env c")
  obtain q st where q: "poll_read_more (c_io c1) = (q, st)" by (cases "poll_read_more (c_io c1)")
  note l = poll_read_more_left [OF q] and io = deadline_expired_io [OF e]
  from 1(2) e have ex: "\<not> ex" by (auto simp: read_wait.simps [of env c] split: if_splits)
  show ?case
  proof (cases q)
    case Pending
    with 1 e q ex have "io_left (c_io c') < io_left st" by (auto simp: read_wait.simps [of env c])
    with l io Pending show ?thesis by simp
  next
    case (Ready r)
    with 1(2) e q ex have "r = Inr n" "c' = c1\<lparr>c_io := st\<rparr>" by (simp_all add: read_wait.simps [of env c])
    with l io Ready 1(3) show ?thesis by (auto simp: gr0_conv_Suc)
  qed
qed

lemma conn_has_head_left: "conn_has_head c = (r, c') \<Longrightarrow> io_left (c_io c') = io_left (c_io c)"
  by (auto simp: conn_has_head_def has_complete_head_def Let_def io_left_def split: if_splits option.splits)

function read_loop :: "env \<Rightarrow> bool \<Rightarrow> conn \<Rightarrow> (io_error + head_outcome) \<times> conn" where
  "read_loop env started c =
     (case read_wait env c of
        (None, c) \<Rightarrow> (Inr (if started then HeaderTimeout else IdleTimeout), c)
      | (Some (Inl e), c) \<Rightarrow> if e = UnexpectedEof then (Inr HeadEof, c) else (Inl e, c)
      | (Some (Inr n), c) \<Rightarrow>
          if n = 0 then (Inr HeadEof, c)
          else
            (let buf = ios_buf (c_io c);
                 fresh_begins = begins_request (drop (length buf - min n (length buf)) buf)
             in case conn_has_head c of (complete, c) \<Rightarrow>
               if complete then (Inr HeadReady, c)
               else if length (ios_buf (c_io c)) > max_head_bytes (e_limits env)
                 then (Inr (HeadFailed 431),
                       if \<not> started \<and> fresh_begins then arm (header_timeout (e_limits env)) c else c)
               else
                 read_loop env (started \<or> fresh_begins)
                   (if \<not> started \<and> fresh_begins then arm (header_timeout (e_limits env)) c else c)))"
  by pat_completeness auto
termination
  by (relation "measure (\<lambda>(_, _, c). io_left (c_io c))")
     (auto dest!: sym [THEN read_wait_left] sym [THEN conn_has_head_left])

declare read_loop.simps [simp del]

definition read_until_head_or_idle :: "env \<Rightarrow> conn \<Rightarrow> (io_error + head_outcome) \<times> conn" where
  "read_until_head_or_idle env c =
     (case conn_has_head c of (complete, c) \<Rightarrow>
        if complete then (Inr HeadReady, c)
        else
          (case (if c_out c \<noteq> [] then flush env c else (Inr (), c)) of
             (Inl e, c) \<Rightarrow> (Inl e, c)
           | (Inr _, c) \<Rightarrow>
               (let had_bytes = request_started c;
                    c = arm (if had_bytes then header_timeout (e_limits env) else idle_timeout (e_limits env)) c
                in read_loop env had_bytes c)))"

section \<open>Handlers and streamed responses\<close>

definition poll_body :: "conn \<Rightarrow> conn option" where
  "poll_body c =
     (if c_body_alive c then
        (case poll_chunk io_vt (c_body c) (c_io c) of
           None \<Rightarrow> None
         | Some (_, s, st) \<Rightarrow> Some (c\<lparr>c_body := s, c_io := st\<rparr>))
      else Some c)"

definition drop_body :: "conn \<Rightarrow> conn" where
  "drop_body c =
     (if c_body_alive c
      then c\<lparr>c_io := body_drop io_vt (c_body c) (c_io c), c_body_alive := False\<rparr> else c)"

text \<open>One poll of a handler's future: what is left of it when it is not ready.\<close>

fun handler_poll :: "handler_act list \<Rightarrow> conn \<Rightarrow> (handler_act list option \<times> conn) option" where
  "handler_poll [] c = Some (None, c)"
| "handler_poll (Wait # acts) c = Some (Some acts, c)"
| "handler_poll (PollBody # acts) c =
     (case poll_body c of None \<Rightarrow> None | Some c \<Rightarrow> handler_poll acts c)"
| "handler_poll (DropBody # acts) c = handler_poll acts (drop_body c)"

lemma handler_poll_shorter: "handler_poll acts c = Some (Some acts', c') \<Longrightarrow> length acts' < length acts"
  by (induction acts c rule: handler_poll.induct) (auto split: option.splits)

definition handler_expired :: "env \<Rightarrow> conn \<Rightarrow> bool \<times> conn" where
  "handler_expired env c =
     (case c_handler_deadline c of
        None \<Rightarrow> (False, c)
      | Some d \<Rightarrow>
          (let (now, c) = next_instant c;
               (r, d) = poll_expired (e_fires env) now d
           in (r, c\<lparr>c_handler_deadline := Some d\<rparr>)))"

text \<open>The race of a handler with its deadlines: \<open>Some (Some status)\<close> is the deadline that won.\<close>

function wait_handler :: "env \<Rightarrow> bool \<Rightarrow> handler_act list \<Rightarrow> conn \<Rightarrow> (nat option \<times> conn) option" where
  "wait_handler env body_armed acts c =
     (case (if body_armed \<and> \<not> ios_body_finished (c_io c) then deadline_expired env c else (False, c)) of
        (expired, c) \<Rightarrow>
          if expired then Some (Some 408, c)
          else
            (case handler_poll acts c of
               None \<Rightarrow> None
             | Some (None, c) \<Rightarrow> Some (None, c)
             | Some (Some acts', c) \<Rightarrow>
                 (case handler_expired env c of (expired, c) \<Rightarrow>
                    if expired then Some (Some 503, c) else wait_handler env body_armed acts' c)))"
  by pat_completeness auto
termination
  by (relation "measure (\<lambda>(_, _, acts, _). length acts)") (auto dest: handler_poll_shorter)

declare wait_handler.simps [simp del]

fun stream_poll ::
    "stream_item list \<Rightarrow> conn \<Rightarrow> (stream_item option pollable \<times> stream_item list \<times> conn) option" where
  "stream_poll [] c = Some (Ready None, [], c)"
| "stream_poll (StreamPollsBody # items) c =
     (case poll_body c of None \<Rightarrow> None | Some c \<Rightarrow> stream_poll items c)"
| "stream_poll (StreamPending # items) c = Some (Pending, items, c)"
| "stream_poll (x # items) c = Some (Ready (Some x), items, c)"

lemma stream_poll_shorter:
  "stream_poll items c = Some (r, items', c') \<Longrightarrow>
    length items' \<le> length items \<and> (r \<noteq> Ready None \<longrightarrow> length items' < length items)"
  by (induction items c rule: stream_poll.induct) (auto split: option.splits)

text \<open>A parked stream, bounded by the body's deadline or not; the inner \<open>None\<close> is the deadline.\<close>

function stream_park ::
    "env \<Rightarrow> bool \<Rightarrow> stream_item list \<Rightarrow> conn \<Rightarrow> (stream_item option option \<times> stream_item list \<times> conn) option" where
  "stream_park env bounded items c =
     (case (if bounded \<and> \<not> ios_body_finished (c_io c) then deadline_expired env c else (False, c)) of
        (expired, c) \<Rightarrow>
          if expired then Some (None, items, c)
          else
            (case stream_poll items c of
               None \<Rightarrow> None
             | Some (Pending, items', c) \<Rightarrow> stream_park env bounded items' c
             | Some (Ready x, items', c) \<Rightarrow> Some (Some x, items', c)))"
  by pat_completeness auto
termination
  by (relation "measure (\<lambda>(_, _, items, _). length items)") (auto dest: stream_poll_shorter)

declare stream_park.simps [simp del]

definition stream_next ::
    "env \<Rightarrow> stream_item list \<Rightarrow> conn \<Rightarrow> ((io_error + stream_item option option) \<times> stream_item list \<times> conn) option" where
  "stream_next env items c =
     (case stream_poll items c of
        None \<Rightarrow> None
      | Some (Ready x, items, c) \<Rightarrow> Some (Inr (Some x), items, c)
      | Some (Pending, items, c) \<Rightarrow>
          (case (if c_out c \<noteq> [] then flush env c else (Inr (), c)) of
             (Inl e, c) \<Rightarrow> Some (Inl e, items, c)
           | (Inr _, c) \<Rightarrow>
               (case (if ios_body_finished (c_io c) then None else c_body_deadline_at c) of
                  None \<Rightarrow>
                    (case stream_park env False items c of
                       None \<Rightarrow> None | Some (x, items, c) \<Rightarrow> Some (Inr x, items, c))
                | Some at \<Rightarrow>
                    (let (now, c) = next_instant c;
                         c = arm (at - now) c
                     in case stream_park env True items c of
                          None \<Rightarrow> None | Some (x, items, c) \<Rightarrow> Some (Inr x, items, disarm c)))))"

lemma stream_park_shorter:
  "stream_park env bounded items c = Some (r, items', c') \<Longrightarrow>
    length items' \<le> length items \<and> (\<forall>x. r = Some (Some x) \<longrightarrow> length items' < length items)"
proof (induction env bounded items c rule: stream_park.induct)
  case (1 env bounded items c)
  obtain ex c1 where e: "(if bounded \<and> \<not> ios_body_finished (c_io c) then deadline_expired env c else (False, c)) = (ex, c1)"
    by (cases "if bounded \<and> \<not> ios_body_finished (c_io c) then deadline_expired env c else (False, c)")
  show ?case
  proof (cases "ex \<or> stream_poll items c1 = None")
    case True
    with 1(2) e show ?thesis by (auto simp: stream_park.simps [of env bounded items c] split: if_splits)
  next
    case False
    then obtain q items1 c2 where q: "stream_poll items c1 = Some (q, items1, c2)"
      by (cases "stream_poll items c1") auto
    note l = stream_poll_shorter [OF q]
    show ?thesis
    proof (cases q)
      case Pending
      with 1(2) e q False have "stream_park env bounded items1 c2 = Some (r, items', c')"
        by (simp add: stream_park.simps [of env bounded items c])
      from 1(1) [OF e [symmetric] _ q refl Pending refl this] False l Pending show ?thesis by auto
    next
      case (Ready x)
      with 1(2) e q False l show ?thesis by (auto simp: stream_park.simps [of env bounded items c])
    qed
  qed
qed

lemma stream_next_shorter:
  assumes "stream_next env items c = Some (Inr (Some (Some x)), items', c')"
  shows "length items' < length items"
proof (cases "stream_poll items c")
  case None
  with assms show ?thesis by (simp add: stream_next_def)
next
  case (Some p)
  then obtain q items1 c1 where q: "stream_poll items c = Some (q, items1, c1)" by (cases p) auto
  note l = stream_poll_shorter [OF q]
  show ?thesis
  proof (cases q)
    case Pending
    with assms q obtain c2 b c3 where "stream_park env b items1 c2 = Some (Some (Some x), items', c3)"
      by (auto simp: stream_next_def Let_def split: sum.splits prod.splits option.splits if_splits)
    from stream_park_shorter [OF this] l Pending show ?thesis by auto
  next
    case (Ready y)
    with assms q l show ?thesis by (auto simp: stream_next_def)
  qed
qed

text \<open>\<open>Inr True\<close> is the end of the stream, \<open>Inr False\<close> a close without one.\<close>

function stream_loop :: "env \<Rightarrow> bool \<Rightarrow> stream_item list \<Rightarrow> conn \<Rightarrow> bool conn_result" where
  "stream_loop env close_delimited items c =
     (case stream_next env items c of
        None \<Rightarrow> None
      | Some (Inl e, _, c) \<Rightarrow> Some (Inl e, c)
      | Some (Inr None, _, c) \<Rightarrow> Some (Inr False, c)
      | Some (Inr (Some None), _, c) \<Rightarrow> Some (Inr True, c)
      | Some (Inr (Some (Some x)), items, c) \<Rightarrow>
          (case x of
             StreamChunk chunk \<Rightarrow>
               (let c = c\<lparr>c_out := (if close_delimited then c_out c @ chunk else write_chunk (c_out c) chunk)\<rparr>
                in case (if length (c_out c) \<ge> STREAM_FLUSH_BYTES then flush env c else (Inr (), c)) of
                     (Inl e, c) \<Rightarrow> Some (Inl e, c)
                   | (Inr _, c) \<Rightarrow> stream_loop env close_delimited items c)
           | _ \<Rightarrow>
               (case flush env c of
                  (Inl e, c) \<Rightarrow> Some (Inl e, c)
                | (Inr _, c) \<Rightarrow> Some (Inr False, c))))"
  by pat_completeness auto
termination
  by (relation "measure (\<lambda>(_, _, items, _). length items)") (auto dest: stream_next_shorter)

declare stream_loop.simps [simp del]

section \<open>Responses\<close>

text \<open>
  What \<^verbatim>\<open>write_response\<close> settles before it writes: the status, fields and body that go out, whether
  the connection persists, is upgraded, and whether the close delimits the body.
\<close>

record response_plan =
  rp_status :: nat
  rp_headers :: header_vec
  rp_body :: response_body
  rp_keep_alive :: bool
  rp_upgrading :: bool
  rp_close_delimited :: bool

definition plan_response ::
    "env \<Rightarrow> version \<Rightarrow> response \<Rightarrow> bool \<Rightarrow> bool \<Rightarrow> bool \<Rightarrow> bool \<Rightarrow> response_plan" where
  "plan_response env v resp req_keep_alive is_head_request wants_upgrade body_consumed =
     (let upgrading = (rsp_status resp = 101 \<and> wants_upgrade \<and> body_consumed);
          keep_alive = (req_keep_alive \<and> \<not> upgrading);
          (st, headers, body, keep_alive) =
            (if \<not> is_final_status (rsp_status resp) wants_upgrade then (500, [], RespEmpty, False)
             else (rsp_status resp, rsp_headers resp, rsp_body resp, keep_alive));
          keep_alive =
            (if list_ex (\<lambda>(i, v). canonical i = Connection \<and> value_has_token v ''close'') headers
             then False else keep_alive);
          close_delimited =
            (v = Http10 \<and> (case body of RespStream _ \<Rightarrow> True | _ \<Rightarrow> False) \<and> \<not> is_head_request \<and> \<not> forbids_body_framing st);
          keep_alive = (if close_delimited then False else keep_alive);
          headers =
            (case cfg_server_name (e_config env) of
               Some name \<Rightarrow>
                 if \<not> list_ex (\<lambda>(i, _). canonical i = Server) headers
                 then headers @ [(Server, name)] else headers
             | None \<Rightarrow> headers)
      in \<lparr>rp_status = st, rp_headers = headers, rp_body = body, rp_keep_alive = keep_alive,
          rp_upgrading = upgrading, rp_close_delimited = close_delimited\<rparr>)"

definition out_body_of :: "response_body \<Rightarrow> out_body" where
  "out_body_of b =
     (case b of RespEmpty \<Rightarrow> OutNone | RespFull x \<Rightarrow> OutFixed x | RespStream _ \<Rightarrow> OutChunked)"

text \<open>\<open>Inr False\<close> is the early \<^verbatim>\<open>return Ok(Close)\<close> of a stream that failed or stalled.\<close>

definition write_body :: "env \<Rightarrow> response_plan \<Rightarrow> bool \<Rightarrow> conn \<Rightarrow> bool conn_result" where
  "write_body env p is_head_request c =
     (if \<not> is_head_request \<and> \<not> rp_upgrading p \<and> \<not> forbids_body_framing (rp_status p) then
        (case rp_body p of
           RespEmpty \<Rightarrow> Some (Inr True, c)
         | RespFull b \<Rightarrow> Some (Inr True, c\<lparr>c_out := c_out c @ b\<rparr>)
         | RespStream items \<Rightarrow>
             (case flush env c of
                (Inl e, c) \<Rightarrow> Some (Inl e, c)
              | (Inr _, c) \<Rightarrow>
                  (let restart = c_held_in_out c;
                       c = c\<lparr>c_held_in_out := False\<rparr>;
                       c = (if restart then start_body_deadline env c else c)
                   in case stream_loop env (rp_close_delimited p) items c of
                        None \<Rightarrow> None
                      | Some (Inl e, c) \<Rightarrow> Some (Inl e, c)
                      | Some (Inr False, c) \<Rightarrow> Some (Inr False, c)
                      | Some (Inr True, c) \<Rightarrow>
                          Some (Inr True,
                            if rp_close_delimited p then c
                            else c\<lparr>c_out := write_last_chunk (c_out c) []\<rparr>))))
      else Some (Inr True, c))"

definition finish_response :: "env \<Rightarrow> response_plan \<Rightarrow> conn \<Rightarrow> (io_error + disposition) \<times> conn" where
  "finish_response env p c =
     (let (coalesce, c) =
        (if rp_keep_alive p \<and> \<not> rp_upgrading p \<and> length (c_out c) < PIPELINE_FLUSH_BYTES
         then conn_has_head c else (False, c))
      in case (if \<not> coalesce then flush env c else (Inr (), c)) of
           (Inl e, c) \<Rightarrow> (Inl e, c)
         | (Inr _, c) \<Rightarrow>
             (Inr (if rp_upgrading p then UpgradeConn else if rp_keep_alive p then KeepConn else CloseConn), c))"

definition write_response ::
    "env \<Rightarrow> version \<Rightarrow> response \<Rightarrow> bool \<Rightarrow> bool \<Rightarrow> bool \<Rightarrow> bool \<Rightarrow> conn \<Rightarrow> disposition conn_result" where
  "write_response env v resp req_keep_alive is_head_request wants_upgrade body_consumed c =
     (let p = plan_response env v resp req_keep_alive is_head_request wants_upgrade body_consumed in
      case settle_continue env c of
        (Inl e, c) \<Rightarrow> Some (Inl e, c)
      | (Inr _, c) \<Rightarrow>
          (let (date, c) = current_date env c;
               c = c\<lparr>c_out := write_head_for (c_out c) v \<lparr>resp_status = rp_status p, resp_headers = rp_headers p\<rparr>
                       (out_body_of (rp_body p)) date (rp_keep_alive p) is_head_request\<rparr>
           in case write_body env p is_head_request c of
                None \<Rightarrow> None
              | Some (Inl e, c) \<Rightarrow> Some (Inl e, c)
              | Some (Inr False, c) \<Rightarrow> Some (Inr CloseConn, c)
              | Some (Inr True, c) \<Rightarrow> Some (finish_response env p c)))"

section \<open>Serving\<close>

record upgraded =
  up_io :: transport
  up_buffered :: bytes

datatype serve_step = NextRequest | Served "upgraded option" | ServeFailed io_error | HandlerPanicked

text \<open>\<^verbatim>\<open>into_parts\<close>: \<open>None\<close> while a body still shares the transport.\<close>

definition into_parts :: "conn \<Rightarrow> (transport \<times> bytes) option" where
  "into_parts c = (if c_body_alive c then None else Some (ios_io (c_io c), ios_buf (c_io c)))"

definition wants_upgrade :: "head \<Rightarrow> bool" where
  "wants_upgrade h \<longleftrightarrow>
     head_version h = Http11 \<and> count h Upgrade > 0 \<and> connection_has_token h ''upgrade''"

definition expects_continue :: "head \<Rightarrow> bool" where
  "expects_continue h \<longleftrightarrow>
     head_version h = Http11 \<and>
     (case rev (all_values h Expect) of
        [] \<Rightarrow> False
      | v # _ \<Rightarrow> eq_ignore_ascii_case v ''100-continue'')"

text \<open>
  A new body, the service's call, and the responses held back for it: \<open>Some bytes\<close> are held while
  the handler is first polled.
\<close>

definition begin_request :: "env \<Rightarrow> head \<Rightarrow> body_kind \<Rightarrow> conn \<Rightarrow> (io_error + bytes option) \<times> conn" where
  "begin_request env h kind c =
     (let st = (c_io c)\<lparr>ios_pending_continue := (if expects_continue h then length CONTINUE else 0),
                        ios_body_finished := False\<rparr>;
          (s, st) = body_new io_vt kind st (expects_continue h) (e_limits env);
          c = c\<lparr>c_io := st, c_body := s, c_body_alive := True, c_served := c_served c + 1\<rparr>;
          c = (start_body_deadline env c)\<lparr>c_held_in_out := False\<rparr>
      in if c_out c \<noteq> [] then
           (if expects_continue h then
              (case flush env c of
                 (Inl e, c) \<Rightarrow> (Inl e, c)
               | (Inr _, c) \<Rightarrow> (Inr None, start_body_deadline env c))
            else (Inr (Some (c_out c)), c\<lparr>c_out := []\<rparr>))
         else (Inr None, c))"

text \<open>How the first poll of a handler with responses held back went.\<close>

datatype first_poll = FirstReady | FirstPending "handler_act list" | FirstFailed io_error | FirstPanic

definition first_poll_held ::
    "env \<Rightarrow> handling \<Rightarrow> bytes option \<Rightarrow> conn \<Rightarrow> (first_poll \<times> conn) option" where
  "first_poll_held env h held c =
     (case held of
        None \<Rightarrow> Some (FirstPending (h_acts h), c)
      | Some bytes \<Rightarrow>
          (case handler_poll (h_acts h) c of
             None \<Rightarrow> None
           | Some (None, c) \<Rightarrow>
               (case h_result h of
                  None \<Rightarrow> Some (FirstPanic, c\<lparr>c_io := write_now bytes (c_io c)\<rparr>)
                | Some _ \<Rightarrow> Some (FirstReady, c\<lparr>c_out := bytes @ c_out c, c_held_in_out := True\<rparr>))
           | Some (Some acts, c) \<Rightarrow>
               (case flush env (c\<lparr>c_out := bytes @ c_out c\<rparr>) of
                  (Inl e, c) \<Rightarrow> Some (FirstFailed e, c)
                | (Inr _, c) \<Rightarrow> Some (FirstPending acts, start_body_deadline env c))))"

definition arm_handler :: "env \<Rightarrow> conn \<Rightarrow> conn" where
  "arm_handler env c =
     (case (handler_timeout (e_limits env), c_handler_deadline c) of
        (Some after, Some d) \<Rightarrow>
          (let (now, c) = next_instant c in c\<lparr>c_handler_deadline := Some (deadline_arm d now after)\<rparr>)
      | _ \<Rightarrow> c)"

definition race_handler :: "env \<Rightarrow> handler_act list \<Rightarrow> conn \<Rightarrow> (nat option \<times> conn) option" where
  "race_handler env acts c =
     (let c = arm_handler env c;
          body_armed = (\<not> ios_body_finished (c_io c) \<and> c_body_deadline_at c \<noteq> None);
          c = (case (if body_armed then c_body_deadline_at c else None) of
                 Some at \<Rightarrow> (let (now, c) = next_instant c in arm (at - now) c)
               | None \<Rightarrow> c)
      in case wait_handler env body_armed acts c of
           None \<Rightarrow> None
         | Some (outcome, c) \<Rightarrow>
             (let c = (if body_armed then disarm c else c)
              in Some (outcome, c\<lparr>c_handler_deadline := map_option deadline_disarm (c_handler_deadline c)\<rparr>)))"

text \<open>The future is dropped, and with it the body unless the handler put it elsewhere.\<close>

definition release_future :: "retention \<Rightarrow> conn \<Rightarrow> conn" where
  "release_future r c = (if r = Released then drop_body c else c)"

definition release_stream :: "retention \<Rightarrow> conn \<Rightarrow> conn" where
  "release_stream r c = (if r = InStream then drop_body c else c)"

definition serve_response :: "env \<Rightarrow> head \<Rightarrow> handling \<Rightarrow> response \<Rightarrow> conn \<Rightarrow> (serve_step \<times> conn) option" where
  "serve_response env h hg resp c =
     (let body_consumed = was_fully_read (c_body c);
          keep_alive = (is_keep_alive h \<and> body_consumed)
      in case write_response env (head_version h) resp keep_alive (head_method h = Head)
                (wants_upgrade h) body_consumed c of
           None \<Rightarrow> None
         | Some (Inl e, c) \<Rightarrow> Some (ServeFailed e, release_stream (h_retention hg) c)
         | Some (Inr d, c) \<Rightarrow>
             (let c = release_stream (h_retention hg) c in
              Some (case d of
                      KeepConn \<Rightarrow> (NextRequest, c)
                    | CloseConn \<Rightarrow> (Served None, c)
                    | UpgradeConn \<Rightarrow>
                        (case into_parts c of
                           None \<Rightarrow> (Served None, c)
                         | Some (t, b) \<Rightarrow> (Served (Some \<lparr>up_io = t, up_buffered = b\<rparr>), c)))))"

definition serve_handler :: "env \<Rightarrow> head \<Rightarrow> handling \<Rightarrow> bytes option \<Rightarrow> conn \<Rightarrow> (serve_step \<times> conn) option" where
  "serve_handler env h hg held c =
     (case first_poll_held env hg held c of
        None \<Rightarrow> None
      | Some (FirstFailed e, c) \<Rightarrow> Some (ServeFailed e, c)
      | Some (FirstPanic, c) \<Rightarrow> Some (HandlerPanicked, c)
      | Some (first, c) \<Rightarrow>
          (case (case first of
                   FirstPending acts \<Rightarrow> race_handler env acts c
                 | _ \<Rightarrow> Some (None, c)) of
             None \<Rightarrow> None
           | Some (Some st, c) \<Rightarrow>
               (let c = (if h_retention hg = Stashed then c else drop_body c)
                in Some (Served None, write_error env (head_version h) st c))
           | Some (None, c) \<Rightarrow>
               (case h_result hg of
                  None \<Rightarrow> Some (HandlerPanicked, c)
                | Some resp \<Rightarrow> serve_response env h hg resp (release_future (h_retention hg) c))))"

definition serve_request :: "env \<Rightarrow> head \<Rightarrow> body_kind \<Rightarrow> conn \<Rightarrow> (serve_step \<times> conn) option" where
  "serve_request env h kind c =
     (let handling = e_service env (c_served c) h in
      case begin_request env h kind c of
        (Inl e, c) \<Rightarrow> Some (ServeFailed e, c)
      | (Inr held, c) \<Rightarrow> serve_handler env h handling held c)"

text \<open>One turn of the loop of \<^verbatim>\<open>serve\<close>.\<close>

definition serve_head :: "env \<Rightarrow> conn \<Rightarrow> (serve_step \<times> conn) option" where
  "serve_head env c =
     (case split_head (c_io c) of
        None \<Rightarrow> Some (Served None, c)
      | Some (head_bytes, st) \<Rightarrow>
          (let c = c\<lparr>c_io := st\<rparr> in
           case parse_head_region (e_httparse env) head_bytes (length head_bytes) (e_limits env) of
             Inl e \<Rightarrow> Some (Served None, write_error env Http11 (parse_error_status e) c)
           | Inr h \<Rightarrow>
               (case decide h (e_limits env) of
                  None \<Rightarrow> None
                | Some (Inl e) \<Rightarrow>
                    Some (Served None, write_error env (head_version h) (framing_error_status e) c)
                | Some (Inr kind) \<Rightarrow> serve_request env h kind c)))"

definition serve_turn :: "env \<Rightarrow> conn \<Rightarrow> (serve_step \<times> conn) option" where
  "serve_turn env c =
     (case read_until_head_or_idle env c of
        (Inl e, c) \<Rightarrow> Some (ServeFailed e, c)
      | (Inr HeadEof, c) \<Rightarrow> Some (Served None, c)
      | (Inr IdleTimeout, c) \<Rightarrow> Some (Served None, c)
      | (Inr HeaderTimeout, c) \<Rightarrow> Some (Served None, write_error env Http11 408 c)
      | (Inr (HeadFailed st), c) \<Rightarrow> Some (Served None, write_error env Http11 st c)
      | (Inr HeadReady, c) \<Rightarrow> serve_head env c)"

text \<open>\<^verbatim>\<open>serve\<close>, whose value \<open>None\<close> is a panic of the crate's own code or not returning.\<close>

partial_function (option) serve :: "env \<Rightarrow> conn \<Rightarrow> (serve_step \<times> conn) option" where
  "serve env c =
     (case serve_turn env c of
        None \<Rightarrow> None
      | Some (step, c') \<Rightarrow> if step = NextRequest then serve env c' else Some (step, c'))"

declare serve.simps [code]

end
