(* ===== verification/H1_Serve.thy ===== *)
theory H1_Serve
  imports H1_Conn
begin

text \<open>
  What the connection of \<^verbatim>\<open>src/src/conn.rs\<close> guarantees: what each operation leaves alone, that no poll
  panics and every loop returns, that the requests served are exactly the messages of the stream,
  and that responses go out whole and in order.
\<close>

section \<open>Operations that only write\<close>

definition quiet :: "conn \<Rightarrow> conn \<Rightarrow> bool" where
  "quiet c c' \<longleftrightarrow>
     only_writes (c_io c) (c_io c') \<and> rd (ios_io (c_io c')) = rd (ios_io (c_io c))
     \<and> c_body c' = c_body c \<and> c_body_alive c' = c_body_alive c \<and> c_served c' = c_served c"

lemma quiet_refl [simp]: "quiet c c"
  by (simp add: quiet_def only_writes_def)

lemma quiet_trans [trans]: "quiet c c1 \<Longrightarrow> quiet c1 c2 \<Longrightarrow> quiet c c2"
  by (simp add: quiet_def only_writes_def)

named_theorems quiet_intros

lemma next_instant_quiet: "next_instant c = (t, c') \<Longrightarrow> quiet c c' \<and> c_out c' = c_out c \<and> c_io c' = c_io c"
  by (auto simp: next_instant_def quiet_def only_writes_def split: list.splits)

lemma arm_quiet [quiet_intros]: "quiet c (arm d c)"
  and arm_out [simp]: "c_out (arm d c) = c_out c"
  by (auto simp: arm_def next_instant_def quiet_def only_writes_def split: prod.splits list.splits)

lemma disarm_quiet [quiet_intros]: "quiet c (disarm c)"
  and disarm_out [simp]: "c_out (disarm c) = c_out c"
  by (simp_all add: disarm_def quiet_def only_writes_def)

lemma start_body_deadline_quiet [quiet_intros]: "quiet c (start_body_deadline env c)"
  and start_body_deadline_out [simp]: "c_out (start_body_deadline env c) = c_out c"
  by (auto simp: start_body_deadline_def next_instant_def quiet_def only_writes_def split: prod.splits list.splits)

lemma arm_handler_quiet [quiet_intros]: "quiet c (arm_handler env c)"
  and arm_handler_out [simp]: "c_out (arm_handler env c) = c_out c"
  and arm_handler_io [simp]: "c_io (arm_handler env c) = c_io c"
  by (auto simp: arm_handler_def next_instant_def quiet_def only_writes_def
      split: prod.splits list.splits option.splits)

lemma set_out_quiet [simp]: "quiet c (c'\<lparr>c_out := x\<rparr>) = quiet c c'" "quiet (c\<lparr>c_out := x\<rparr>) c' = quiet c c'"
  by (simp_all add: quiet_def)

lemma set_held_quiet [simp]:
  "quiet c (c'\<lparr>c_held_in_out := x\<rparr>) = quiet c c'" "quiet (c\<lparr>c_held_in_out := x\<rparr>) c' = quiet c c'"
  "quiet c (c'\<lparr>c_handler_deadline := y\<rparr>) = quiet c c'"
  by (simp_all add: quiet_def)

lemma deadline_expired_quiet:
  "deadline_expired env c = (r, c') \<Longrightarrow> quiet c c' \<and> c_out c' = c_out c \<and> c_io c' = c_io c"
  by (auto simp: deadline_expired_def next_instant_def quiet_def only_writes_def split: prod.splits list.splits)

lemma handler_expired_quiet:
  "handler_expired env c = (r, c') \<Longrightarrow> quiet c c' \<and> c_out c' = c_out c \<and> c_io c' = c_io c"
  by (auto simp: handler_expired_def next_instant_def quiet_def only_writes_def
      split: prod.splits list.splits option.splits)

lemma current_date_quiet:
  "current_date env c = (d, c') \<Longrightarrow> quiet c c' \<and> c_out c' = c_out c \<and> c_io c' = c_io c"
  by (auto simp: current_date_def next_time_def quiet_def only_writes_def split: prod.splits list.splits)

lemma with_transport_quiet:
  "rd t = rd (ios_io (c_io c)) \<Longrightarrow> quiet c (with_transport t c)"
  by (simp add: quiet_def only_writes_def with_transport_def)

text \<open>What the peer has been sent or is about to be.\<close>

definition wire :: "conn \<Rightarrow> bytes" where
  "wire c = sent (ios_io (c_io c)) @ c_out c"

lemma flush_wait_frame:
  assumes "flush_wait env b c = (r, c')"
  shows "quiet c c' \<and> c_out c' = c_out c \<and> ios_pending_continue (c_io c') = ios_pending_continue (c_io c)
    \<and> (\<exists>x. prefix x b \<and> sent (ios_io (c_io c')) = sent (ios_io (c_io c)) @ x \<and> (r = Inr () \<longrightarrow> x = b))"
  using assms
proof (induction env b c rule: flush_wait.induct)
  case (1 env b c)
  obtain ex c1 where e: "deadline_expired env c = (ex, c1)" by (cases "deadline_expired env c")
  note q = deadline_expired_quiet [OF e]
  obtain p b1 t where w: "write_poll b (ios_io (c_io c1)) = (p, b1, t)"
    by (cases "write_poll b (ios_io (c_io c1))") auto
  from write_poll_frame [OF w] obtain x where x: "rd t = rd (ios_io (c_io c1))" "b = x @ b1"
    "sent t = sent (ios_io (c_io c1)) @ x" "p = Ready (Inr ()) \<longrightarrow> b1 = []" by auto
  note wt = with_transport_quiet [OF x(1)]
  show ?case
  proof (cases ex)
    case True
    with 1(2) e q show ?thesis by (auto simp: flush_wait.simps [of env b c])
  next
    case False
    show ?thesis
    proof (cases p)
      case Pending
      with 1(2) e w False have "flush_wait env b1 (with_transport t c1) = (r, c')"
        by (simp add: flush_wait.simps [of env b c])
      from 1(1) [OF e [symmetric] False w [symmetric] Pending refl this] obtain y where
        "quiet (with_transport t c1) c'" "c_out c' = c_out (with_transport t c1)"
        "ios_pending_continue (c_io c') = ios_pending_continue (c_io (with_transport t c1))"
        "prefix y b1" "sent (ios_io (c_io c')) = sent (ios_io (c_io (with_transport t c1))) @ y"
        "r = Inr () \<longrightarrow> y = b1" by auto
      with x q wt show ?thesis
        by (intro conjI exI [of _ "x @ y"]) (auto simp: with_transport_def intro: quiet_trans)
    next
      case (Ready z)
      with 1(2) e w False have "r = z" "c' = with_transport t c1"
        by (simp_all add: flush_wait.simps [of env b c])
      with x q wt Ready show ?thesis
        by (intro conjI exI [of _ x]) (auto simp: with_transport_def intro: quiet_trans)
    qed
  qed
qed

text \<open>A flush sends all that was owed, in order, or fails having sent a prefix of it.\<close>

lemma flush_frame:
  assumes "flush env c = (r, c')"
  shows "quiet c c' \<and> c_out c' = [] \<and> ios_pending_continue (c_io c') = ios_pending_continue (c_io c)
    \<and> prefix (wire c') (wire c) \<and> prefix (sent (ios_io (c_io c))) (wire c') \<and> (r = Inr () \<longrightarrow> wire c' = wire c)"
proof -
  define c1 where "c1 = arm (write_timeout (e_limits env)) c"
  have q1: "quiet c c1" "c_out c1 = c_out c" "c_io c1 = c_io c" by (simp_all add: c1_def arm_quiet)
  show ?thesis
  proof (cases "c_out c = []")
    case True
    obtain ex c2 where e: "deadline_expired env c1 = (ex, c2)" by (cases "deadline_expired env c1")
    note q2 = deadline_expired_quiet [OF e]
    from assms True e q1 have "c' = (disarm c2)\<lparr>c_out := []\<rparr>"
      by (auto simp: flush_def c1_def [symmetric] Let_def)
    with q1 q2 True disarm_quiet [of c2] show ?thesis
      by (auto simp: wire_def disarm_def intro: quiet_trans)
  next
    case False
    obtain r2 c2 where w: "flush_wait env (c_out c1) c1 = (r2, c2)" by (cases "flush_wait env (c_out c1) c1")
    from flush_wait_frame [OF w] obtain x where x: "quiet c1 c2" "prefix x (c_out c1)"
      "ios_pending_continue (c_io c2) = ios_pending_continue (c_io c1)"
      "sent (ios_io (c_io c2)) = sent (ios_io (c_io c1)) @ x" "r2 = Inr () \<longrightarrow> x = c_out c1" by auto
    from assms False w q1 have "r = r2" "c' = (disarm c2)\<lparr>c_out := []\<rparr>"
      by (auto simp: flush_def c1_def [symmetric] Let_def)
    with x q1 disarm_quiet [of c2] show ?thesis
      by (auto simp: wire_def disarm_def intro: quiet_trans)
  qed
qed

lemma settle_wait_frame:
  assumes "settle_wait env c = (r, c')"
  shows "quiet c c' \<and> c_out c' = c_out c
    \<and> ios_pending_continue (c_io c') \<le> ios_pending_continue (c_io c)
    \<and> (r = Inr () \<longrightarrow> ios_pending_continue (c_io c') = 0)
    \<and> (ios_pending_continue (c_io c) \<le> length CONTINUE \<longrightarrow>
        sent (ios_io (c_io c')) @ drop (length CONTINUE - ios_pending_continue (c_io c')) CONTINUE
        = sent (ios_io (c_io c)) @ drop (length CONTINUE - ios_pending_continue (c_io c)) CONTINUE)"
  using assms
proof (induction env c rule: settle_wait.induct)
  case (1 env c)
  obtain ex c1 where e: "deadline_expired env c = (ex, c1)" by (cases "deadline_expired env c")
  note q = deadline_expired_quiet [OF e]
  obtain p st where w: "io_poll_send_continue (c_io c1) = (p, st)" by (cases "io_poll_send_continue (c_io c1)")
  note f = send_continue_frame [OF w]
  have qs: "quiet c1 (c1\<lparr>c_io := st\<rparr>)" using f by (simp add: quiet_def)
  show ?case
  proof (cases ex)
    case True
    with 1(2) e q show ?thesis by (auto simp: settle_wait.simps [of env c])
  next
    case False
    show ?thesis
    proof (cases p)
      case Pending
      with 1(2) e w False have "settle_wait env (c1\<lparr>c_io := st\<rparr>) = (r, c')"
        by (simp add: settle_wait.simps [of env c])
      from 1(1) [OF e [symmetric] False w [symmetric] Pending this] f q qs show ?thesis
        by (auto intro: quiet_trans)
    next
      case (Ready z)
      with 1(2) e w False have "r = z" "c' = c1\<lparr>c_io := st\<rparr>"
        by (simp_all add: settle_wait.simps [of env c])
      with f q qs Ready show ?thesis by (auto intro: quiet_trans)
    qed
  qed
qed

definition continue_rest :: "nat \<Rightarrow> bytes" where
  "continue_rest n = (if n = length CONTINUE then [] else drop (length CONTINUE - n) CONTINUE)"

lemma settle_continue_frame:
  assumes "settle_continue env c = (r, c')" and "ios_pending_continue (c_io c) \<le> length CONTINUE"
  shows "quiet c c' \<and> c_out c' = c_out c
    \<and> ios_pending_continue (c_io c') \<le> ios_pending_continue (c_io c)
    \<and> prefix (sent (ios_io (c_io c))) (sent (ios_io (c_io c')))
    \<and> (r = Inr () \<longrightarrow> ios_pending_continue (c_io c') = 0
        \<and> sent (ios_io (c_io c')) = sent (ios_io (c_io c)) @ continue_rest (ios_pending_continue (c_io c)))"
proof -
  define c1 where "c1 = arm (write_timeout (e_limits env)) c"
  have q1: "quiet c c1" "c_out c1 = c_out c" "c_io c1 = c_io c" by (simp_all add: c1_def arm_quiet)
  obtain r2 c2 where w: "settle_wait env c1 = (r2, c2)" by (cases "settle_wait env c1")
  note f = settle_wait_frame [OF w]
  let ?p = "ios_pending_continue (c_io c)"
  consider "?p = length CONTINUE" | "?p = 0" | "0 < ?p" "?p < length CONTINUE" using assms(2) by linarith
  then show ?thesis
  proof cases
    case 1
    with assms(1) show ?thesis
      by (auto simp: settle_continue_def quiet_def only_writes_def continue_rest_def)
  next
    case 2
    moreover have "length CONTINUE \<noteq> 0" by (simp add: CONTINUE_def)
    ultimately show ?thesis using assms(1) by (auto simp: settle_continue_def continue_rest_def)
  next
    case 3
    then have o: "r = r2" "c' = disarm c2"
      using assms(1) w by (auto simp: settle_continue_def c1_def [symmetric] Let_def)
    have le: "ios_pending_continue (c_io c2) \<le> ?p" using f q1 by simp
    have eq: "sent (ios_io (c_io c2)) @ drop (length CONTINUE - ios_pending_continue (c_io c2)) CONTINUE
        = sent (ios_io (c_io c)) @ drop (length CONTINUE - ?p) CONTINUE"
      using f q1 assms(2) by simp
    have "drop (length CONTINUE - ios_pending_continue (c_io c2)) CONTINUE
        = drop (?p - ios_pending_continue (c_io c2)) (drop (length CONTINUE - ?p) CONTINUE)"
      using le assms(2) by simp
    then have "sent (ios_io (c_io c2))
        = sent (ios_io (c_io c)) @ take (?p - ios_pending_continue (c_io c2)) (drop (length CONTINUE - ?p) CONTINUE)"
      using eq by (metis append.assoc append_same_eq append_take_drop_id)
    with o f q1 3 disarm_quiet [of c2] show ?thesis
      by (auto simp: continue_rest_def intro: quiet_trans)
  qed
qed

section \<open>The body across a request\<close>

lemma tracks_cong:
  assumes "ios_buf st' = ios_buf st" and "rd (ios_io st') = rd (ios_io st)"
  shows "io.tracks stream b s st' = io.tracks stream b s st"
  using assms by (simp add: io.tracks_def io.unread_def io.ended_def io.ahead_def io_coming_def)

definition on_body :: "bytes \<Rightarrow> body_kind \<Rightarrow> conn \<Rightarrow> bool" where
  "on_body stream k c \<longleftrightarrow>
     scan_ok (c_io c) \<and> bs_kind (c_body c) = k \<and> ios_pending_continue (c_io c) \<le> length CONTINUE
     \<and> (\<exists>b. io.tracks stream b (c_body c) (c_io c))"

text \<open>An operation on a connection whose handler may read its body: a body that is done stays as it is.\<close>

definition carries :: "bytes \<Rightarrow> body_kind \<Rightarrow> conn \<Rightarrow> conn \<Rightarrow> bool" where
  "carries stream k c c' \<longleftrightarrow>
     on_body stream k c' \<and> (bs_done (c_body c) \<longrightarrow> c_body c' = c_body c) \<and> c_served c' = c_served c"

lemma carries_refl: "on_body stream k c \<Longrightarrow> carries stream k c c"
  by (simp add: carries_def)

lemma carries_trans: "carries stream k c c1 \<Longrightarrow> carries stream k c1 c2 \<Longrightarrow> carries stream k c c2"
  by (simp add: carries_def)

lemma quiet_carries:
  assumes "quiet c c'" and "on_body stream k c" and "ios_pending_continue (c_io c') \<le> ios_pending_continue (c_io c)"
  shows "carries stream k c c'"
  using assms tracks_cong [of "c_io c'" "c_io c"] scan_ok_cong [of "c_io c'" "c_io c"]
  by (auto simp: carries_def on_body_def quiet_def only_writes_def)

lemma carries_on_body: "carries stream k c c' \<Longrightarrow> on_body stream k c'"
  by (simp add: carries_def)

text \<open>A handler sends nothing but what is owed of the interim response.\<close>

definition due :: "conn \<Rightarrow> bytes" where
  "due c = sent (ios_io (c_io c)) @ drop (length CONTINUE - ios_pending_continue (c_io c)) CONTINUE"

definition steady :: "conn \<Rightarrow> conn \<Rightarrow> bool" where
  "steady c c' \<longleftrightarrow>
     due c' = due c \<and> c_out c' = c_out c
     \<and> ios_pending_continue (c_io c') \<le> ios_pending_continue (c_io c)"

lemma steady_refl [simp]: "steady c c"
  by (simp add: steady_def)

lemma steady_trans: "steady c c1 \<Longrightarrow> steady c1 c2 \<Longrightarrow> steady c c2"
  by (simp add: steady_def)

definition reads_on :: "bytes \<Rightarrow> body_kind \<Rightarrow> conn \<Rightarrow> conn \<Rightarrow> bool" where
  "reads_on stream k c c' \<longleftrightarrow> carries stream k c c' \<and> steady c c'"

lemma reads_on_refl: "on_body stream k c \<Longrightarrow> reads_on stream k c c"
  by (simp add: reads_on_def carries_refl)

lemma reads_on_trans: "reads_on stream k c c1 \<Longrightarrow> reads_on stream k c1 c2 \<Longrightarrow> reads_on stream k c c2"
  by (auto simp: reads_on_def intro: carries_trans steady_trans)

lemma reads_on_body: "reads_on stream k c c' \<Longrightarrow> on_body stream k c'"
  by (simp add: reads_on_def carries_def)

lemma quiet_reads_on:
  assumes "quiet c c'" and "c_io c' = c_io c" and "c_out c' = c_out c" and "on_body stream k c"
  shows "reads_on stream k c c'"
  using quiet_carries [OF assms(1,4)] assms(2,3) by (simp add: reads_on_def steady_def due_def)

lemma drop_body_reads_on:
  assumes "on_body stream k c"
  shows "reads_on stream k c (drop_body c)"
proof (cases "c_body_alive c")
  case True
  let ?st = "body_drop io_vt (c_body c) (c_io c)"
  have "scan_ok ?st" using assms scanned.notify_keeps by (simp add: on_body_def body_drop_def)
  moreover have "ios_buf ?st = ios_buf (c_io c)" "ios_io ?st = ios_io (c_io c)"
    "ios_pending_continue ?st = ios_pending_continue (c_io c)"
    by (simp_all add: body_drop_def notify_finished_def io_body_finished_def)
  ultimately show ?thesis using assms True tracks_cong [of ?st "c_io c"]
    by (auto simp: reads_on_def carries_def on_body_def drop_body_def steady_def due_def)
next
  case False
  with assms show ?thesis by (simp add: drop_body_def reads_on_refl)
qed

lemma poll_body_reads_on:
  assumes "on_body stream k c"
  shows "\<exists>c'. poll_body c = Some c' \<and> reads_on stream k c c'"
proof (cases "c_body_alive c \<and> \<not> bs_done (c_body c)")
  case True
  from assms obtain b where t: "io.tracks stream b (c_body c) (c_io c)" by (auto simp: on_body_def)
  with True have "io.unread stream b (c_body c) (c_io c)" by (auto simp: io.tracks_def io.ended_def)
  from io.poll_chunk_returns [OF this] obtain r s st where
    p: "poll_chunk io_vt (c_body c) (c_io c) = Some (r, s, st)"
    "io.tracks stream (b @ chunk_of (Some r)) s st" "bs_kind s = bs_kind (c_body c)" by blast
  have "scan_ok st" using scanned.poll_chunk_keeps p(1) assms by (auto simp: on_body_def)
  moreover have "owes (due c) (ios_pending_continue (c_io c)) (c_io c)"
    using assms by (simp add: owes_def on_body_def due_def)
  from owed.poll_chunk_keeps [OF this p(1)] have "ios_pending_continue st \<le> ios_pending_continue (c_io c)"
    "sent (ios_io st) @ drop (length CONTINUE - ios_pending_continue st) CONTINUE = due c"
    by (simp_all add: owes_def)
  ultimately show ?thesis using True p assms
    by (auto simp: poll_body_def reads_on_def carries_def on_body_def steady_def due_def)
next
  case False
  with assms show ?thesis by (auto simp: poll_body_def io.poll_chunk_done intro: reads_on_refl)
qed

lemma handler_poll_reads_on:
  assumes "on_body stream k c"
  shows "\<exists>r c'. handler_poll acts c = Some (r, c') \<and> reads_on stream k c c'"
  using assms
proof (induction acts c rule: handler_poll.induct)
  case (3 acts c)
  from poll_body_reads_on [OF 3(2)] obtain c1 where p: "poll_body c = Some c1" "reads_on stream k c c1" by blast
  from 3(1) [OF p(1) reads_on_body [OF p(2)]] p show ?case by (auto intro: reads_on_trans)
next
  case (4 acts c)
  note d = drop_body_reads_on [OF 4(2)]
  from 4(1) [OF reads_on_body [OF d]] d show ?case by (auto intro: reads_on_trans)
qed (auto simp: reads_on_refl)

lemma wait_handler_reads_on:
  assumes "on_body stream k c"
  shows "\<exists>r c'. wait_handler env armed acts c = Some (r, c') \<and> reads_on stream k c c'"
  using assms
proof (induction env armed acts c rule: wait_handler.induct)
  case (1 env armed acts c)
  obtain ex c1 where e: "(if armed \<and> \<not> ios_body_finished (c_io c) then deadline_expired env c else (False, c)) = (ex, c1)"
    by (cases "if armed \<and> \<not> ios_body_finished (c_io c) then deadline_expired env c else (False, c)")
  have r1: "reads_on stream k c c1"
    using e deadline_expired_quiet [of env c ex c1] quiet_reads_on [of c c1] reads_on_refl 1(2)
    by (auto split: if_splits)
  note w = wait_handler.simps [of env armed acts c, unfolded e prod.case]
  show ?case
  proof (cases ex)
    case True
    with w r1 show ?thesis by simp
  next
    case False
    from handler_poll_reads_on [OF reads_on_body [OF r1], of acts] obtain p c2 where
      p: "handler_poll acts c1 = Some (p, c2)" "reads_on stream k c1 c2" by blast
    show ?thesis
    proof (cases p)
      case None
      with w False p r1 show ?thesis by (auto intro: reads_on_trans)
    next
      case (Some acts')
      obtain ex2 c3 where e2: "handler_expired env c2 = (ex2, c3)" by (cases "handler_expired env c2")
      have r3: "reads_on stream k c c3"
        using handler_expired_quiet [OF e2] quiet_reads_on [of c2 c3] p(2) r1
        by (blast intro: reads_on_trans reads_on_body)
      show ?thesis
      proof (cases ex2)
        case True
        with w False p Some e2 r3 show ?thesis by auto
      next
        case ex2: False
        from 1(1) [OF e [symmetric] False p(1) refl Some e2 [symmetric] ex2 reads_on_body [OF r3]]
        obtain r c' where "wait_handler env armed acts' c3 = Some (r, c')" "reads_on stream k c3 c'" by blast
        with w False p Some e2 ex2 r3 show ?thesis by (auto intro: reads_on_trans)
      qed
    qed
  qed
qed

lemma race_handler_reads_on:
  assumes "on_body stream k c"
  shows "\<exists>r c'. race_handler env acts c = Some (r, c') \<and> reads_on stream k c c'"
proof -
  define c1 where "c1 = arm_handler env c"
  define armed where "armed \<longleftrightarrow> \<not> ios_body_finished (c_io c1) \<and> c_body_deadline_at c1 \<noteq> None"
  define c2 where "c2 = (case (if armed then c_body_deadline_at c1 else None) of
                 Some at \<Rightarrow> (let (now, c) = next_instant c1 in arm (at - now) c)
               | None \<Rightarrow> c1)"
  have r1: "reads_on stream k c c1"
    using arm_handler_quiet quiet_reads_on [OF _ _ _ assms] by (simp add: c1_def)
  obtain t c0 where n: "next_instant c1 = (t, c0)" by (cases "next_instant c1")
  have "reads_on stream k c1 c0" using next_instant_quiet [OF n] quiet_reads_on reads_on_body [OF r1] by blast
  moreover have "reads_on stream k c0 (arm d c0)" if "on_body stream k c0" for d
    using arm_quiet quiet_reads_on that by simp
  ultimately have r2: "reads_on stream k c1 c2"
    using n reads_on_refl [OF reads_on_body [OF r1]]
    by (auto simp: c2_def split: option.splits intro: reads_on_trans dest: reads_on_body)
  from wait_handler_reads_on [OF reads_on_body [OF r2], of env armed acts] obtain r c3 where
    w: "wait_handler env armed acts c2 = Some (r, c3)" "reads_on stream k c2 c3" by blast
  define c4 where "c4 = (if armed then disarm c3 else c3)"
  have r4: "reads_on stream k c3 c4"
    using disarm_quiet quiet_reads_on reads_on_refl reads_on_body [OF w(2)] by (simp add: c4_def)
  have "reads_on stream k c4 (c4\<lparr>c_handler_deadline := map_option deadline_disarm (c_handler_deadline c4)\<rparr>)"
    using quiet_reads_on reads_on_body [OF r4] by simp
  moreover have "race_handler env acts c
      = Some (r, c4\<lparr>c_handler_deadline := map_option deadline_disarm (c_handler_deadline c4)\<rparr>)"
    unfolding race_handler_def Let_def c1_def [symmetric] armed_def [symmetric] c2_def [unfolded Let_def, symmetric]
    by (simp add: w c4_def)
  ultimately show ?thesis using r1 r2 w(2) r4 by (blast intro: reads_on_trans)
qed

section \<open>Streamed responses\<close>

text \<open>What a streamed body yields: its chunks up to the end, or up to a failure.\<close>

fun stream_result :: "stream_item list \<Rightarrow> bytes list \<times> bool" where
  "stream_result [] = ([], True)"
| "stream_result (StreamChunk x # items) = (x # fst (stream_result items), snd (stream_result items))"
| "stream_result (StreamError # items) = ([], False)"
| "stream_result (_ # items) = stream_result items"

definition yields :: "stream_item list \<Rightarrow> stream_item option \<Rightarrow> stream_item list \<Rightarrow> bool" where
  "yields items r items' \<longleftrightarrow>
     (case r of
        None \<Rightarrow> stream_result items = ([], True)
      | Some (StreamChunk x) \<Rightarrow>
          stream_result items = (x # fst (stream_result items'), snd (stream_result items'))
      | Some y \<Rightarrow> y = StreamError \<and> stream_result items = ([], False))"

lemma yields_cong: "stream_result items1 = stream_result items \<Longrightarrow> yields items1 x items' = yields items x items'"
  unfolding yields_def by (auto split: option.split stream_item.split)

lemma stream_poll_reads_on:
  assumes "on_body stream k c"
  shows "\<exists>r items' c'. stream_poll items c = Some (r, items', c') \<and> reads_on stream k c c'
    \<and> (case r of Pending \<Rightarrow> stream_result items' = stream_result items | Ready x \<Rightarrow> yields items x items')"
  using assms
proof (induction items c rule: stream_poll.induct)
  case (2 items c)
  from poll_body_reads_on [OF 2(2)] obtain c1 where p: "poll_body c = Some c1" "reads_on stream k c c1" by blast
  from 2(1) [OF p(1) reads_on_body [OF p(2)]] obtain r items' c' where
    q: "stream_poll items c1 = Some (r, items', c')" "reads_on stream k c1 c'"
    "case r of Pending \<Rightarrow> stream_result items' = stream_result items | Ready x \<Rightarrow> yields items x items'" by blast
  have "reads_on stream k c c'" using p(2) q(2) by (rule reads_on_trans)
  with p q show ?case by (cases r) (auto simp: yields_def split: option.splits stream_item.splits)
qed (auto simp: yields_def reads_on_refl)

lemma stream_park_reads_on:
  assumes "on_body stream k c"
  shows "\<exists>r items' c'. stream_park env bounded items c = Some (r, items', c') \<and> reads_on stream k c c'
    \<and> (case r of None \<Rightarrow> True | Some x \<Rightarrow> yields items x items')"
  using assms
proof (induction env bounded items c rule: stream_park.induct)
  case (1 env bounded items c)
  obtain ex c1 where e: "(if bounded \<and> \<not> ios_body_finished (c_io c) then deadline_expired env c else (False, c)) = (ex, c1)"
    by (cases "if bounded \<and> \<not> ios_body_finished (c_io c) then deadline_expired env c else (False, c)")
  have r1: "reads_on stream k c c1"
    using e deadline_expired_quiet [of env c ex c1] quiet_reads_on [of c c1] reads_on_refl 1(2)
    by (auto split: if_splits)
  note w = stream_park.simps [of env bounded items c, unfolded e prod.case]
  show ?case
  proof (cases ex)
    case True
    with w r1 show ?thesis by auto
  next
    case False
    from stream_poll_reads_on [OF reads_on_body [OF r1], of items] obtain p items1 c2 where
      p: "stream_poll items c1 = Some (p, items1, c2)" "reads_on stream k c1 c2"
      "case p of Pending \<Rightarrow> stream_result items1 = stream_result items | Ready x \<Rightarrow> yields items x items1" by blast
    have r2: "reads_on stream k c c2" using r1 p(2) by (rule reads_on_trans)
    show ?thesis
    proof (cases p)
      case Pending
      from 1(1) [OF e [symmetric] False p(1) refl Pending refl reads_on_body [OF r2]] obtain r items' c' where
        q: "stream_park env bounded items1 c2 = Some (r, items', c')" "reads_on stream k c2 c'"
        "case r of None \<Rightarrow> True | Some x \<Rightarrow> yields items1 x items'" by blast
      have "reads_on stream k c c'" using r2 q(2) by (rule reads_on_trans)
      with w False p q Pending yields_cong [of items1 items _ items'] show ?thesis
        by (auto split: option.splits)
    next
      case (Ready x)
      with w False p r2 show ?thesis by auto
    qed
  qed
qed

text \<open>While a response is written the interim response is settled, and a body writes nothing.\<close>

definition writing :: "bytes \<Rightarrow> body_kind \<Rightarrow> conn \<Rightarrow> bool" where
  "writing stream k c \<longleftrightarrow> on_body stream k c \<and> ios_pending_continue (c_io c) = 0"

lemma reads_on_writing:
  assumes "reads_on stream k c c'" and "ios_pending_continue (c_io c) = 0"
  shows "writing stream k c' \<and> wire c' = wire c \<and> sent (ios_io (c_io c')) = sent (ios_io (c_io c))"
  using assms by (auto simp: reads_on_def carries_def steady_def writing_def wire_def due_def)

lemma flush_writing:
  assumes "flush env c = (r, c')" and "writing stream k c"
  shows "carries stream k c c' \<and> writing stream k c' \<and> prefix (wire c') (wire c)
    \<and> prefix (sent (ios_io (c_io c))) (wire c') \<and> (r = Inr () \<longrightarrow> wire c' = wire c)"
  using flush_frame [OF assms(1)] quiet_carries [of c c' stream k] assms(2)
  by (auto simp: writing_def carries_def)

definition frame :: "bool \<Rightarrow> bytes \<Rightarrow> bytes" where
  "frame close_delimited x = (if close_delimited then x else write_chunk [] x)"

lemma write_chunk_append: "write_chunk out x = out @ write_chunk [] x"
  by (simp add: write_chunk_def write_hex_eq)

lemma stream_next_writing:
  assumes "writing stream k c"
  shows "\<exists>r items' c'. stream_next env items c = Some (r, items', c') \<and> carries stream k c c' \<and> writing stream k c'
    \<and> prefix (wire c') (wire c) \<and> prefix (sent (ios_io (c_io c))) (wire c')
    \<and> (case r of
         Inl _ \<Rightarrow> True
       | Inr None \<Rightarrow> wire c' = wire c
       | Inr (Some x) \<Rightarrow> wire c' = wire c \<and> yields items x items')"
proof -
  from assms have ob: "on_body stream k c" and p0: "ios_pending_continue (c_io c) = 0" by (simp_all add: writing_def)
  from stream_poll_reads_on [OF ob, of items] obtain p items1 c1 where
    p: "stream_poll items c = Some (p, items1, c1)" "reads_on stream k c c1"
    "case p of Pending \<Rightarrow> stream_result items1 = stream_result items | Ready x \<Rightarrow> yields items x items1" by blast
  note w1 = reads_on_writing [OF p(2) p0]
  have ca1: "carries stream k c c1" using p(2) by (simp add: reads_on_def)
  have s1: "prefix (sent (ios_io (c_io c))) (wire c)" by (simp add: wire_def)
  show ?thesis
  proof (cases p)
    case (Ready x)
    with p w1 ca1 s1 show ?thesis by (auto simp: stream_next_def)
  next
    case Pending
    obtain r2 c2 where f: "(if c_out c1 \<noteq> [] then flush env c1 else (Inr (), c1)) = (r2, c2)"
      by (cases "if c_out c1 \<noteq> [] then flush env c1 else (Inr (), c1)")
    have f2: "carries stream k c1 c2 \<and> writing stream k c2 \<and> prefix (wire c2) (wire c1)
        \<and> prefix (sent (ios_io (c_io c1))) (wire c2) \<and> (r2 = Inr () \<longrightarrow> wire c2 = wire c1)"
    proof (cases "c_out c1 = []")
      case True
      with f w1 show ?thesis by (auto simp: writing_def wire_def intro: carries_refl)
    next
      case False
      with f w1 flush_writing [of env c1 r2 c2 stream k] show ?thesis by simp
    qed
    have ca2: "carries stream k c c2" using ca1 f2 carries_trans by blast
    show ?thesis
    proof (cases r2)
      case (Inl e)
      with p Pending f f2 w1 ca2 show ?thesis by (auto simp: stream_next_def split: if_splits)
    next
      case (Inr u)
      have wr2: "wire c2 = wire c" using f2 w1 Inr by simp
      have p2: "ios_pending_continue (c_io c2) = 0" and ob2: "on_body stream k c2"
        using f2 by (simp_all add: writing_def)
      obtain b c3 where b: "stream_next env items c =
          (case stream_park env b items1 c3 of None \<Rightarrow> None
           | Some (x, items, c) \<Rightarrow> Some (Inr x, items, if b then disarm c else c))"
        and r3: "reads_on stream k c2 c3"
      proof (cases "if ios_body_finished (c_io c2) then None else c_body_deadline_at c2")
        case None
        have "stream_next env items c =
          (case stream_park env False items1 c2 of None \<Rightarrow> None
           | Some (x, items, c) \<Rightarrow> Some (Inr x, items, if False then disarm c else c))"
          using p(1) Pending f Inr None by (simp add: stream_next_def split: option.split)
        then show ?thesis using that reads_on_refl [OF ob2] by blast
      next
        case (Some at)
        obtain now c0 where n: "next_instant c2 = (now, c0)" by (cases "next_instant c2")
        have r0: "reads_on stream k c2 c0" using next_instant_quiet [OF n] quiet_reads_on ob2 by blast
        then have "reads_on stream k c0 (arm (at - now) c0)" using arm_quiet quiet_reads_on reads_on_body by simp
        then have "reads_on stream k c2 (arm (at - now) c0)" using r0 reads_on_trans by blast
        moreover have "stream_next env items c =
          (case stream_park env True items1 (arm (at - now) c0) of None \<Rightarrow> None
           | Some (x, items, c) \<Rightarrow> Some (Inr x, items, if True then disarm c else c))"
          using p(1) Pending f Inr Some n by (simp add: stream_next_def split: option.split)
        ultimately show ?thesis using that by blast
      qed
      from stream_park_reads_on [OF reads_on_body [OF r3], of env b items1] obtain x items' c4 where
        k: "stream_park env b items1 c3 = Some (x, items', c4)" "reads_on stream k c3 c4"
        "case x of None \<Rightarrow> True | Some x \<Rightarrow> yields items1 x items'" by blast
      define c5 where "c5 = (if b then disarm c4 else c4)"
      have "reads_on stream k c4 c5"
        using disarm_quiet quiet_reads_on reads_on_refl reads_on_body [OF k(2)] by (simp add: c5_def)
      then have r5: "reads_on stream k c2 c5" using r3 k(2) reads_on_trans by blast
      have "carries stream k c c5" using ca2 r5 carries_trans by (auto simp: reads_on_def)
      with reads_on_writing [OF r5 p2] wr2 s1 k(3) p(3) Pending yields_cong [of items1 items _ items'] b k(1)
      show ?thesis by (auto simp: c5_def [symmetric] split: option.splits)
    qed
  qed
qed

abbreviation frames :: "bool \<Rightarrow> bytes list \<Rightarrow> bytes" where
  "frames cd xs \<equiv> concat (map (frame cd) xs)"

text \<open>
  What a streamed body puts on the wire: every chunk framed, in order, when it ends; a prefix of the
  chunks when it fails or stalls; part of that when the transport fails.
\<close>

definition streamed :: "bool \<Rightarrow> stream_item list \<Rightarrow> (io_error + bool) \<Rightarrow> conn \<Rightarrow> conn \<Rightarrow> bool" where
  "streamed cd items r c c' \<longleftrightarrow>
     (case r of
        Inr True \<Rightarrow> snd (stream_result items) \<and> wire c' = wire c @ frames cd (fst (stream_result items))
      | Inr False \<Rightarrow> (\<exists>ys. prefix ys (fst (stream_result items)) \<and> wire c' = wire c @ frames cd ys)
      | Inl _ \<Rightarrow> prefix (wire c') (wire c @ frames cd (fst (stream_result items))))"

lemma streamed_chunk:
  assumes "streamed cd items' r c1 c'" and "stream_result items = (x # fst (stream_result items'), snd (stream_result items'))"
    and "wire c1 = wire c @ frame cd x"
  shows "streamed cd items r c c'"
proof (cases r)
  case (Inl e)
  with assms show ?thesis by (simp add: streamed_def)
next
  case (Inr b)
  show ?thesis
  proof (cases b)
    case True
    with Inr assms show ?thesis by (simp add: streamed_def)
  next
    case False
    with Inr assms obtain ys where "prefix ys (fst (stream_result items'))" "wire c' = wire c1 @ frames cd ys"
      by (auto simp: streamed_def)
    with Inr False assms(2,3) show ?thesis
      by (auto simp: streamed_def intro!: exI [of _ "x # ys"])
  qed
qed

lemma stream_loop_writing:
  assumes "writing stream k c"
  shows "\<exists>r c'. stream_loop env cd items c = Some (r, c') \<and> carries stream k c c' \<and> writing stream k c'
    \<and> streamed cd items r c c'"
  using assms
proof (induction env cd items c rule: stream_loop.induct)
  case (1 env cd items c)
  from stream_next_writing [OF 1(2), of env items] obtain r items1 c1 where
    n: "stream_next env items c = Some (r, items1, c1)" "carries stream k c c1" "writing stream k c1"
    "prefix (wire c1) (wire c)"
    and y: "case r of Inl _ \<Rightarrow> True | Inr None \<Rightarrow> wire c1 = wire c
      | Inr (Some x) \<Rightarrow> wire c1 = wire c \<and> yields items x items1" by blast
  note lp = stream_loop.simps [of env cd items c, unfolded n(1) option.case prod.case]
  consider (err) e where "r = Inl e" | (stall) "r = Inr None" | (fin) "r = Inr (Some None)"
    | (chunk) x where "r = Inr (Some (Some (StreamChunk x)))" | (fail) "r = Inr (Some (Some StreamError))"
    | (other) z where "r = Inr (Some (Some z))" "\<forall>x. z \<noteq> StreamChunk x" "z \<noteq> StreamError"
  proof (cases r)
    case (Inr z)
    show thesis
    proof (cases z)
      case (Some y)
      show thesis
      proof (cases y)
        case (Some w)
        with Inr \<open>z = Some y\<close> that show thesis by (cases w) auto
      qed (use Inr Some that in auto)
    qed (use Inr that in auto)
  qed (use that in auto)
  then show ?case
  proof cases
    case err
    with lp n show ?thesis by (auto simp: streamed_def intro: prefix_order.trans)
  next
    case stall
    with lp n y show ?thesis by (auto simp: streamed_def intro!: exI [of _ "[]"])
  next
    case fin
    with lp n y show ?thesis by (auto simp: streamed_def yields_def)
  next
    case other
    with y show ?thesis by (cases z) (auto simp: yields_def)
  next
    case fail
    obtain r2 c2 where f: "flush env c1 = (r2, c2)" by (cases "flush env c1")
    from flush_writing [OF f n(3)] n(2) have f2: "carries stream k c c2" "writing stream k c2"
      "prefix (wire c2) (wire c1)" "r2 = Inr () \<longrightarrow> wire c2 = wire c1" by (auto intro: carries_trans)
    from fail y have w1: "wire c1 = wire c" by simp
    show ?thesis
    proof (cases r2)
      case (Inl e)
      with lp fail f f2 w1 show ?thesis by (auto simp: streamed_def intro: prefix_order.trans)
    next
      case (Inr u)
      with lp fail f f2 w1 show ?thesis by (auto simp: streamed_def intro!: exI [of _ "[]"])
    qed
  next
    case (chunk x)
    define c2 where "c2 = c1\<lparr>c_out := (if cd then c_out c1 @ x else write_chunk (c_out c1) x)\<rparr>"
    have w2: "wire c2 = wire c @ frame cd x"
      using chunk y by (simp add: c2_def wire_def frame_def write_chunk_append [of "c_out c1"])
    have wr2: "writing stream k c2" using n(3) by (simp add: writing_def on_body_def c2_def)
    have ca2: "carries stream k c c2" using n(2) by (simp add: carries_def on_body_def c2_def)
    obtain r3 c3 where f: "(if length (c_out c2) \<ge> STREAM_FLUSH_BYTES then flush env c2 else (Inr (), c2)) = (r3, c3)"
      by (cases "if length (c_out c2) \<ge> STREAM_FLUSH_BYTES then flush env c2 else (Inr (), c2)")
    have f3: "carries stream k c c3 \<and> writing stream k c3 \<and> prefix (wire c3) (wire c2)
        \<and> (r3 = Inr () \<longrightarrow> wire c3 = wire c2)"
    proof (cases "length (c_out c2) \<ge> STREAM_FLUSH_BYTES")
      case True
      with f flush_writing [of env c2 r3 c3 stream k] wr2 ca2 show ?thesis by (auto intro: carries_trans)
    next
      case False
      with f wr2 ca2 show ?thesis by auto
    qed
    from chunk y have yl: "stream_result items = (x # fst (stream_result items1), snd (stream_result items1))"
      by (simp add: yields_def)
    note lp2 = lp [unfolded chunk sum.case option.case stream_item.case Let_def c2_def [symmetric] f prod.case]
    show ?thesis
    proof (cases r3)
      case (Inl e)
      have "streamed cd items (Inl e) c c3" using f3 w2 yl by (auto simp: streamed_def intro: prefix_order.trans)
      with lp2 Inl f3 show ?thesis by auto
    next
      case (Inr u)
      have "stream_loop env cd items c = stream_loop env cd items1 c3" using lp2 Inr by simp
      moreover from Inr f3 w2 have w3: "wire c3 = wire c @ frame cd x" by simp
      moreover obtain r c' where "stream_loop env cd items1 c3 = Some (r, c')" "carries stream k c3 c'"
          "writing stream k c'" "streamed cd items1 r c3 c'"
        using 1(1) [OF n(1) refl chunk refl refl refl refl c2_def f [symmetric] Inr] f3 by blast
      ultimately show ?thesis using f3 streamed_chunk [OF _ yl w3] by (auto intro: carries_trans)
    qed
  qed
qed

section \<open>A whole response\<close>

lemma write_head_for_append: "write_head_for out v resp b date ka hr = out @ write_head_for [] v resp b date ka hr"
  by (simp add: write_head_for_eq)

lemma write_last_chunk_append: "write_last_chunk out [] = out @ write_last_chunk [] []"
  by (simp add: write_last_chunk_def)

text \<open>The bytes after the head of a response that was written to its end.\<close>

definition payload :: "response_plan \<Rightarrow> bool \<Rightarrow> bytes" where
  "payload p is_head_request =
     (if \<not> is_head_request \<and> \<not> rp_upgrading p \<and> \<not> forbids_body_framing (rp_status p) then
        (case rp_body p of
           RespEmpty \<Rightarrow> []
         | RespFull b \<Rightarrow> b
         | RespStream items \<Rightarrow>
             frames (rp_close_delimited p) (fst (stream_result items))
             @ (if rp_close_delimited p then [] else write_last_chunk [] []))
      else [])"

lemma write_body_writing:
  assumes "writing stream k c"
  shows "\<exists>r c'. write_body env p hr c = Some (r, c') \<and> carries stream k c c' \<and> writing stream k c'
    \<and> (r = Inr True \<longrightarrow> wire c' = wire c @ payload p hr)"
proof (cases "\<not> hr \<and> \<not> rp_upgrading p \<and> \<not> forbids_body_framing (rp_status p)")
  case False
  with assms show ?thesis by (auto simp: write_body_def payload_def writing_def carries_refl)
next
  case True
  have out: "carries stream k c (c\<lparr>c_out := x\<rparr>) \<and> writing stream k (c\<lparr>c_out := x\<rparr>)" for x
    using assms by (simp add: writing_def carries_def on_body_def)
  show ?thesis
  proof (cases "rp_body p")
    case RespEmpty
    with True assms show ?thesis by (auto simp: write_body_def payload_def writing_def carries_refl)
  next
    case (RespFull b)
    with True out show ?thesis by (auto simp: write_body_def payload_def wire_def)
  next
    case (RespStream items)
    obtain r1 c1 where f: "flush env c = (r1, c1)" by (cases "flush env c")
    note f1 = flush_writing [OF f assms]
    define c2 where "c2 = (if c_held_in_out c1 then start_body_deadline env (c1\<lparr>c_held_in_out := False\<rparr>)
        else c1\<lparr>c_held_in_out := False\<rparr>)"
    have wb: "write_body env p hr c =
        (case r1 of Inl e \<Rightarrow> Some (Inl e, c1)
         | Inr _ \<Rightarrow>
            (case stream_loop env (rp_close_delimited p) items c2 of
               None \<Rightarrow> None
             | Some (Inl e, c) \<Rightarrow> Some (Inl e, c)
             | Some (Inr False, c) \<Rightarrow> Some (Inr False, c)
             | Some (Inr True, c) \<Rightarrow>
                 Some (Inr True, if rp_close_delimited p then c else c\<lparr>c_out := write_last_chunk (c_out c) []\<rparr>)))"
      using True RespStream f by (simp add: write_body_def c2_def Let_def split: sum.split)
    show ?thesis
    proof (cases r1)
      case (Inl e)
      with wb f1 show ?thesis by auto
    next
      case (Inr u)
      have "quiet c1 c2" using start_body_deadline_quiet [of "c1\<lparr>c_held_in_out := False\<rparr>" env] by (simp add: c2_def)
      moreover have io2: "c_io c2 = c_io c1" "wire c2 = wire c1" by (simp_all add: c2_def wire_def)
      ultimately have w2: "writing stream k c2" "carries stream k c c2"
        using f1 quiet_carries [of c1 c2 stream k] by (auto simp: writing_def carries_def)
      from stream_loop_writing [OF w2(1), of env "rp_close_delimited p" items] obtain r c3 where
        l: "stream_loop env (rp_close_delimited p) items c2 = Some (r, c3)" "carries stream k c2 c3"
        "writing stream k c3" "streamed (rp_close_delimited p) items r c2 c3" by blast
      have ca: "carries stream k c c3" using w2(2) l(2) by (rule carries_trans)
      consider e where "r = Inl e" | "r = Inr False" | "r = Inr True" by (cases r) auto
      then show ?thesis
      proof cases
        case R: 3
        define c4 where "c4 = (if rp_close_delimited p then c3 else c3\<lparr>c_out := write_last_chunk (c_out c3) []\<rparr>)"
        have "carries stream k c c4" "writing stream k c4"
          using ca l(3) by (simp_all add: c4_def carries_def writing_def on_body_def)
        moreover have "wire c4 = wire c @ payload p hr"
        proof -
          have "wire c3 = wire c @ frames (rp_close_delimited p) (fst (stream_result items))"
            using l(4) R f1 Inr io2 by (simp add: streamed_def)
          moreover have "wire c4 = wire c3 @ (if rp_close_delimited p then [] else write_last_chunk [] [])"
            by (simp add: c4_def wire_def write_last_chunk_append [of "c_out c3"])
          ultimately show ?thesis using True RespStream by (simp add: payload_def)
        qed
        moreover have "write_body env p hr c = Some (Inr True, c4)" using wb l(1) R Inr by (simp add: c4_def)
        ultimately show ?thesis by auto
      qed (use wb l ca Inr in auto)
    qed
  qed
qed

definition blanks :: "nat \<Rightarrow> bytes" where
  "blanks n = concat (replicate n CRLF)"

lemma take_blank_pairs: "take (blank_pairs xs * 2) xs = blanks (blank_pairs xs)"
  by (induction xs rule: blank_pairs.induct) (auto simp: blanks_def)

lemma conn_has_head_frame:
  assumes "scan_ok (c_io c)" and "conn_has_head c = (r, c')"
  shows "\<exists>n. scan_ok (c_io c') \<and> upcoming (c_io c) = blanks n @ upcoming (c_io c')
    \<and> c' = c\<lparr>c_io := c_io c'\<rparr> \<and> ios_io (c_io c') = ios_io (c_io c)
    \<and> ios_pending_continue (c_io c') = ios_pending_continue (c_io c)
    \<and> (r \<longrightarrow> ios_head_end (c_io c') = find_head_end (ios_buf (c_io c')) \<and> find_head_end (ios_buf (c_io c')) \<noteq> None)"
proof -
  obtain st where h: "has_complete_head (c_io c) = (r, st)" and c': "c' = c\<lparr>c_io := st\<rparr>"
    using assms(2) by (auto simp: conn_has_head_def split: prod.splits)
  let ?b = "ios_buf (c_io c)"
  have "?b = blanks (blank_pairs ?b) @ drop (blank_pairs ?b * 2) ?b"
    using take_blank_pairs [of ?b] by (metis append_take_drop_id)
  with has_complete_head_cursor [OF assms(1) h] c' show ?thesis
    by (intro exI [of _ "blank_pairs ?b"]) (auto simp: upcoming_def io_coming_def)
qed

text \<open>
  Where an operation leaves the input: the body is where it was, or further on, and of what is ahead
  at most empty lines are gone.
\<close>

definition leaves :: "bytes \<Rightarrow> body_kind \<Rightarrow> conn \<Rightarrow> conn \<Rightarrow> bool" where
  "leaves stream k c c' \<longleftrightarrow>
     (\<exists>c1 n. carries stream k c c1 \<and> c_body c' = c_body c1 \<and> c_served c' = c_served c1 \<and> scan_ok (c_io c') \<and> ios_pending_continue (c_io c') \<le> length CONTINUE
        \<and> upcoming (c_io c1) = blanks n @ upcoming (c_io c'))"

lemma carries_leaves: "carries stream k c c' \<Longrightarrow> leaves stream k c c'"
  unfolding leaves_def
  by (rule exI [of _ c'], rule exI [of _ 0]) (auto simp: carries_def on_body_def blanks_def)

lemma leaves_trans_left: "carries stream k c c1 \<Longrightarrow> leaves stream k c1 c2 \<Longrightarrow> leaves stream k c c2"
  unfolding leaves_def by (meson carries_trans)

lemma leaves_quiet:
  assumes "leaves stream k c c1" and "quiet c1 c2" and "ios_pending_continue (c_io c2) \<le> length CONTINUE"
  shows "leaves stream k c c2"
  using assms scan_ok_cong [of "c_io c2" "c_io c1"] unfolding leaves_def
  by (fastforce simp: quiet_def only_writes_def upcoming_def io_coming_def)

lemma finish_response_leaves:
  assumes "writing stream k c" and "finish_response env p c = (r, c')"
  shows "leaves stream k c c'
    \<and> (r = Inr KeepConn \<longrightarrow> rp_keep_alive p \<and> \<not> rp_upgrading p \<and> wire c' = wire c
        \<and> ios_pending_continue (c_io c') = 0)
    \<and> (r = Inr UpgradeConn \<longrightarrow> rp_upgrading p \<and> carries stream k c c' \<and> wire c' = wire c \<and> c_out c' = [])
    \<and> (\<forall>d. r = Inr d \<and> \<not> rp_keep_alive p \<and> \<not> rp_upgrading p \<longrightarrow> d = CloseConn \<and> wire c' = wire c)"
proof -
  obtain co c1 where co: "(if rp_keep_alive p \<and> \<not> rp_upgrading p \<and> length (c_out c) < PIPELINE_FLUSH_BYTES
      then conn_has_head c else (False, c)) = (co, c1)"
    by (cases "if rp_keep_alive p \<and> \<not> rp_upgrading p \<and> length (c_out c) < PIPELINE_FLUSH_BYTES
      then conn_has_head c else (False, c)")
  have ob: "on_body stream k c" "scan_ok (c_io c)" "ios_pending_continue (c_io c) = 0"
    using assms(1) by (simp_all add: writing_def on_body_def)
  have l1: "leaves stream k c c1 \<and> wire c1 = wire c \<and> ios_pending_continue (c_io c1) = 0"
  proof (cases "rp_keep_alive p \<and> \<not> rp_upgrading p \<and> length (c_out c) < PIPELINE_FLUSH_BYTES")
    case True
    with co have "conn_has_head c = (co, c1)" by simp
    from conn_has_head_frame [OF ob(2) this] obtain n where h: "scan_ok (c_io c1)"
      "upcoming (c_io c) = blanks n @ upcoming (c_io c1)" "c1 = c\<lparr>c_io := c_io c1\<rparr>"
      "ios_io (c_io c1) = ios_io (c_io c)" "ios_pending_continue (c_io c1) = ios_pending_continue (c_io c)" by blast
    have f: "c_body c1 = c_body c" "c_body_alive c1 = c_body_alive c" "c_served c1 = c_served c" "c_out c1 = c_out c"
      using h(3) by (metis conn.select_convs conn.surjective conn.update_convs(1))+
    have "leaves stream k c c1"
      unfolding leaves_def using h f ob carries_refl [OF ob(1)] by (intro exI [of _ c] exI [of _ n]) simp
    with h f ob show ?thesis by (simp add: wire_def)
  next
    case False
    with co ob have "c1 = c" by auto
    with ob show ?thesis by (simp add: carries_leaves carries_refl)
  qed
  obtain r2 c2 where f: "(if \<not> co then flush env c1 else (Inr (), c1)) = (r2, c2)"
    by (cases "if \<not> co then flush env c1 else (Inr (), c1)")
  have up: "rp_upgrading p \<longrightarrow> carries stream k c c2 \<and> c_out c2 = []"
  proof
    assume "rp_upgrading p"
    with co f have "flush env c = (r2, c2)" by (auto split: if_splits)
    from flush_writing [OF this assms(1)] flush_frame [OF this]
    show "carries stream k c c2 \<and> c_out c2 = []" by blast
  qed
  have l2: "leaves stream k c c2 \<and> ios_pending_continue (c_io c2) = 0 \<and> (r2 = Inr () \<longrightarrow> wire c2 = wire c)"
  proof (cases co)
    case True
    with f l1 show ?thesis by auto
  next
    case False
    with f have "flush env c1 = (r2, c2)" by simp
    from flush_frame [OF this] l1 leaves_quiet [of stream k c c1 c2] show ?thesis by auto
  qed
  have "finish_response env p c =
      (case r2 of Inl e \<Rightarrow> (Inl e, c2)
       | Inr _ \<Rightarrow> (Inr (if rp_upgrading p then UpgradeConn else if rp_keep_alive p then KeepConn else CloseConn), c2))"
    using co f by (simp add: finish_response_def split: sum.split)
  with assms(2) l2 up show ?thesis by (auto split: sum.splits if_splits)
qed

definition response_bytes :: "version \<Rightarrow> response_plan \<Rightarrow> bytes \<Rightarrow> bool \<Rightarrow> bytes" where
  "response_bytes v p date is_head_request =
     write_head_for [] v \<lparr>resp_status = rp_status p, resp_headers = rp_headers p\<rparr>
       (out_body_of (rp_body p)) date (rp_keep_alive p) is_head_request @ payload p is_head_request"

lemma write_response_leaves:
  assumes "on_body stream k c"
    and "0 < ios_pending_continue (c_io c) \<and> ios_pending_continue (c_io c) < length CONTINUE \<longrightarrow> c_out c = []"
    and "p = plan_response env v resp ka hr wu consumed"
  shows "\<exists>r c'. write_response env v resp ka hr wu consumed c = Some (r, c') \<and> leaves stream k c c'
    \<and> (r = Inr KeepConn \<longrightarrow> rp_keep_alive p \<and> \<not> rp_upgrading p \<and> ios_pending_continue (c_io c') = 0)
    \<and> (r = Inr UpgradeConn \<longrightarrow> rp_upgrading p \<and> carries stream k c c' \<and> c_out c' = [])
    \<and> (r = Inr KeepConn \<or> r = Inr UpgradeConn \<longrightarrow>
        (\<exists>date. wire c' = wire c @ continue_rest (ios_pending_continue (c_io c)) @ response_bytes v p date hr))"
proof -
  obtain r1 c1 where s: "settle_continue env c = (r1, c1)" by (cases "settle_continue env c")
  have le: "ios_pending_continue (c_io c) \<le> length CONTINUE" using assms(1) by (simp add: on_body_def)
  note f = settle_continue_frame [OF s le]
  have p1: "ios_pending_continue (c_io c1) \<le> ios_pending_continue (c_io c)" using f by blast
  have ca1: "carries stream k c c1" using quiet_carries [OF _ assms(1) p1] f by blast
  show ?thesis
  proof (cases r1)
    case (Inl e)
    with s ca1 show ?thesis by (auto simp: write_response_def Let_def intro: carries_leaves)
  next
    case (Inr u)
    have w1: "wire c1 = wire c @ continue_rest (ios_pending_continue (c_io c))"
    proof (cases "c_out c = []")
      case True
      with f Inr show ?thesis by (simp add: wire_def)
    next
      case False
      with assms(2) le have "continue_rest (ios_pending_continue (c_io c)) = []"
        by (auto simp: continue_rest_def)
      with f Inr show ?thesis by (simp add: wire_def)
    qed
    obtain date c2 where d: "current_date env c1 = (date, c2)" by (cases "current_date env c1")
    note q2 = current_date_quiet [OF d]
    define c3 where "c3 = c2\<lparr>c_out := write_head_for (c_out c2) v
        \<lparr>resp_status = rp_status p, resp_headers = rp_headers p\<rparr> (out_body_of (rp_body p)) date (rp_keep_alive p) hr\<rparr>"
    have "quiet c1 c3" using q2 by (simp add: c3_def)
    moreover have "ios_pending_continue (c_io c3) = 0" using q2 f Inr by (simp add: c3_def)
    ultimately have w3: "writing stream k c3" "carries stream k c c3"
      using quiet_carries [of c1 c3 stream k] ca1 by (auto simp: writing_def carries_def)
    have wr3: "wire c3 = wire c1 @ write_head_for [] v
        \<lparr>resp_status = rp_status p, resp_headers = rp_headers p\<rparr> (out_body_of (rp_body p)) date (rp_keep_alive p) hr"
      using q2 by (simp add: c3_def wire_def write_head_for_append [of "c_out c1"])
    from write_body_writing [OF w3(1), of env p hr] obtain r4 c4 where
      b: "write_body env p hr c3 = Some (r4, c4)" "carries stream k c3 c4" "writing stream k c4"
      "r4 = Inr True \<longrightarrow> wire c4 = wire c3 @ payload p hr" by blast
    have ca4: "carries stream k c c4" using w3(2) b(2) by (rule carries_trans)
    have eq: "write_response env v resp ka hr wu consumed c =
        (case r4 of Inl e \<Rightarrow> Some (Inl e, c4) | Inr False \<Rightarrow> Some (Inr CloseConn, c4)
         | Inr True \<Rightarrow> Some (finish_response env p c4))"
      using s Inr d b(1) by (simp add: write_response_def Let_def assms(3) [symmetric] c3_def [symmetric] split: sum.split bool.split)
    consider e where "r4 = Inl e" | "r4 = Inr False" | "r4 = Inr True" by (cases r4) auto
    then show ?thesis
    proof cases
      case R: 3
      obtain r5 c5 where fr: "finish_response env p c4 = (r5, c5)" by (cases "finish_response env p c4")
      note fl = finish_response_leaves [OF b(3) fr]
      have "wire c4 = wire c @ continue_rest (ios_pending_continue (c_io c)) @ response_bytes v p date hr"
        using b(4) R wr3 w1 by (simp add: response_bytes_def)
      with eq R fr fl leaves_trans_left [OF ca4] carries_trans [OF ca4] show ?thesis by auto
    qed (use eq ca4 carries_leaves in auto)
  qed
qed

section \<open>A request\<close>

lemma write_error_quiet:
  assumes "ios_pending_continue (c_io c) \<le> length CONTINUE"
  shows "quiet c (write_error env v st c)"
proof -
  obtain r c1 where s: "settle_continue env c = (r, c1)" by (cases "settle_continue env c")
  note f = settle_continue_frame [OF s assms]
  obtain date c2 where d: "current_date env c1 = (date, c2)" by (cases "current_date env c1")
  define c3 where "c3 = c2\<lparr>c_out := write_head (c_out c2) v \<lparr>resp_status = st, resp_headers = []\<rparr> OutNone date False\<rparr>"
  obtain r4 c4 where fl: "flush env c3 = (r4, c4)" by (cases "flush env c3")
  have "quiet c1 c3" using current_date_quiet [OF d] by (simp add: c3_def)
  then have "quiet c c4" using f flush_frame [OF fl] quiet_trans by blast
  moreover have "write_error env v st c = (case r of Inl _ \<Rightarrow> c1 | Inr _ \<Rightarrow> c4)"
    using s d fl by (simp add: write_error_def c3_def [symmetric] Let_def split: sum.split)
  ultimately show ?thesis using f by (cases r) auto
qed

text \<open>A connection between requests.\<close>

definition conn_ok :: "conn \<Rightarrow> bool" where
  "conn_ok c \<longleftrightarrow> scan_ok (c_io c) \<and> ios_pending_continue (c_io c) = 0"

lemma begin_request_on_body:
  assumes "scan_ok (c_io c)" and "limits_ok (e_limits env)" and "kind_fits k"
    and "length (upcoming (c_io c)) < u64_range" and "begin_request env h k c = (r, c')"
  shows "on_body (upcoming (c_io c)) k c' \<and> c_served c' = c_served c + 1
    \<and> (case r of
         Inl _ \<Rightarrow> True
       | Inr held \<Rightarrow>
           ios_pending_continue (c_io c') = (if expects_continue h then length CONTINUE else 0)
           \<and> sent (ios_io (c_io c')) @ (case held of None \<Rightarrow> [] | Some b \<Rightarrow> b) = wire c \<and> c_out c' = []
           \<and> (held \<noteq> None \<longrightarrow> \<not> expects_continue h))"
proof -
  define st where "st = (c_io c)\<lparr>ios_pending_continue := (if expects_continue h then length CONTINUE else 0),
      ios_body_finished := False\<rparr>"
  obtain s st1 where n: "body_new io_vt k st (expects_continue h) (e_limits env) = (s, st1)"
    by (cases "body_new io_vt k st (expects_continue h) (e_limits env)")
  have up: "upcoming st = upcoming (c_io c)" by (simp add: st_def upcoming_def io_coming_def)
  have "\<forall>n. k = Length n \<longrightarrow> n < u64_range" using assms(3) by (auto simp: kind_fits_def)
  from io.body_new_tracks [OF n assms(2) _ this] assms(4) up
  have t: "io.tracks (upcoming (c_io c)) [] s st1" and kd: "bs_kind s = k"
    by (auto simp: io.tracks_def ahead_upcoming)
  from body_new_io [OF n] obtain dn where dn: "st1 = snd (register io_vt st dn)" by blast
  have sc: "scan_ok st" using assms(1) scan_ok_cong [of st "c_io c"] by (simp add: st_def)
  then have sc1: "scan_ok st1" using scan_ok_register dn by blast
  have p1: "ios_pending_continue st1 = (if expects_continue h then length CONTINUE else 0)"
    and snt: "ios_io st1 = ios_io (c_io c)"
    using dn by (auto simp: register_def Let_def io_body_started_def io_body_finished_def st_def split: prod.splits)
  define c1 where "c1 = c\<lparr>c_io := st1, c_body := s, c_body_alive := True, c_served := c_served c + 1\<rparr>"
  define c2 where "c2 = (start_body_deadline env c1)\<lparr>c_held_in_out := False\<rparr>"
  have q2: "quiet c1 c2" "c_io c2 = st1" "c_out c2 = c_out c"
    using start_body_deadline_quiet [of c1 env] by (simp_all add: c2_def c1_def)
  have ob1: "on_body (upcoming (c_io c)) k c1" using t kd sc1 p1 by (auto simp: on_body_def c1_def)
  have ob2: "on_body (upcoming (c_io c)) k c2" "c_served c2 = c_served c + 1"
    using quiet_carries [OF q2(1) ob1] q2 by (auto simp: carries_def c1_def)
  have bg: "begin_request env h k c =
      (if c_out c \<noteq> [] then
         (if expects_continue h then
            (case flush env c2 of
               (Inl e, c) \<Rightarrow> (Inl e, c)
             | (Inr _, c) \<Rightarrow> (Inr None, start_body_deadline env c))
          else (Inr (Some (c_out c)), c2\<lparr>c_out := []\<rparr>))
       else (Inr None, c2))"
    unfolding begin_request_def Let_def st_def [symmetric] n prod.case c1_def [symmetric] c2_def [symmetric] q2(3) ..
  show ?thesis
  proof (cases "c_out c \<noteq> [] \<and> expects_continue h")
    case True
    obtain r3 c3 where fl: "flush env c2 = (r3, c3)" by (cases "flush env c2")
    note f = flush_frame [OF fl]
    have ob3: "on_body (upcoming (c_io c)) k c3" "c_served c3 = c_served c + 1"
      using quiet_carries [of c2 c3] f ob2 by (auto simp: carries_def)
    have ob4: "on_body (upcoming (c_io c)) k (start_body_deadline env c3)"
        "c_served (start_body_deadline env c3) = c_served c + 1"
      using quiet_carries [OF start_body_deadline_quiet ob3(1)] ob3(2) by (auto simp: carries_def)
    from bg True fl assms(5) f ob3 ob4 p1 snt q2 show ?thesis
      by (cases r3) (auto simp: wire_def)
  next
    case False
    have "on_body (upcoming (c_io c)) k (c2\<lparr>c_out := []\<rparr>)" using ob2 by (simp add: on_body_def)
    with bg False assms(5) ob2 p1 snt q2 show ?thesis by (auto simp: wire_def split: if_splits)
  qed
qed

text \<open>
  The first poll of a handler, with responses held back or not.  What is on the wire and what is
  held, together, stay as they were, but for what the handler sends of the interim response.
\<close>

lemma first_poll_held_on_body:
  assumes "on_body stream k c" and "c_out c = []" and "held \<noteq> None \<longrightarrow> ios_pending_continue (c_io c) = 0"
  shows "\<exists>r c'. first_poll_held env hg held c = Some (r, c') \<and>
    (case r of
       FirstPanic \<Rightarrow> True
     | FirstFailed _ \<Rightarrow> True
     | FirstPending acts \<Rightarrow> on_body stream k c' \<and> c_served c' = c_served c
         \<and> due c' = sent (ios_io (c_io c)) @ (case held of None \<Rightarrow> [] | Some b \<Rightarrow> b)
             @ drop (length CONTINUE - ios_pending_continue (c_io c)) CONTINUE
         \<and> c_out c' = [] \<and> ios_pending_continue (c_io c') \<le> ios_pending_continue (c_io c)
     | FirstReady \<Rightarrow> on_body stream k c' \<and> c_served c' = c_served c
         \<and> wire c' = sent (ios_io (c_io c)) @ (case held of None \<Rightarrow> [] | Some b \<Rightarrow> b)
         \<and> ios_pending_continue (c_io c') = 0 \<and> h_result hg \<noteq> None)"
proof (cases held)
  case None
  with assms show ?thesis by (auto simp: first_poll_held_def due_def)
next
  case (Some bytes)
  with assms have p0: "ios_pending_continue (c_io c) = 0" by simp
  from handler_poll_reads_on [OF assms(1), of "h_acts hg"] obtain q c1 where
    h: "handler_poll (h_acts hg) c = Some (q, c1)" "reads_on stream k c c1" by blast
  note w1 = reads_on_writing [OF h(2) p0]
  have ob1: "on_body stream k c1" "c_served c1 = c_served c" "c_out c1 = []" "ios_pending_continue (c_io c1) = 0"
    using h(2) w1 assms(2) by (auto simp: reads_on_def carries_def steady_def writing_def)
  show ?thesis
  proof (cases q)
    case N: None
    have "on_body stream k (c1\<lparr>c_out := bytes @ c_out c1, c_held_in_out := True\<rparr>)" using ob1 by (simp add: on_body_def)
    with Some h N ob1 w1 show ?thesis
      by (cases "h_result hg") (auto simp: first_poll_held_def wire_def)
  next
    case S: (Some acts)
    define c2 where "c2 = c1\<lparr>c_out := bytes @ c_out c1\<rparr>"
    have wr2: "writing stream k c2" using ob1 by (simp add: writing_def on_body_def c2_def)
    obtain r3 c3 where fl: "flush env c2 = (r3, c3)" by (cases "flush env c2")
    note f = flush_frame [OF fl] and fw = flush_writing [OF fl wr2]
    show ?thesis
    proof (cases r3)
      case (Inl e)
      with Some h S fl show ?thesis by (auto simp: first_poll_held_def c2_def)
    next
      case (Inr u)
      define c4 where "c4 = start_body_deadline env c3"
      have q4: "quiet c3 c4" "c_io c4 = c_io c3" "c_out c4 = c_out c3"
        by (simp_all add: c4_def start_body_deadline_quiet)
      have ob3: "on_body stream k c3" "c_served c3 = c_served c2" "ios_pending_continue (c_io c3) = 0"
        using fw by (simp_all add: carries_def writing_def)
      have ob4: "on_body stream k c4" "c_served c4 = c_served c3"
        using quiet_carries [OF q4(1) ob3(1)] q4 by (auto simp: carries_def)
      have snt: "sent (ios_io (c_io c3)) = sent (ios_io (c_io c)) @ bytes"
        using f Inr w1 ob1 by (auto simp: wire_def c2_def)
      have "first_poll_held env hg held c = Some (FirstPending acts, c4)"
        using Some h S fl Inr by (simp add: first_poll_held_def c2_def c4_def)
      with Some ob4 ob3 ob1 q4 f snt p0 show ?thesis by (auto simp: due_def c2_def)
    qed
  qed
qed

lemma drop_body_frame [simp]:
  "c_body (drop_body c) = c_body c" "c_out (drop_body c) = c_out c" "c_served (drop_body c) = c_served c"
  by (simp_all add: drop_body_def)

lemma drop_body_input:
  "upcoming (c_io (drop_body c)) = upcoming (c_io c)" "ios_io (c_io (drop_body c)) = ios_io (c_io c)"
  "ios_pending_continue (c_io (drop_body c)) = ios_pending_continue (c_io c)"
  "scan_ok (c_io c) \<Longrightarrow> scan_ok (c_io (drop_body c))"
  using scanned.notify_keeps
  by (auto simp: drop_body_def body_drop_def notify_finished_def io_body_finished_def upcoming_def io_coming_def)

lemma release_frame:
  assumes "c' = release_stream r c \<or> c' = release_future r c"
  shows "c_body c' = c_body c" "c_out c' = c_out c" "c_served c' = c_served c"
    "upcoming (c_io c') = upcoming (c_io c)" "ios_io (c_io c') = ios_io (c_io c)"
    "ios_pending_continue (c_io c') = ios_pending_continue (c_io c)"
    "scan_ok (c_io c) \<Longrightarrow> scan_ok (c_io c')"
  using assms drop_body_input [of c] by (auto simp: release_stream_def release_future_def)

lemma leaves_release: "leaves stream k c c1 \<Longrightarrow> leaves stream k c (release_stream r c1)"
  using release_frame [of "release_stream r c1" r c1] unfolding leaves_def by force

lemma plan_keep_alive:
  assumes "rp_keep_alive (plan_response env v resp ka hr wu consumed)"
  shows "ka \<and> is_final_status (rsp_status resp) wu \<and> \<not> (rsp_status resp = 101 \<and> wu \<and> consumed)"
  using assms by (auto simp: plan_response_def Let_def split: if_splits)

lemma plan_upgrading:
  "rp_upgrading (plan_response env v resp ka hr wu consumed) \<longleftrightarrow> rsp_status resp = 101 \<and> wu \<and> consumed"
  by (auto simp: plan_response_def Let_def split: prod.splits)

lemma fully_read_split:
  assumes "on_body stream k c1" and "carries stream k c1 c2" and "bs_fully_read (c_body c1)"
  shows "\<exists>cb content. body_is k cb content \<and> stream = cb @ upcoming (c_io c2)"
proof -
  from assms(1) obtain b where t: "io.tracks stream b (c_body c1) (c_io c1)" by (auto simp: on_body_def)
  with assms(3) have "bs_done (c_body c1)" by (auto simp: io.tracks_def io.unread_def io.ended_def)
  with assms(2) have same: "c_body c2 = c_body c1" by (simp add: carries_def)
  from assms(2) obtain b2 where "io.tracks stream b2 (c_body c2) (c_io c2)" "bs_kind (c_body c2) = k"
    by (auto simp: carries_def on_body_def)
  with io.tracks_fully_read [of stream b2 "c_body c2" "c_io c2"] assms(3) same show ?thesis
    by (auto simp: ahead_upcoming)
qed

text \<open>What one request puts on the wire when the connection goes on or is handed over: at most one
  interim response, and only where the request asked for it, then the whole response.\<close>

definition answered :: "env \<Rightarrow> head \<Rightarrow> handling \<Rightarrow> bool \<Rightarrow> bytes \<Rightarrow> bytes \<Rightarrow> bool" where
  "answered env h hg upgrade w w' \<longleftrightarrow>
     (\<exists>interim date resp p.
        h_result hg = Some resp
        \<and> (interim = [] \<or> expects_continue h \<and> interim = CONTINUE)
        \<and> p = plan_response env (head_version h) resp (is_keep_alive h) (head_method h = Head) (wants_upgrade h) True
        \<and> (if upgrade then rp_upgrading p else rp_keep_alive p)
        \<and> w' = w @ interim @ response_bytes (head_version h) p date (head_method h = Head))"

definition on_wire :: "serve_step \<Rightarrow> conn \<Rightarrow> bytes option" where
  "on_wire step c =
     (case step of NextRequest \<Rightarrow> Some (wire c) | Served (Some up) \<Rightarrow> Some (sent (up_io up)) | _ \<Rightarrow> None)"

text \<open>How a turn that has a response ends.\<close>

definition turn_ok :: "bytes \<Rightarrow> body_kind \<Rightarrow> head \<Rightarrow> conn \<Rightarrow> serve_step \<Rightarrow> conn \<Rightarrow> bool" where
  "turn_ok stream k h c step c' \<longleftrightarrow>
     (case step of
        NextRequest \<Rightarrow>
          conn_ok c' \<and> is_keep_alive h \<and> c_served c' = c_served c
          \<and> (\<exists>cb content n. body_is k cb content \<and> stream = cb @ blanks n @ upcoming (c_io c'))
      | Served (Some up) \<Rightarrow>
          wants_upgrade h
          \<and> (\<exists>cb content. body_is k cb content \<and> stream = cb @ up_buffered up @ stream_of (rd (up_io up)))
      | _ \<Rightarrow> True)"

lemma serve_response_turn:
  assumes "on_body stream k c"
    and "0 < ios_pending_continue (c_io c) \<and> ios_pending_continue (c_io c) < length CONTINUE \<longrightarrow> c_out c = []"
  shows "\<exists>step c'. serve_response env h hg resp c = Some (step, c') \<and> turn_ok stream k h c step c'
    \<and> (\<forall>w. on_wire step c' = Some w \<longrightarrow>
        (\<exists>date p. w = wire c @ continue_rest (ios_pending_continue (c_io c))
            @ response_bytes (head_version h) p date (head_method h = Head)
          \<and> p = plan_response env (head_version h) resp (is_keep_alive h) (head_method h = Head) (wants_upgrade h) True
          \<and> (if step \<noteq> NextRequest then rp_upgrading p else rp_keep_alive p)))"
proof -
  define consumed where "consumed = was_fully_read (c_body c)"
  define ka where "ka \<longleftrightarrow> is_keep_alive h \<and> consumed"
  define p where "p = plan_response env (head_version h) resp ka (head_method h = Head) (wants_upgrade h) consumed"
  from write_response_leaves [OF assms p_def] obtain r c1 where
    w: "write_response env (head_version h) resp ka (head_method h = Head) (wants_upgrade h) consumed c = Some (r, c1)"
    "leaves stream k c c1" and kp: "r = Inr KeepConn \<longrightarrow> rp_keep_alive p \<and> \<not> rp_upgrading p \<and> ios_pending_continue (c_io c1) = 0"
    and upg: "r = Inr UpgradeConn \<longrightarrow> rp_upgrading p \<and> carries stream k c c1 \<and> c_out c1 = []"
    and wr: "r = Inr KeepConn \<or> r = Inr UpgradeConn \<longrightarrow>
      (\<exists>date. wire c1 = wire c @ continue_rest (ios_pending_continue (c_io c))
        @ response_bytes (head_version h) p date (head_method h = Head))" by blast
  define c2 where "c2 = release_stream (h_retention hg) c1"
  note rel = release_frame [of c2 "h_retention hg" c1, OF disjI1 [OF c2_def]]
  have sr: "serve_response env h hg resp c =
      (case r of Inl e \<Rightarrow> Some (ServeFailed e, c2)
       | Inr d \<Rightarrow> Some (case d of
                      KeepConn \<Rightarrow> (NextRequest, c2)
                    | CloseConn \<Rightarrow> (Served None, c2)
                    | UpgradeConn \<Rightarrow>
                        (case into_parts c2 of
                           None \<Rightarrow> (Served None, c2)
                         | Some (t, b) \<Rightarrow> (Served (Some \<lparr>up_io = t, up_buffered = b\<rparr>), c2))))"
    unfolding serve_response_def Let_def consumed_def [symmetric] ka_def [symmetric] w(1) option.case prod.case
      c2_def [symmetric] ..
  consider (err) e where "r = Inl e" | (close) "r = Inr CloseConn" | (keep) "r = Inr KeepConn"
    | (upgr) "r = Inr UpgradeConn"
    by (metis disposition.exhaust sum.exhaust)
  then show ?thesis
  proof cases
    case keep
    with kp have k2: "rp_keep_alive p" "ios_pending_continue (c_io c1) = 0" by simp_all
    then have "ka" using plan_keep_alive unfolding p_def by blast
    then have cons: "consumed" "is_keep_alive h" unfolding ka_def by blast+
    from w(2) obtain c3 n where l: "carries stream k c c3" "c_body c1 = c_body c3" "scan_ok (c_io c1)"
      "c_served c1 = c_served c3" "ios_pending_continue (c_io c1) \<le> length CONTINUE" "upcoming (c_io c3) = blanks n @ upcoming (c_io c1)"
      by (auto simp: leaves_def)
    from fully_read_split [OF assms(1) l(1)] cons obtain cb content where
      "body_is k cb content" "stream = cb @ upcoming (c_io c3)" by (auto simp: consumed_def was_fully_read_def)
    with l cons rel k2(2) have "turn_ok stream k h c NextRequest c2" by (auto simp: turn_ok_def conn_ok_def carries_def)
    moreover have "serve_response env h hg resp c = Some (NextRequest, c2)" using sr keep by simp
    moreover have "wire c2 = wire c1" using rel by (simp add: wire_def)
    ultimately show ?thesis using wr keep k2 cons \<open>ka\<close> by (auto simp: p_def on_wire_def)
  next
    case upgr
    with upg have u: "rsp_status resp = 101" "wants_upgrade h" "consumed" "carries stream k c c1" "c_out c1 = []"
      and pu: "rp_upgrading p" by (simp_all add: p_def plan_upgrading)
    then have p: "p = plan_response env (head_version h) resp (is_keep_alive h) (head_method h = Head) (wants_upgrade h) True"
      by (simp add: p_def ka_def)
    from fully_read_split [OF assms(1) u(4)] u(3) obtain cb content where
      "body_is k cb content" "stream = cb @ upcoming (c_io c1)" by (auto simp: consumed_def was_fully_read_def)
    then have "turn_ok stream k h c (Served (Some \<lparr>up_io = ios_io (c_io c2), up_buffered = ios_buf (c_io c2)\<rparr>)) c2"
      using rel u by (auto simp: turn_ok_def upcoming_def io_coming_def)
    moreover have "sent (ios_io (c_io c2)) = wire c1" using rel u(5) by (simp add: wire_def)
    ultimately show ?thesis using sr upgr wr pu p
      by (auto simp: turn_ok_def into_parts_def on_wire_def split: if_splits)
  qed (use sr in \<open>auto simp: turn_ok_def on_wire_def\<close>)
qed

lemma release_on_body:
  assumes "on_body stream k c"
  shows "on_body stream k (release_future r c)"
  using reads_on_body [OF drop_body_reads_on [OF assms]] assms by (simp add: release_future_def)

lemma interim_cases:
  assumes "snt @ drop (length CONTINUE - p) CONTINUE = w @ drop (length CONTINUE - q) CONTINUE"
    and "q = 0 \<or> q = length CONTINUE" and "p \<le> q"
  shows "\<exists>interim. (interim = [] \<or> q = length CONTINUE \<and> interim = CONTINUE) \<and> snt @ continue_rest p = w @ interim"
proof (cases "q = 0")
  case True
  with assms show ?thesis by (auto simp: continue_rest_def)
next
  case False
  with assms(2) have q: "q = length CONTINUE" by simp
  show ?thesis
  proof (cases "p = length CONTINUE")
    case True
    with assms(1) q show ?thesis by (auto simp: continue_rest_def)
  next
    case p: False
    with assms(1) q show ?thesis by (auto simp: continue_rest_def)
  qed
qed

lemma serve_handler_turn:
  assumes "on_body stream k c" and "c_out c = []"
    and "ios_pending_continue (c_io c) = (if expects_continue h then length CONTINUE else 0)"
    and "held \<noteq> None \<longrightarrow> \<not> expects_continue h"
  shows "\<exists>step c'. serve_handler env h hg held c = Some (step, c') \<and> turn_ok stream k h c step c'
    \<and> (\<forall>w'. on_wire step c' = Some w' \<longrightarrow>
        answered env h hg (step \<noteq> NextRequest) (sent (ios_io (c_io c)) @ (case held of None \<Rightarrow> [] | Some b \<Rightarrow> b)) w')"
proof -
  let ?w = "sent (ios_io (c_io c)) @ (case held of None \<Rightarrow> [] | Some b \<Rightarrow> b)"
  let ?q = "ios_pending_continue (c_io c)"
  have ends: "\<exists>step c'. serve_response env h hg resp (release_future (h_retention hg) c2) = Some (step, c')
      \<and> turn_ok stream k h c step c'
      \<and> (\<forall>w'. on_wire step c' = Some w' \<longrightarrow> answered env h hg (step \<noteq> NextRequest) ?w w')"
    if ob: "on_body stream k c2" and sv: "c_served c2 = c_served c" and res: "h_result hg = Some resp"
      and int: "\<exists>interim. (interim = [] \<or> expects_continue h \<and> interim = CONTINUE)
          \<and> wire c2 @ continue_rest (ios_pending_continue (c_io c2)) = ?w @ interim"
      and out: "ios_pending_continue (c_io c2) = 0 \<or> c_out c2 = []" for c2 resp
  proof -
    let ?c3 = "release_future (h_retention hg) c2"
    note rel = release_frame [of ?c3 "h_retention hg" c2, OF disjI2 [OF refl]]
    have "0 < ios_pending_continue (c_io ?c3) \<and> ios_pending_continue (c_io ?c3) < length CONTINUE \<longrightarrow> c_out ?c3 = []"
      using out rel by auto
    from serve_response_turn [OF release_on_body [OF ob] this, where env = env and h = h and hg = hg and resp = resp]
    obtain step c' where s: "serve_response env h hg resp ?c3 = Some (step, c')" "turn_ok stream k h ?c3 step c'"
      and w: "\<forall>w'. on_wire step c' = Some w' \<longrightarrow>
        (\<exists>date p. w' = wire ?c3 @ continue_rest (ios_pending_continue (c_io ?c3))
            @ response_bytes (head_version h) p date (head_method h = Head)
          \<and> p = plan_response env (head_version h) resp (is_keep_alive h) (head_method h = Head) (wants_upgrade h) True
          \<and> (if step \<noteq> NextRequest then rp_upgrading p else rp_keep_alive p))" by blast
    have "turn_ok stream k h c step c'" using s(2) rel(3) sv by (auto simp: turn_ok_def split: serve_step.splits)
    moreover have "answered env h hg (step \<noteq> NextRequest) ?w w'" if st: "on_wire step c' = Some w'" for w'
    proof -
      have "wire ?c3 = wire c2" using rel by (auto simp: wire_def)
      with w st rel obtain date p where p: "w' = wire c2 @ continue_rest (ios_pending_continue (c_io c2))
            @ response_bytes (head_version h) p date (head_method h = Head)"
          "p = plan_response env (head_version h) resp (is_keep_alive h) (head_method h = Head) (wants_upgrade h) True"
          "if step \<noteq> NextRequest then rp_upgrading p else rp_keep_alive p" by metis
      from int obtain interim where "interim = [] \<or> expects_continue h \<and> interim = CONTINUE"
          "wire c2 @ continue_rest (ios_pending_continue (c_io c2)) = ?w @ interim" by blast
      with p res show ?thesis unfolding answered_def by (metis append.assoc)
    qed
    ultimately show ?thesis using s(1) by blast
  qed
  from first_poll_held_on_body [OF assms(1,2), of held env hg] assms(3,4) obtain first c1 where
    f: "first_poll_held env hg held c = Some (first, c1)" and
    fo: "case first of
       FirstPanic \<Rightarrow> True
     | FirstFailed _ \<Rightarrow> True
     | FirstPending acts \<Rightarrow> on_body stream k c1 \<and> c_served c1 = c_served c
         \<and> due c1 = sent (ios_io (c_io c)) @ (case held of None \<Rightarrow> [] | Some b \<Rightarrow> b)
             @ drop (length CONTINUE - ?q) CONTINUE
         \<and> c_out c1 = [] \<and> ios_pending_continue (c_io c1) \<le> ?q
     | FirstReady \<Rightarrow> on_body stream k c1 \<and> c_served c1 = c_served c
         \<and> wire c1 = ?w \<and> ios_pending_continue (c_io c1) = 0 \<and> h_result hg \<noteq> None" by auto
  show ?thesis
  proof (cases first)
    case (FirstFailed e)
    with f show ?thesis by (simp add: serve_handler_def turn_ok_def on_wire_def)
  next
    case FirstPanic
    with f show ?thesis by (simp add: serve_handler_def turn_ok_def on_wire_def)
  next
    case FirstReady
    with fo obtain resp where r: "h_result hg = Some resp" by auto
    from FirstReady f r have "serve_handler env h hg held c
        = serve_response env h hg resp (release_future (h_retention hg) c1)" by (simp add: serve_handler_def)
    moreover have "wire c1 @ continue_rest (ios_pending_continue (c_io c1)) = ?w @ []"
      using fo FirstReady by (simp add: continue_rest_def)
    ultimately show ?thesis using ends [OF _ _ r, of c1] fo FirstReady by fastforce
  next
    case (FirstPending acts)
    with fo have ob1: "on_body stream k c1" "c_out c1 = []" "ios_pending_continue (c_io c1) \<le> ?q"
      and d1: "due c1 = ?w @ drop (length CONTINUE - ?q) CONTINUE" by auto
    from race_handler_reads_on [OF ob1(1), of env acts] obtain r c2 where
      ra: "race_handler env acts c1 = Some (r, c2)" "reads_on stream k c1 c2" by blast
    show ?thesis
    proof (cases r)
      case (Some st)
      with FirstPending f ra show ?thesis by (simp add: serve_handler_def turn_ok_def on_wire_def Let_def)
    next
      case None
      show ?thesis
      proof (cases "h_result hg")
        case N: None
        with None FirstPending f ra show ?thesis by (simp add: serve_handler_def turn_ok_def on_wire_def)
      next
        case R: (Some resp)
        from None R FirstPending f ra have "serve_handler env h hg held c
            = serve_response env h hg resp (release_future (h_retention hg) c2)" by (simp add: serve_handler_def)
        moreover have st: "due c2 = due c1" "c_out c2 = []" "ios_pending_continue (c_io c2) \<le> ?q"
          using ra(2) ob1 by (auto simp: reads_on_def steady_def)
        moreover have "sent (ios_io (c_io c2)) @ drop (length CONTINUE - ios_pending_continue (c_io c2)) CONTINUE
            = ?w @ drop (length CONTINUE - ?q) CONTINUE" using st(1) d1 by (simp add: due_def)
        from interim_cases [OF this _ st(3)] assms(3)
        have "\<exists>interim. (interim = [] \<or> expects_continue h \<and> interim = CONTINUE)
          \<and> wire c2 @ continue_rest (ios_pending_continue (c_io c2)) = ?w @ interim"
          using st(2) by (auto simp: wire_def CONTINUE_def split: if_splits)
        moreover have "c_served c2 = c_served c" using ra(2) fo FirstPending by (auto simp: reads_on_def carries_def)
        ultimately show ?thesis using ends [OF reads_on_body [OF ra(2)] _ R] by auto
      qed
    qed
  qed
qed

section \<open>Reading a head\<close>

lemma poll_read_more_upcoming:
  assumes "poll_read_more st = (r, st')" and "r = Pending \<or> (\<exists>n. r = Ready (Inr (Suc n)))"
  shows "upcoming st' = upcoming st"
  using assms
  by (auto simp: poll_read_more_def poll_read_def upcoming_def io_coming_def split: list.splits read_event.splits)

text \<open>Reading leaves everything but the input alone.\<close>

definition reading :: "conn \<Rightarrow> conn \<Rightarrow> bool" where
  "reading c c' \<longleftrightarrow>
     conn_ok c' \<and> wire c' = wire c \<and> c_out c' = c_out c \<and> c_served c' = c_served c"

lemma reading_refl: "conn_ok c \<Longrightarrow> reading c c"
  by (simp add: reading_def)

lemma reading_trans: "reading c c1 \<Longrightarrow> reading c1 c2 \<Longrightarrow> reading c c2"
  by (simp add: reading_def)

lemma quiet_reading:
  assumes "quiet c c'" and "conn_ok c" and "c_io c' = c_io c" and "c_out c' = c_out c"
  shows "reading c c'"
  using assms by (simp add: reading_def conn_ok_def wire_def quiet_def)

lemma read_wait_reading:
  assumes "read_wait env c = (r, c')" and "conn_ok c"
  shows "reading c c' \<and> (\<forall>n. r = Some (Inr (Suc n)) \<longrightarrow> upcoming (c_io c') = upcoming (c_io c))"
  using assms
proof (induction env c rule: read_wait.induct)
  case (1 env c)
  obtain ex c1 where e: "deadline_expired env c = (ex, c1)" by (cases "deadline_expired env c")
  note q = deadline_expired_quiet [OF e]
  have r1: "reading c c1" using quiet_reading q 1(3) by blast
  obtain p st where p: "poll_read_more (c_io c1) = (p, st)" by (cases "poll_read_more (c_io c1)")
  note f = poll_read_more_frame [OF p] and up = poll_read_more_upcoming [OF p]
  have "scan_ok st" using scan_ok_read [of "c_io c1"] p r1 by (simp add: reading_def conn_ok_def)
  then have r2: "reading c (c1\<lparr>c_io := st\<rparr>)" using r1 f by (auto simp: reading_def conn_ok_def wire_def)
  note rw = read_wait.simps [of env c, unfolded e prod.case]
  show ?case
  proof (cases ex)
    case True
    with rw 1(2) r1 show ?thesis by auto
  next
    case False
    show ?thesis
    proof (cases p)
      case Pending
      have "read_wait env (c1\<lparr>c_io := st\<rparr>) = (r, c')" using rw 1(2) False p Pending by simp
      from 1(1) [OF e [symmetric] False p [symmetric] Pending this] r2 up Pending q show ?thesis
        by (auto simp: reading_def)
    next
      case (Ready z)
      with rw 1(2) False p r2 up q show ?thesis by auto
    qed
  qed
qed

lemma conn_has_head_reading:
  assumes "conn_ok c" and "conn_has_head c = (r, c')"
  shows "reading c c' \<and> (\<exists>n. upcoming (c_io c) = blanks n @ upcoming (c_io c'))
    \<and> (r \<longrightarrow> ios_head_end (c_io c') = find_head_end (ios_buf (c_io c')) \<and> find_head_end (ios_buf (c_io c')) \<noteq> None)"
proof -
  from conn_has_head_frame [of c r c'] assms obtain n where h: "scan_ok (c_io c')"
    "upcoming (c_io c) = blanks n @ upcoming (c_io c')" "c' = c\<lparr>c_io := c_io c'\<rparr>"
    "ios_io (c_io c') = ios_io (c_io c)" "ios_pending_continue (c_io c') = ios_pending_continue (c_io c)"
    "r \<longrightarrow> ios_head_end (c_io c') = find_head_end (ios_buf (c_io c')) \<and> find_head_end (ios_buf (c_io c')) \<noteq> None"
    by (auto simp: conn_ok_def)
  have "c_out c' = c_out c" "c_served c' = c_served c"
    using h(3) by (metis conn.select_convs conn.surjective conn.update_convs(1))+
  with h assms(1) show ?thesis by (auto simp: reading_def conn_ok_def wire_def)
qed

lemma blanks_add: "blanks a @ blanks b = blanks (a + b)"
  by (simp add: blanks_def replicate_add)

lemma blanks_append: "blanks a @ blanks b @ x = blanks (a + b) @ x"
  by (simp flip: append.assoc add: blanks_add)

lemma read_loop_reading:
  assumes "read_loop env started c = (r, c')" and "conn_ok c"
  shows "reading c c' \<and> (r = Inr HeadReady \<longrightarrow>
    (\<exists>n. upcoming (c_io c) = blanks n @ upcoming (c_io c'))
    \<and> ios_head_end (c_io c') = find_head_end (ios_buf (c_io c')) \<and> find_head_end (ios_buf (c_io c')) \<noteq> None)"
  using assms
proof (induction env started c rule: read_loop.induct)
  case (1 env started c)
  obtain q c1 where w: "read_wait env c = (q, c1)" by (cases "read_wait env c")
  note rw = read_wait_reading [OF w 1(3)]
  note lp = read_loop.simps [of env started c, unfolded w prod.case]
  consider (none) "q = None" | (err) e where "q = Some (Inl e)" | (eof) "q = Some (Inr 0)"
    | (data) n where "q = Some (Inr (Suc n))"
    by (metis not0_implies_Suc option.exhaust sum.exhaust)
  then show ?case
  proof cases
    case none
    with lp 1(2) rw show ?thesis by auto
  next
    case err
    with lp 1(2) rw show ?thesis by (auto split: if_splits)
  next
    case eof
    with lp 1(2) rw show ?thesis by auto
  next
    case (data n)
    define buf where "buf = ios_buf (c_io c1)"
    define fresh where "fresh = begins_request (drop (length buf - min (Suc n) (length buf)) buf)"
    obtain co c2 where h: "conn_has_head c1 = (co, c2)" by (cases "conn_has_head c1")
    have ok1: "conn_ok c1" using rw by (simp add: reading_def)
    note hr = conn_has_head_reading [OF ok1 h]
    define c3 where "c3 = (if \<not> started \<and> fresh then arm (header_timeout (e_limits env)) c2 else c2)"
    have ok2: "conn_ok c2" using hr by (simp add: reading_def)
    have r3: "reading c2 c3" "c_io c3 = c_io c2"
      using quiet_reading [OF arm_quiet ok2] reading_refl [OF ok2] by (simp_all add: c3_def)
    have r13: "reading c c3" using rw hr r3 reading_trans by blast
    note lp2 = lp [unfolded data option.case sum.case Let_def buf_def [symmetric] fresh_def [symmetric] h prod.case
        c3_def [symmetric]]
    have up: "upcoming (c_io c1) = upcoming (c_io c)" using rw data by blast
    show ?thesis
    proof (cases "co \<or> length (ios_buf (c_io c2)) > max_head_bytes (e_limits env)")
      case True
      then show ?thesis
      proof (cases co)
        case True
        with lp2 1(2) rw hr up show ?thesis by (auto intro: reading_trans)
      next
        case False
        with True lp2 1(2) r13 show ?thesis by auto
      qed
    next
      case False
      then have "read_loop env (started \<or> fresh) c3 = (r, c')" using lp2 1(2) by simp
      moreover have "conn_ok c3" using r3 by (simp add: reading_def)
      ultimately have ih: "reading c3 c' \<and> (r = Inr HeadReady \<longrightarrow>
          (\<exists>n. upcoming (c_io c3) = blanks n @ upcoming (c_io c'))
          \<and> ios_head_end (c_io c') = find_head_end (ios_buf (c_io c')) \<and> find_head_end (ios_buf (c_io c')) \<noteq> None)"
        using 1(1) [OF w [symmetric] data refl _ buf_def fresh_def h [symmetric]] False
        by (simp add: c3_def)
      with r13 hr r3(2) up show ?thesis
        by (auto simp: blanks_append intro: reading_trans)
    qed
  qed
qed

lemma read_until_reading:
  assumes "read_until_head_or_idle env c = (r, c')" and "conn_ok c"
  shows "conn_ok c' \<and> ((\<exists>x. r = Inr x) \<longrightarrow> wire c' = wire c \<and> c_served c' = c_served c) \<and> (r = Inr HeadReady \<longrightarrow>
    (\<exists>n. upcoming (c_io c) = blanks n @ upcoming (c_io c'))
    \<and> ios_head_end (c_io c') = find_head_end (ios_buf (c_io c')) \<and> find_head_end (ios_buf (c_io c')) \<noteq> None)"
proof -
  obtain co c1 where h: "conn_has_head c = (co, c1)" by (cases "conn_has_head c")
  note hr = conn_has_head_reading [OF assms(2) h]
  have ok1: "conn_ok c1" using hr by (simp add: reading_def)
  note ru = read_until_head_or_idle_def [of env c, unfolded h prod.case]
  show ?thesis
  proof (cases co)
    case True
    with ru assms(1) hr show ?thesis by (auto simp: reading_def)
  next
    case False
    obtain r2 c2 where f: "(if c_out c1 \<noteq> [] then flush env c1 else (Inr (), c1)) = (r2, c2)"
      by (cases "if c_out c1 \<noteq> [] then flush env c1 else (Inr (), c1)")
    have f2: "conn_ok c2 \<and> upcoming (c_io c2) = upcoming (c_io c1) \<and> c_served c2 = c_served c1
        \<and> (r2 = Inr () \<longrightarrow> wire c2 = wire c1)"
    proof (cases "c_out c1 = []")
      case True
      with f ok1 show ?thesis by auto
    next
      case nout: False
      with f have "flush env c1 = (r2, c2)" by simp
      from flush_frame [OF this] ok1 scan_ok_cong [of "c_io c2" "c_io c1"] show ?thesis
        by (auto simp: conn_ok_def quiet_def only_writes_def upcoming_def io_coming_def)
    qed
    show ?thesis
    proof (cases r2)
      case (Inl e)
      with ru assms(1) False f f2 show ?thesis by auto
    next
      case (Inr u)
      define c3 where "c3 = arm (if request_started c2 then header_timeout (e_limits env)
          else idle_timeout (e_limits env)) c2"
      have r3: "reading c2 c3" "c_io c3 = c_io c2"
        using quiet_reading [OF arm_quiet] f2 by (simp_all add: c3_def)
      have ok3: "conn_ok c3" using r3 by (simp add: reading_def)
      have "read_loop env (request_started c2) c3 = (r, c')"
        using ru assms(1) False f Inr by (simp add: c3_def Let_def)
      from read_loop_reading [OF this ok3] r3 f2 hr Inr show ?thesis
        by (auto simp: reading_def blanks_append)
    qed
  qed
qed

section \<open>Turns of the loop\<close>

lemma find_head_end_take:
  assumes "find_head_end xs = Some e"
  shows "find_head_end (take e xs) = Some e"
proof -
  from assms obtain i where i: "e = i + 4" "find_sub (CRLF @ CRLF) xs = Some i" by (auto simp: find_head_end_def)
  then have p: "i \<le> length xs" "prefix (CRLF @ CRLF) (drop i xs)" "\<forall>j < i. \<not> prefix (CRLF @ CRLF) (drop j xs)"
    unfolding find_sub_Some_iff by blast+
  then obtain ys where ys: "drop i xs = CRLF @ CRLF @ ys" by (auto simp: prefix_def)
  then have tk: "take e xs = take i xs @ CRLF @ CRLF"
    using i(1) p(1) by (simp add: take_add)
  have "\<not> prefix (CRLF @ CRLF) (drop j (take e xs))" if "j < i" for j
  proof
    assume "prefix (CRLF @ CRLF) (drop j (take e xs))"
    moreover have "prefix (drop j (take e xs)) (drop j xs)" by (simp add: drop_take take_is_prefix)
    ultimately show False using p(3) that prefix_order.trans by blast
  qed
  moreover have "prefix (CRLF @ CRLF) (drop i (take e xs))" using tk p(1) by (simp add: drop_append)
  ultimately have "find_sub (CRLF @ CRLF) (take e xs) = Some i"
    using p(1) i(1) tk unfolding find_sub_Some_iff by simp
  with i(1) show ?thesis by (simp add: find_head_end_def)
qed

text \<open>A request of the stream: empty lines before it, a complete head that parses and frames, and the
  body it frames; empty lines after it may belong to it.\<close>

definition is_request :: "env \<Rightarrow> bytes \<Rightarrow> head \<Rightarrow> bytes \<Rightarrow> bool" where
  "is_request env m h content \<longleftrightarrow>
     (\<exists>a b hb cb k.
        m = blanks a @ hb @ cb @ blanks b \<and> find_head_end hb = Some (length hb)
        \<and> parse_head_region (e_httparse env) hb (length hb) (e_limits env) = Inr h
        \<and> decide h (e_limits env) = Some (Inr k) \<and> body_is k cb content)"

text \<open>A request that ends where its body does, or its head if it has none.\<close>

definition exact_request :: "env \<Rightarrow> bytes \<Rightarrow> head \<Rightarrow> bytes \<Rightarrow> bool" where
  "exact_request env m h content \<longleftrightarrow>
     (\<exists>a hb cb k.
        m = blanks a @ hb @ cb \<and> find_head_end hb = Some (length hb)
        \<and> parse_head_region (e_httparse env) hb (length hb) (e_limits env) = Inr h
        \<and> decide h (e_limits env) = Some (Inr k) \<and> body_is k cb content)"

lemma exact_request_blanks: "exact_request env m h content \<Longrightarrow> exact_request env (blanks n @ m) h content"
  unfolding exact_request_def by (metis blanks_append)

lemma decide_kind_fits:
  assumes "decide h l = Some (Inr k)" and "limits_ok l"
  shows "kind_fits k"
proof (cases k)
  case (Length n)
  with assms have "n \<le> max_body_bytes l"
    by (auto simp: decide_def decide_length_iff decide_te_not_length Let_def
        split: prod.splits if_splits option.splits sum.splits)
  with Length assms(2) show ?thesis by (simp add: kind_fits_def limits_ok_def)
qed (simp_all add: kind_fits_def)

lemma answered_append:
  "answered env h hg u w w' \<Longrightarrow> \<exists>r. w' = w @ r \<and> answered env h hg u [] r"
  unfolding answered_def by fastforce

lemma serve_head_turn:
  assumes "conn_ok c" and "limits_ok (e_limits env)" and "length (upcoming (c_io c)) < u64_range"
    and "ios_head_end (c_io c) = find_head_end (ios_buf (c_io c))"
  shows "\<exists>step c'. serve_head env c = Some (step, c')
    \<and> (step = NextRequest \<longrightarrow> conn_ok c' \<and> c_served c' = c_served c + 1 \<and>
        (\<exists>m h content. is_request env m h content \<and> is_keep_alive h \<and> upcoming (c_io c) = m @ upcoming (c_io c')
          \<and> answered env h (e_service env (c_served c) h) False (wire c) (wire c')))
    \<and> (\<forall>up. step = Served (Some up) \<longrightarrow>
        (\<exists>m h content. exact_request env m h content \<and> wants_upgrade h
          \<and> upcoming (c_io c) = m @ up_buffered up @ stream_of (rd (up_io up))
          \<and> answered env h (e_service env (c_served c) h) True (wire c) (sent (up_io up))))"
proof (cases "find_head_end (ios_buf (c_io c))")
  case None
  with assms(4) show ?thesis by (simp add: serve_head_def split_head_def)
next
  case (Some e)
  define hb where "hb = take e (ios_buf (c_io c))"
  define st where "st = reset_scan ((c_io c)\<lparr>ios_buf := drop e (ios_buf (c_io c))\<rparr>)"
  define c1 where "c1 = c\<lparr>c_io := st\<rparr>"
  have sp: "split_head (c_io c) = Some (hb, st)" using Some assms(4) by (simp add: split_head_def hb_def st_def)
  have len: "length hb = e" using find_head_end_length [OF Some] by (simp add: hb_def)
  have fh: "find_head_end hb = Some (length hb)" using find_head_end_take [OF Some] len by (simp add: hb_def)
  have up: "upcoming (c_io c) = hb @ upcoming (c_io c1)"
    by (simp add: upcoming_def io_coming_def hb_def st_def c1_def reset_scan_def)
  have sc: "scan_ok (c_io c1)" by (simp add: c1_def st_def)
  have wr: "wire c1 = wire c" "c_served c1 = c_served c" by (simp_all add: c1_def st_def wire_def reset_scan_def)
  note sh = serve_head_def [of env c, unfolded sp option.case prod.case Let_def c1_def [symmetric]]
  show ?thesis
  proof (cases "parse_head_region (e_httparse env) hb (length hb) (e_limits env)")
    case (Inl er)
    with sh show ?thesis by simp
  next
    case (Inr h)
    from parse_head_region_ok [OF Inr] have "head_wf h" by (auto simp: parsed_head_ok_def)
    then obtain d where d: "decide h (e_limits env) = Some d" using decide_total by blast
    show ?thesis
    proof (cases d)
      case (Inl er)
      with sh Inr d show ?thesis by simp
    next
      case K: (Inr k)
      with d have dk: "decide h (e_limits env) = Some (Inr k)" by simp
      obtain r c2 where b: "begin_request env h k c1 = (r, c2)" by (cases "begin_request env h k c1")
      have "length (upcoming (c_io c1)) < u64_range" using up assms(3) by simp
      note bo = begin_request_on_body [OF sc assms(2) decide_kind_fits [OF dk assms(2)] this b]
      have sh2: "serve_head env c = (case r of Inl e \<Rightarrow> Some (ServeFailed e, c2)
          | Inr held \<Rightarrow> serve_handler env h (e_service env (c_served c) h) held c2)"
        using sh Inr dk b wr by (simp add: serve_request_def Let_def)
      show ?thesis
      proof (cases r)
        case (Inl er)
        with sh2 show ?thesis by simp
      next
        case H: (Inr held)
        with bo have ob: "on_body (upcoming (c_io c1)) k c2" "c_out c2 = []"
          "ios_pending_continue (c_io c2) = (if expects_continue h then length CONTINUE else 0)"
          "held \<noteq> None \<longrightarrow> \<not> expects_continue h"
          and w: "sent (ios_io (c_io c2)) @ (case held of None \<Rightarrow> [] | Some b \<Rightarrow> b) = wire c"
          and sv: "c_served c2 = c_served c + 1" using wr by auto
        from serve_handler_turn [OF ob, of env "e_service env (c_served c) h"] obtain step c' where
          s: "serve_handler env h (e_service env (c_served c) h) held c2 = Some (step, c')"
          "turn_ok (upcoming (c_io c1)) k h c2 step c'"
          "\<forall>w'. on_wire step c' = Some w' \<longrightarrow>
            answered env h (e_service env (c_served c) h) (step \<noteq> NextRequest) (wire c) w'"
          using w by auto
        have nxt: "conn_ok c' \<and> c_served c' = c_served c + 1 \<and>
            (\<exists>m h content. is_request env m h content \<and> is_keep_alive h \<and> upcoming (c_io c) = m @ upcoming (c_io c')
              \<and> answered env h (e_service env (c_served c) h) False (wire c) (wire c'))" if n: "step = NextRequest"
        proof -
          from s(2) n obtain cb content j where t: "conn_ok c'" "is_keep_alive h" "c_served c' = c_served c2"
            "body_is k cb content" "upcoming (c_io c1) = cb @ blanks j @ upcoming (c_io c')"
            by (auto simp: turn_ok_def)
          have "is_request env (blanks 0 @ hb @ cb @ blanks j) h content"
            unfolding is_request_def using fh Inr dk t(4) by blast
          moreover have "upcoming (c_io c) = (blanks 0 @ hb @ cb @ blanks j) @ upcoming (c_io c')"
            using up t(5) by (simp add: blanks_def)
          moreover have "answered env h (e_service env (c_served c) h) False (wire c) (wire c')"
            using s(3) n by (simp add: on_wire_def)
          ultimately show ?thesis using t sv by metis
        qed
        have "\<exists>m h content. exact_request env m h content \<and> wants_upgrade h
          \<and> upcoming (c_io c) = m @ up_buffered u @ stream_of (rd (up_io u))
          \<and> answered env h (e_service env (c_served c) h) True (wire c) (sent (up_io u))" if n: "step = Served (Some u)" for u
        proof -
          from s(2) n obtain cb content where t: "wants_upgrade h" "body_is k cb content"
            "upcoming (c_io c1) = cb @ up_buffered u @ stream_of (rd (up_io u))" by (auto simp: turn_ok_def)
          have "exact_request env (blanks 0 @ hb @ cb) h content"
            unfolding exact_request_def using fh Inr dk t(2) by blast
          moreover have "upcoming (c_io c) = (blanks 0 @ hb @ cb) @ up_buffered u @ stream_of (rd (up_io u))"
            using up t(3) by (simp add: blanks_def)
          moreover have "answered env h (e_service env (c_served c) h) True (wire c) (sent (up_io u))"
            using s(3) n by (simp add: on_wire_def)
          ultimately show ?thesis using t(1) by metis
        qed
        with nxt sh2 H s(1) show ?thesis by auto
      qed
    qed
  qed
qed

lemma is_request_blanks: "is_request env m h content \<Longrightarrow> is_request env (blanks n @ m) h content"
  unfolding is_request_def by (metis blanks_append)

lemma is_request_length: "is_request env m h content \<Longrightarrow> 4 \<le> length m"
  unfolding is_request_def using find_head_end_length by fastforce

text \<open>What a turn of the loop that reads on did: it took one request from the front of the stream and
  put its response at the end of what goes out.\<close>

definition exchanged :: "env \<Rightarrow> conn \<Rightarrow> conn \<Rightarrow> bool" where
  "exchanged env c c' \<longleftrightarrow>
     conn_ok c' \<and> c_served c' = c_served c + 1
     \<and> (\<exists>m h content. is_request env m h content \<and> is_keep_alive h \<and> upcoming (c_io c) = m @ upcoming (c_io c')
          \<and> answered env h (e_service env (c_served c) h) False (wire c) (wire c'))"

definition handed_over :: "env \<Rightarrow> conn \<Rightarrow> upgraded \<Rightarrow> bool" where
  "handed_over env c up \<longleftrightarrow>
     (\<exists>m h content. exact_request env m h content \<and> wants_upgrade h
        \<and> upcoming (c_io c) = m @ up_buffered up @ stream_of (rd (up_io up))
        \<and> answered env h (e_service env (c_served c) h) True (wire c) (sent (up_io up)))"

lemma serve_turn_ok:
  assumes "conn_ok c" and "limits_ok (e_limits env)" and "length (upcoming (c_io c)) < u64_range"
  shows "\<exists>step c'. serve_turn env c = Some (step, c')
    \<and> (step = NextRequest \<longrightarrow> exchanged env c c')
    \<and> (\<forall>up. step = Served (Some up) \<longrightarrow> handed_over env c up)"
proof -
  obtain r c1 where r: "read_until_head_or_idle env c = (r, c1)" by (cases "read_until_head_or_idle env c")
  note rd = read_until_reading [OF r assms(1)]
  note st = serve_turn_def [of env c, unfolded r prod.case]
  show ?thesis
  proof (cases "r = Inr HeadReady")
    case False
    then show ?thesis using st by (auto split: sum.split head_outcome.split)
  next
    case True
    with rd obtain n where n: "conn_ok c1" "wire c1 = wire c" "c_served c1 = c_served c"
      "upcoming (c_io c) = blanks n @ upcoming (c_io c1)"
      "ios_head_end (c_io c1) = find_head_end (ios_buf (c_io c1))" by blast
    with assms(3) have "length (upcoming (c_io c1)) < u64_range" by simp
    from serve_head_turn [OF n(1) assms(2) this n(5)] obtain step c' where
      s: "serve_head env c1 = Some (step, c')"
      and nx: "step = NextRequest \<longrightarrow> exchanged env c1 c'"
      and up: "\<forall>up. step = Served (Some up) \<longrightarrow> handed_over env c1 up"
      unfolding exchanged_def handed_over_def by blast
    have "exchanged env c1 c' \<Longrightarrow> exchanged env c c'" "handed_over env c1 u \<Longrightarrow> handed_over env c u" for u
      unfolding exchanged_def handed_over_def
      using n(2-4) is_request_blanks exact_request_blanks by (metis append.assoc)+
    with s nx up True st show ?thesis by auto
  qed
qed

end
