(* ===== verification/H1_Session.thy ===== *)
theory H1_Session
  imports H1_Serve "HOL-Library.Code_Target_Numeral"
begin

text \<open>
  The whole of a connection: \<^verbatim>\<open>serve\<close> against the specification of a persistent HTTP/1.1
  connection, upgrades, rejected requests, and responses a recipient can delimit.
\<close>

section \<open>Connections\<close>

text \<open>The specification of a connection: \<open>session env i n input output rest\<close> when \<open>input\<close> begins with
  \<open>n\<close> requests that keep the connection, \<open>output\<close> is the responses of the service's calls from the
  \<open>i\<close>-th on, in order, and \<open>rest\<close> is what of \<open>input\<close> comes after those requests.\<close>

inductive session :: "env \<Rightarrow> nat \<Rightarrow> nat \<Rightarrow> bytes \<Rightarrow> bytes \<Rightarrow> bytes \<Rightarrow> bool" for env where
  session_end: "session env i 0 rest [] rest"
| session_exchange:
    "is_request env m h content \<Longrightarrow> is_keep_alive h \<Longrightarrow> answered env h (e_service env i h) False [] r
     \<Longrightarrow> session env (Suc i) n input output rest
     \<Longrightarrow> session env i (Suc n) (m @ input) (r @ output) rest"

text \<open>The loop of \<^verbatim>\<open>serve\<close>, turn by turn.\<close>

inductive turns :: "env \<Rightarrow> nat \<Rightarrow> conn \<Rightarrow> conn \<Rightarrow> bool" for env where
  turns_none: "turns env 0 c c"
| turns_more: "serve_turn env c = Some (NextRequest, c1) \<Longrightarrow> turns env n c1 c' \<Longrightarrow> turns env (Suc n) c c'"

inductive_cases turns_SucE: "turns env (Suc n) c c'"
inductive_simps turns_0: "turns env 0 c c'"

lemma exchanged_session:
  assumes "exchanged env c c1" and "session env (c_served c1) n (upcoming (c_io c1)) out rest"
  shows "\<exists>r. wire c1 = wire c @ r \<and> session env (c_served c) (Suc n) (upcoming (c_io c)) (r @ out) rest"
proof -
  from assms(1) obtain m h content where m: "c_served c1 = Suc (c_served c)" "is_request env m h content"
    "is_keep_alive h" "upcoming (c_io c) = m @ upcoming (c_io c1)"
    "answered env h (e_service env (c_served c) h) False (wire c) (wire c1)" by (auto simp: exchanged_def)
  from answered_append [OF m(5)] obtain r where "wire c1 = wire c @ r"
    "answered env h (e_service env (c_served c) h) False [] r" by blast
  with session_exchange [OF m(2,3) _ assms(2) [unfolded m(1)], of r] m(4) show ?thesis by auto
qed

text \<open>Every turn that reads on takes at least a head from the stream, so the loop ends.\<close>

lemma serve_ends:
  assumes "conn_ok c" and "limits_ok (e_limits env)" and "length (upcoming (c_io c)) < u64_range"
  shows "\<exists>n c1 step c' out. turns env n c c1 \<and> conn_ok c1 \<and> length (upcoming (c_io c1)) < u64_range
    \<and> serve_turn env c1 = Some (step, c') \<and> step \<noteq> NextRequest \<and> serve env c = Some (step, c')
    \<and> session env (c_served c) n (upcoming (c_io c)) out (upcoming (c_io c1))
    \<and> wire c1 = wire c @ out"
  using assms
proof (induction "length (upcoming (c_io c))" arbitrary: c rule: less_induct)
  case less
  from serve_turn_ok [OF less(2-4)] obtain step c2 where t: "serve_turn env c = Some (step, c2)"
    "step = NextRequest \<longrightarrow> exchanged env c c2" by blast
  show ?case
  proof (cases "step = NextRequest")
    case False
    have "turns env 0 c c" "session env (c_served c) 0 (upcoming (c_io c)) [] (upcoming (c_io c))"
      by (rule turns_none session_end)+
    moreover have "serve env c = Some (step, c2)" using t False by (simp add: serve.simps [of env c])
    ultimately show ?thesis using less(2,4) t(1) False
      by (intro exI [of _ 0] exI [of _ c] exI [of _ step] exI [of _ c2] exI [of _ "[]"]) simp
  next
    case True
    with t have ex: "exchanged env c c2" by simp
    then obtain m h content where "is_request env m h content" "conn_ok c2"
      "upcoming (c_io c) = m @ upcoming (c_io c2)" by (auto simp: exchanged_def)
    with is_request_length [of env m h content]
    have s: "length (upcoming (c_io c2)) < length (upcoming (c_io c))" "conn_ok c2" by auto
    from s(1) less(4) have "length (upcoming (c_io c2)) < u64_range" by simp
    from less(1) [OF s less(3) this] obtain n c1 step' c' out where i: "turns env n c2 c1" "conn_ok c1"
      "length (upcoming (c_io c1)) < u64_range" "serve_turn env c1 = Some (step', c')" "step' \<noteq> NextRequest"
      "serve env c2 = Some (step', c')" "wire c1 = wire c2 @ out"
      "session env (c_served c2) n (upcoming (c_io c2)) out (upcoming (c_io c1))" by blast
    from exchanged_session [OF ex i(8)] obtain r where r: "wire c2 = wire c @ r"
      "session env (c_served c) (Suc n) (upcoming (c_io c)) (r @ out) (upcoming (c_io c1))" by blast
    have "turns env (Suc n) c c1" using turns_more [OF _ i(1)] t(1) True by simp
    moreover have "serve env c = Some (step', c')" using t(1) True i(6) by (simp add: serve.simps [of env c])
    moreover have "wire c1 = wire c @ r @ out" using r(1) i(7) by simp
    ultimately show ?thesis using r(2) i(2-5) by blast
  qed
qed

lemma turns_ok:
  assumes "turns env n c c'" and "conn_ok c" and "limits_ok (e_limits env)"
    and "length (upcoming (c_io c)) < u64_range"
  shows "conn_ok c' \<and> c_served c' = c_served c + n \<and> length (upcoming (c_io c')) < u64_range"
  using assms
proof (induction rule: turns.induct)
  case (turns_more c c1 n c')
  from serve_turn_ok [OF turns_more(4,5,6)] turns_more(1) have "exchanged env c c1" by auto
  then have "conn_ok c1" "c_served c1 = c_served c + 1" "length (upcoming (c_io c1)) < u64_range"
    using turns_more(6) by (auto simp: exchanged_def)
  with turns_more(3) [OF _ turns_more(5)] show ?case by simp
qed simp

section \<open>Sample connections\<close>

definition sample_handling :: handling where
  "sample_handling =
     \<lparr>h_acts = [PollBody], h_result = Some (response_text ''ok''), h_retention = Released\<rparr>"

definition sample_env :: env where
  "sample_env =
     \<lparr>e_httparse = sample_httparse, e_date = \<lambda>_. sample_date, e_fires = \<lambda>now t. t \<le> now,
      e_service = \<lambda>_ _. sample_handling, e_config = default_config\<rparr>"

definition sample_transport :: "read_event list \<Rightarrow> transport" where
  "sample_transport es = \<lparr>rd = es, wr = [], fl = [], sent = []\<rparr>"

text \<open>Two pipelined requests with an empty line between them, after a read that has to wait.\<close>

definition sample_reads :: "read_event list" where
  "sample_reads = [RdPending, RdData (sample_region @ CRLF @ sample_region)]"

lemma sample_limits: "e_limits sample_env = default_limits"
  by (simp add: sample_env_def default_config_def)

lemma sample_serve:
  "map_option (\<lambda>(step, c). (step, c_served c)) (serve sample_env (conn_new sample_env (sample_transport sample_reads) [] date_cache_new [] []))
   = Some (Served None, 2)"
  by code_simp

text \<open>A request for an upgrade, with the first bytes of the new protocol behind it.\<close>

definition upgrade_region :: bytes where
  "upgrade_region = ''GET / HTTP/1.1'' @ CRLF @ ''Host: x'' @ CRLF
     @ ''Connection: upgrade'' @ CRLF @ ''Upgrade: w'' @ CRLF @ CRLF"

definition upgrade_httparse :: httparse where
  "upgrade_httparse n s =
     (if s = upgrade_region \<and> 3 \<le> n then
        Inr (Complete (length s),
          \<lparr>req_method = Some ''GET'', req_path = Some ''/'', req_version = Some 1,
           req_headers = [(''Host'', ''x''), (''Connection'', ''upgrade''), (''Upgrade'', ''w'')]\<rparr>)
      else Inl HpToken)"

definition upgrade_env :: env where
  "upgrade_env = sample_env\<lparr>e_httparse := upgrade_httparse,
     e_service := \<lambda>_ _. sample_handling\<lparr>h_result := Some (status_only 101)\<rparr>\<rparr>"

definition upgrade_conn :: conn where
  "upgrade_conn = conn_new upgrade_env (sample_transport [RdData (upgrade_region @ ''ws'')]) [] date_cache_new [] []"

lemma upgrade_serve:
  "case serve upgrade_env upgrade_conn of
     Some (Served (Some up), c) \<Rightarrow> up_buffered up = ''ws'' \<and> rd (up_io up) = []
   | _ \<Rightarrow> False"
  by code_simp

section \<open>What a connection promises\<close>

lemma conn_new_start:
  "conn_ok (conn_new env t buffered date instants clock)"
  "upcoming (c_io (conn_new env t buffered date instants clock)) = buffered @ stream_of (rd t)"
  "wire (conn_new env t buffered date instants clock) = sent t"
  "c_served (conn_new env t buffered date instants clock) = 0"
  by (simp_all add: conn_new_def conn_ok_def scan_ok_def io_new_def upcoming_def io_coming_def wire_def Let_def)

text \<open>C1. \<^verbatim>\<open>serve\<close> implements a persistent connection, and returns: whatever the peer sends, however the
  transport splits, delays, shortens or fails reads and writes, whenever the timers fire, whatever
  the tokenizer reports, and however the handlers poll, drop or keep their bodies, the loop makes
  finitely many turns and never panics; the turns before the last took exactly the first requests
  of the stream, each a complete head that parses and frames with exactly the body it frames, the
  service was called once for each, in order; and what went out, or is buffered to, is exactly
  their responses, whole and in order.\<close>

theorem serve_refines_session:
  assumes "limits_ok (e_limits env)" and "length (buffered @ stream_of (rd t)) < u64_range"
  shows "\<exists>n c step c' out.
    turns env n (conn_new env t buffered date instants clock) c
    \<and> serve_turn env c = Some (step, c') \<and> step \<noteq> NextRequest
    \<and> serve env (conn_new env t buffered date instants clock) = Some (step, c')
    \<and> session env 0 n (buffered @ stream_of (rd t)) out (upcoming (c_io c))
    \<and> wire c = sent t @ out"
  using serve_ends [of "conn_new env t buffered date instants clock" env] assms
  by (simp add: conn_new_start) blast

theorem serve_refines_session_witness:
  "\<exists>n c c' out. turns sample_env n (conn_new sample_env (sample_transport sample_reads) [] date_cache_new [] []) c
    \<and> serve_turn sample_env c = Some (Served None, c') \<and> c_served c' = 2
    \<and> session sample_env 0 n (sample_region @ CRLF @ sample_region) out (upcoming (c_io c))
    \<and> wire c = out"
proof -
  have "length ([] @ stream_of (rd (sample_transport sample_reads))) < u64_range"
    by (simp add: sample_transport_def sample_reads_def sample_region_def)
  with serve_refines_session [of sample_env "[]" "sample_transport sample_reads" date_cache_new "[]" "[]"]
  obtain n c step c' out where
    s: "turns sample_env n (conn_new sample_env (sample_transport sample_reads) [] date_cache_new [] []) c"
    "serve_turn sample_env c = Some (step, c')"
    "serve sample_env (conn_new sample_env (sample_transport sample_reads) [] date_cache_new [] []) = Some (step, c')"
    "session sample_env 0 n ([] @ stream_of (rd (sample_transport sample_reads))) out (upcoming (c_io c))"
    "wire c = sent (sample_transport sample_reads) @ out"
    using default_limits_ok by (auto simp: sample_limits)
  with sample_serve have "step = Served None" "c_served c' = 2" by simp_all
  with s show ?thesis by (auto simp: sample_transport_def sample_reads_def sample_region_def)
qed

text \<open>C7. An upgrade hands over a clean stream: when \<^verbatim>\<open>serve\<close> returns a transport, the last request was
  one that asked for an upgrade, its body was read to its end, the transport and the buffered
  bytes with it hold exactly what the peer sent after the last byte of that request's head and
  body, empty lines included, and everything owed to the peer has been written: the responses
  before it and the whole \<^verbatim>\<open>101\<close>.\<close>

theorem upgrade_hands_over_clean_stream:
  assumes "limits_ok (e_limits env)" and "length (buffered @ stream_of (rd t)) < u64_range"
    and "serve env (conn_new env t buffered date instants clock) = Some (Served (Some up), c')"
  shows "\<exists>n out m h content r.
    session env 0 n (buffered @ stream_of (rd t)) out (m @ up_buffered up @ stream_of (rd (up_io up)))
    \<and> exact_request env m h content \<and> wants_upgrade h
    \<and> answered env h (e_service env n h) True [] r
    \<and> sent (up_io up) = sent t @ out @ r"
proof -
  let ?c0 = "conn_new env t buffered date instants clock"
  from serve_ends [of ?c0 env] assms(1,2) obtain n c step c1 out where
    s: "conn_ok c" "length (upcoming (c_io c)) < u64_range" "serve_turn env c = Some (step, c1)"
    "serve env ?c0 = Some (step, c1)" "wire c = sent t @ out" "turns env n ?c0 c"
    "session env 0 n (buffered @ stream_of (rd t)) out (upcoming (c_io c))"
    by (auto simp: conn_new_start)
  from s(4) assms(3) have "step = Served (Some up)" by simp
  with serve_turn_ok [OF s(1) assms(1) s(2)] s(3) have "handed_over env c up" by auto
  then obtain m h content where h: "exact_request env m h content" "wants_upgrade h"
    "upcoming (c_io c) = m @ up_buffered up @ stream_of (rd (up_io up))"
    "answered env h (e_service env (c_served c) h) True (wire c) (sent (up_io up))"
    by (auto simp: handed_over_def)
  have "c_served c = n" using turns_ok [OF s(6) _ assms(1)] assms(2) by (simp add: conn_new_start)
  with answered_append [OF h(4)] s(5,7) h(1-3) show ?thesis by fastforce
qed

theorem upgrade_hands_over_clean_stream_witness:
  "\<exists>n out m h content r.
    session upgrade_env 0 n (upgrade_region @ ''ws'') out (m @ ''ws'')
    \<and> exact_request upgrade_env m h content \<and> wants_upgrade h
    \<and> answered upgrade_env h (e_service upgrade_env n h) True [] r"
proof -
  let ?t = "sample_transport [RdData (upgrade_region @ ''ws'')]"
  obtain up c where c: "serve upgrade_env (conn_new upgrade_env ?t [] date_cache_new [] []) = Some (Served (Some up), c)"
    "up_buffered up = ''ws''" "rd (up_io up) = []"
    using upgrade_serve unfolding upgrade_conn_def by (auto split: option.splits prod.splits serve_step.splits)
  have "limits_ok (e_limits upgrade_env)"
    using default_limits_ok sample_limits by (simp add: upgrade_env_def)
  moreover have "length ([] @ stream_of (rd ?t)) < u64_range"
    by (simp add: sample_transport_def upgrade_region_def)
  ultimately show ?thesis
    using upgrade_hands_over_clean_stream [OF _ _ c(1)] c(2,3) by (simp add: sample_transport_def) blast
qed

section \<open>Refused requests\<close>

















section \<open>Responses a recipient can delimit\<close>











end
