(* ===== verification/H1_Balance.thy ===== *)
theory H1_Balance
  imports H1_Limits
begin

unbundle bit_operations_syntax

text \<open>
  Cross-worker balancing in \<^verbatim>\<open>src/src/server.rs\<close>: \<^verbatim>\<open>Balance\<close>, which counts the open connections of each
  worker and decides where an accepted one goes.

  The first part is each operation run alone.  The second is what any number of threads running
  them at once can do, one rule per atomic access to a count.  An index is that of a worker, so in
  range, in every call of the source; statements carry that as a hypothesis.
\<close>

section \<open>The operations\<close>

definition HANDOFF_MARGIN :: nat where
  "HANDOFF_MARGIN = 2"

definition PICK_SAMPLES :: nat where
  "PICK_SAMPLES = 3"

definition RETIRED :: nat where
  "RETIRED = (2 ^ 64 - 1) div 2"

definition next_random :: "64 word \<Rightarrow> 64 word" where
  "next_random s =
     (let x = s;
          x = x XOR push_bit 13 x;
          x = x XOR drop_bit 7 x
      in x XOR push_bit 17 x)"

text \<open>The counts, the cap, and for each worker whether its \<^verbatim>\<open>Notify\<close> holds a permit.\<close>

record balance =
  b_open :: "nat list"
  b_freed :: "bool list"
  b_cap :: nat

definition balance_new :: "nat \<Rightarrow> nat \<Rightarrow> balance" where
  "balance_new workers cap =
     \<lparr>b_open = replicate workers 0, b_freed = replicate workers False, b_cap = max cap 1\<rparr>"

definition open_count :: "balance \<Rightarrow> nat \<Rightarrow> nat" where
  "open_count b w = b_open b ! w"

definition has_room :: "balance \<Rightarrow> bool" where
  "has_room b = list_ex (\<lambda>i. open_count b i < b_cap b) [0..<length (b_open b)]"

text \<open>With no other thread the first compare-and-swap of \<^verbatim>\<open>reserve\<close> succeeds.\<close>

definition reserve :: "balance \<Rightarrow> nat \<Rightarrow> bool \<times> balance" where
  "reserve b w =
     (let n = open_count b w
      in if n < b_cap b then (True, b\<lparr>b_open := (b_open b)[w := n + 1]\<rparr>) else (False, b))"

definition release :: "balance \<Rightarrow> nat \<Rightarrow> balance" where
  "release b w =
     b\<lparr>b_open := (b_open b)[w := wrapping_sub_u64 (open_count b w) 1], b_freed := (b_freed b)[w := True]\<rparr>"

definition retire :: "balance \<Rightarrow> nat \<Rightarrow> balance" where
  "retire b w = b\<lparr>b_open := (b_open b)[w := RETIRED]\<rparr>"

definition consider_worker :: "balance \<Rightarrow> nat \<times> nat \<Rightarrow> nat \<Rightarrow> nat \<times> nat" where
  "consider_worker b best i =
     (let n = open_count b i in if n < snd best then (i, n) else best)"

fun sample :: "balance \<Rightarrow> nat \<Rightarrow> nat \<times> nat \<Rightarrow> 64 word \<Rightarrow> (nat \<times> nat) \<times> 64 word" where
  "sample b 0 best rng = (best, rng)"
| "sample b (Suc k) best rng =
     (let rng = next_random rng
      in sample b k (consider_worker b best (unat (rng mod word_of_nat (length (b_open b))))) rng)"

definition pick :: "balance \<Rightarrow> nat \<Rightarrow> 64 word \<Rightarrow> nat \<times> 64 word" where
  "pick b me rng =
     (let mine = open_count b me in
      if mine < HANDOFF_MARGIN then (me, rng)
      else
        (let workers = length (b_open b);
             ((best, best_open), rng) =
               (if workers \<le> PICK_SAMPLES + 1 then (foldl (consider_worker b) (me, mine) [0..<workers], rng)
                else sample b PICK_SAMPLES (me, mine) rng)
         in (if mine - best_open \<ge> HANDOFF_MARGIN then best else me, rng)))"

fun reserve_first :: "balance \<Rightarrow> nat list \<Rightarrow> nat option \<times> balance" where
  "reserve_first b [] = (None, b)"
| "reserve_first b (i # ws) =
     (case reserve b i of (True, b) \<Rightarrow> (Some i, b) | (False, b) \<Rightarrow> reserve_first b ws)"

definition place :: "balance \<Rightarrow> nat \<Rightarrow> 64 word \<Rightarrow> nat option \<times> balance \<times> 64 word" where
  "place b me rng =
     (let (target, rng) = pick b me rng;
          (r, b) = (if target \<noteq> me then reserve b target else (False, b))
      in if r then (Some target, b, rng)
         else
           (case reserve b me of
              (True, b) \<Rightarrow> (Some me, b, rng)
            | (False, b) \<Rightarrow>
                (case reserve_first b [0..<length (b_open b)] of (t, b) \<Rightarrow> (t, b, rng))))"

section \<open>The sampler\<close>

lemma bits_zero:
  fixes x :: "64 word"
  assumes "\<And>n. bit x n \<Longrightarrow> \<exists>m < n. bit x m"
  shows "x = 0"
proof -
  have "\<not> bit x n" for n
    by (induction n rule: less_induct) (use assms in blast)
  then show ?thesis by (simp add: bit_eq_iff)
qed

lemma xor_eq_zero: "(x :: 64 word) XOR y = 0 \<longleftrightarrow> x = y"
  by (auto simp: bit_eq_iff bit_xor_iff)

lemma xor_left_zero:
  fixes x :: "64 word"
  assumes "0 < k"
  shows "x XOR push_bit k x = 0 \<longleftrightarrow> x = 0"
proof
  assume "x XOR push_bit k x = 0"
  then have eq: "x = push_bit k x" by (simp add: xor_eq_zero)
  show "x = 0"
  proof (rule bits_zero)
    fix n assume "bit x n"
    then have "bit (push_bit k x) n" using eq by simp
    then have "k \<le> n" "bit x (n - k)" by (simp_all add: bit_push_bit_iff)
    with assms show "\<exists>m < n. bit x m" by (intro exI [of _ "n - k"]) simp
  qed
qed simp

lemma xor_right_zero:
  fixes x :: "64 word"
  assumes "0 < k"
  shows "x XOR drop_bit k x = 0 \<longleftrightarrow> x = 0"
proof
  assume "x XOR drop_bit k x = 0"
  then have eq: "x = drop_bit k x" by (simp add: xor_eq_zero)
  have "\<not> bit x n" for n
  proof (induction "64 - n" arbitrary: n rule: less_induct)
    case less
    show ?case
    proof
      assume b: "bit x n"
      then have "n < 64" using bit_imp_le_length [of x n] by simp
      moreover have "bit (drop_bit k x) n" using b eq by simp
      then have "bit x (k + n)" by (simp add: bit_drop_bit_eq)
      ultimately show False using less [of "k + n"] assms by simp
    qed
  qed
  then show "x = 0" by (simp add: bit_eq_iff)
qed simp

text \<open>The sampler never reaches zero, which it would never leave.\<close>

lemma next_random_zero: "next_random s = 0 \<longleftrightarrow> s = 0"
proof -
  define x where "x = s XOR push_bit 13 s"
  define y where "y = x XOR drop_bit 7 x"
  have "next_random s = y XOR push_bit 17 y" by (simp only: next_random_def Let_def x_def y_def)
  moreover have "y XOR push_bit 17 y = 0 \<longleftrightarrow> y = 0" by (rule xor_left_zero) simp
  moreover have "y = 0 \<longleftrightarrow> x = 0" unfolding y_def by (rule xor_right_zero) simp
  moreover have "x = 0 \<longleftrightarrow> s = 0" unfolding x_def by (rule xor_left_zero) simp
  ultimately show ?thesis by simp
qed

section \<open>Picking and placing\<close>

abbreviation workers :: "balance \<Rightarrow> nat" where
  "workers b \<equiv> length (b_open b)"

text \<open>A candidate of \<open>pick\<close>: the accepting worker itself or one with a smaller count.\<close>

definition candidate :: "balance \<Rightarrow> nat \<Rightarrow> nat \<times> nat \<Rightarrow> bool" where
  "candidate b me best \<longleftrightarrow>
     fst best < workers b \<and> snd best = open_count b (fst best)
     \<and> (fst best = me \<or> snd best < open_count b me)"

lemma consider_candidate:
  assumes "candidate b me best" and "i < workers b"
  shows "candidate b me (consider_worker b best i) \<and> snd (consider_worker b best i) \<le> snd best
    \<and> snd (consider_worker b best i) \<le> open_count b i"
  using assms by (auto simp: candidate_def consider_worker_def Let_def)

lemma foldl_candidate:
  assumes "candidate b me best" and "\<forall>i \<in> set ws. i < workers b"
  shows "candidate b me (foldl (consider_worker b) best ws) \<and> snd (foldl (consider_worker b) best ws) \<le> snd best
    \<and> (\<forall>i \<in> set ws. snd (foldl (consider_worker b) best ws) \<le> open_count b i)"
  using assms
proof (induction ws arbitrary: best)
  case (Cons i ws)
  then have c: "candidate b me (consider_worker b best i)" "snd (consider_worker b best i) \<le> snd best"
    "snd (consider_worker b best i) \<le> open_count b i" using consider_candidate by simp_all
  from Cons.IH [OF c(1)] Cons.prems(2) c(2,3) show ?case by (auto intro: order_trans)
qed simp

lemma sample_candidate:
  assumes "candidate b me best" and "0 < workers b" and "workers b < 2 ^ 64"
  shows "candidate b me (fst (sample b k best rng))"
  using assms(1)
proof (induction k arbitrary: best rng)
  case (Suc k)
  have "unat (next_random rng mod word_of_nat (workers b)) < workers b"
    using assms(2,3) by (simp add: unat_mod unat_of_nat)
  with Suc.prems consider_candidate have
    "candidate b me (consider_worker b best (unat (next_random rng mod word_of_nat (workers b))))" by blast
  from Suc.IH [OF this] show ?case by (simp add: Let_def)
qed simp

lemma pick_worker:
  assumes "pick b me rng = (t, rng')" and "me < workers b" and "workers b < 2 ^ 64"
  shows "t < workers b \<and> (t \<noteq> me \<longrightarrow> open_count b t + HANDOFF_MARGIN \<le> open_count b me)
    \<and> (workers b \<le> PICK_SAMPLES + 1 \<longrightarrow>
        (if t = me then \<forall>i < workers b. open_count b me < open_count b i + HANDOFF_MARGIN
         else \<forall>i < workers b. open_count b t \<le> open_count b i))"
proof -
  let ?mine = "open_count b me"
  have c0: "candidate b me (me, ?mine)" using assms(2) by (simp add: candidate_def)
  show ?thesis
  proof (cases "?mine < HANDOFF_MARGIN")
    case True
    with assms(1,2) show ?thesis by (auto simp: pick_def)
  next
    case False
    define best where "best = (if workers b \<le> PICK_SAMPLES + 1
      then foldl (consider_worker b) (me, ?mine) [0..<workers b] else fst (sample b PICK_SAMPLES (me, ?mine) rng))"
    have "0 < workers b" using assms(2) by linarith
    then have cb: "candidate b me best"
      using foldl_candidate [OF c0, of "[0..<workers b]"] sample_candidate [OF c0 _ assms(3), of PICK_SAMPLES rng]
      by (simp add: best_def)
    have mn: "\<forall>i < workers b. snd best \<le> open_count b i" if "workers b \<le> PICK_SAMPLES + 1"
      using foldl_candidate [OF c0, of "[0..<workers b]"] that by (simp add: best_def)
    have "t = (if ?mine - snd best \<ge> HANDOFF_MARGIN then fst best else me)"
      using assms(1) False by (auto simp: pick_def best_def Let_def split: prod.splits if_splits)
    with cb mn assms(2) False show ?thesis
      by (auto simp: candidate_def HANDOFF_MARGIN_def split: if_splits)
         (use mn in \<open>fastforce simp: candidate_def\<close>)+
  qed
qed

lemma reserve_simps:
  "reserve b w = (True, b') \<longleftrightarrow>
     open_count b w < b_cap b \<and> b' = b\<lparr>b_open := (b_open b)[w := open_count b w + 1]\<rparr>"
  "reserve b w = (False, b') \<longleftrightarrow> b_cap b \<le> open_count b w \<and> b' = b"
  by (auto simp: reserve_def Let_def)

lemma reserve_first_exact:
  "reserve_first b ws = (r, b') \<Longrightarrow>
    (case r of
       Some t \<Rightarrow> t \<in> set ws \<and> open_count b t < b_cap b \<and> b' = b\<lparr>b_open := (b_open b)[t := open_count b t + 1]\<rparr>
     | None \<Rightarrow> b' = b \<and> (\<forall>i \<in> set ws. b_cap b \<le> open_count b i))"
proof (induction b ws rule: reserve_first.induct)
  case (2 b i ws)
  obtain q b1 where q: "reserve b i = (q, b1)" by (cases "reserve b i")
  show ?case
  proof (cases q)
    case True
    with 2(2) q show ?thesis by (auto simp: reserve_simps)
  next
    case False
    with q have "b1 = b" "b_cap b \<le> open_count b i" by (auto simp: reserve_simps)
    moreover from 2(2) q False \<open>b1 = b\<close> have "reserve_first b ws = (r, b')" by simp
    ultimately show ?thesis using 2(1) [of q b1] q False by (auto split: option.splits)
  qed
qed auto

lemma place_spec:
  assumes "me < workers b" and "workers b < 2 ^ 64" and "place b me rng = (r, b', rng')"
  shows "case r of
      Some t \<Rightarrow> t < workers b \<and> open_count b t < b_cap b
        \<and> b' = b\<lparr>b_open := (b_open b)[t := open_count b t + 1]\<rparr>
        \<and> (t \<noteq> me \<longrightarrow> open_count b t + HANDOFF_MARGIN \<le> open_count b me \<or> b_cap b \<le> open_count b me)
        \<and> (workers b \<le> PICK_SAMPLES + 1 \<and> open_count b me < b_cap b \<longrightarrow>
            (if t = me then \<forall>i < workers b. open_count b me < open_count b i + HANDOFF_MARGIN
             else \<forall>i < workers b. open_count b t \<le> open_count b i))
    | None \<Rightarrow> b' = b \<and> \<not> has_room b"
proof -
  obtain t rng1 where t: "pick b me rng = (t, rng1)" by (cases "pick b me rng")
  note pk = pick_worker [OF t assms(1,2)]
  obtain q b1 where q: "(if t \<noteq> me then reserve b t else (False, b)) = (q, b1)"
    by (cases "if t \<noteq> me then reserve b t else (False, b)")
  note pl = assms(3) [unfolded place_def Let_def t prod.case q]
  show ?thesis
  proof (cases q)
    case True
    with q have "t \<noteq> me" "open_count b t < b_cap b" "b1 = b\<lparr>b_open := (b_open b)[t := open_count b t + 1]\<rparr>"
      by (auto simp: reserve_simps split: if_splits)
    with True pl pk show ?thesis by auto
  next
    case False
    with q have b1: "b1 = b" "t \<noteq> me \<longrightarrow> b_cap b \<le> open_count b t" by (auto simp: reserve_simps split: if_splits)
    obtain q2 b2 where q2: "reserve b me = (q2, b2)" by (cases "reserve b me")
    show ?thesis
    proof (cases q2)
      case True
      with q2 have m: "open_count b me < b_cap b" "b2 = b\<lparr>b_open := (b_open b)[me := open_count b me + 1]\<rparr>"
        by (auto simp: reserve_simps)
      then have "t = me" using b1(2) pk by auto
      with m True pl False b1 q2 pk assms(1) show ?thesis by auto
    next
      case F2: False
      with q2 have m: "b_cap b \<le> open_count b me" "b2 = b" by (auto simp: reserve_simps)
      obtain r3 b3 where f: "reserve_first b [0..<workers b] = (r3, b3)"
        by (cases "reserve_first b [0..<workers b]")
      from reserve_first_exact [OF f] pl False b1 q2 F2 m f show ?thesis
        by (auto simp: has_room_def list_ex_iff split: option.splits)
    qed
  qed
qed

text \<open>C29. Placement is exact: a connection goes to a worker below its cap and takes exactly one slot
  there, and it is not placed only when every worker is at its cap; it leaves the worker that
  accepted it only for one with at least two connections fewer, or because that worker is full;
  and with at most four workers it is the least loaded of all that is picked.\<close>

theorem place_exact:
  assumes "me < workers b" and "workers b < 2 ^ 64" and "place b me rng = (r, b', rng')"
  shows "case r of
      Some t \<Rightarrow> t < workers b \<and> open_count b t < b_cap b
        \<and> b' = b\<lparr>b_open := (b_open b)[t := open_count b t + 1]\<rparr>
        \<and> (t \<noteq> me \<longrightarrow> open_count b t + HANDOFF_MARGIN \<le> open_count b me \<or> b_cap b \<le> open_count b me)
        \<and> (workers b \<le> PICK_SAMPLES + 1 \<and> open_count b me < b_cap b \<longrightarrow>
            (if t = me then \<forall>i < workers b. open_count b me < open_count b i + HANDOFF_MARGIN
             else \<forall>i < workers b. open_count b t \<le> open_count b i))
    | None \<Rightarrow> b' = b \<and> \<not> has_room b"
  using assms by (rule place_spec)

definition sample_balance :: balance where
  "sample_balance = \<lparr>b_open = [5, 5, 3, 3], b_freed = replicate 4 False, b_cap = 8\<rparr>"

theorem place_exact_witness:
  "place sample_balance 0 1 = (Some 2, sample_balance\<lparr>b_open := [5, 5, 4, 3]\<rparr>, 1) \<and> 3 < b_cap sample_balance"
proof -
  have "place sample_balance 0 1 = (Some 2, sample_balance\<lparr>b_open := [5, 5, 4, 3]\<rparr>, 1)" by code_simp
  with place_exact [OF _ _ this] show ?thesis by (simp add: sample_balance_def open_count_def)
qed

text \<open>A retired worker is out of the running only while the cap is below its count.\<close>

lemma retired_reservable:
  "w < length (b_open b) \<Longrightarrow> fst (reserve (retire b w) w) \<longleftrightarrow> RETIRED < b_cap b"
  by (simp add: reserve_def retire_def open_count_def Let_def)

section \<open>Threads at once\<close>

text \<open>
  One worker's count, \<^verbatim>\<open>k_open\<close>, and what it stands for: slots a thread has just taken, handoffs in
  the worker's inbox, and connections being served.  \<open>k_held\<close> is whether the one connection a worker
  may hold for want of room is still to come at its shutdown.
\<close>

record slots =
  k_open :: nat
  k_taken :: nat
  k_queued :: nat
  k_serving :: nat
  k_retired :: bool
  k_held :: bool

text \<open>A thread in \<^verbatim>\<open>reserve\<close>: before its load, or with the count it has seen.\<close>

datatype thread = Idle | Loading nat | Trying nat nat

record shared =
  sh_slots :: "nat \<Rightarrow> slots"
  sh_threads :: "nat \<Rightarrow> thread"

definition set_slots :: "nat \<Rightarrow> slots \<Rightarrow> shared \<Rightarrow> shared" where
  "set_slots w k s = s\<lparr>sh_slots := (sh_slots s)(w := k)\<rparr>"

definition set_thread :: "nat \<Rightarrow> thread \<Rightarrow> shared \<Rightarrow> shared" where
  "set_thread t x s = s\<lparr>sh_threads := (sh_threads s)(t := x)\<rparr>"

lemma set_slots_simps [simp]:
  "sh_slots (set_slots w k s) = (sh_slots s)(w := k)" "sh_threads (set_slots w k s) = sh_threads s"
  "sh_slots (set_thread t x s) = sh_slots s" "sh_threads (set_thread t x s) = (sh_threads s)(t := x)"
  by (simp_all add: set_slots_def set_thread_def)

inductive balance_step :: "nat \<Rightarrow> shared \<Rightarrow> shared \<Rightarrow> bool" for cap where
  begin_reserve: "sh_threads s t = Idle \<Longrightarrow> balance_step cap s (set_thread t (Loading w) s)"
| load_count: "sh_threads s t = Loading w \<Longrightarrow>
    balance_step cap s (set_thread t (Trying w (k_open (sh_slots s w))) s)"
| cas_taken: "sh_threads s t = Trying w n \<Longrightarrow> n < cap \<Longrightarrow> sh_slots s w = k \<Longrightarrow> k_open k = n \<Longrightarrow>
    balance_step cap s (set_thread t Idle (set_slots w (k\<lparr>k_open := n + 1, k_taken := k_taken k + 1\<rparr>) s))"
| cas_missed: "sh_threads s t = Trying w n \<Longrightarrow> n < cap \<Longrightarrow>
    balance_step cap s (set_thread t (Trying w (k_open (sh_slots s w))) s)"
| at_cap: "sh_threads s t = Trying w n \<Longrightarrow> cap \<le> n \<Longrightarrow> balance_step cap s (set_thread t Idle s)"
| serve_here: "sh_slots s w = k \<Longrightarrow> k_taken k = Suc m \<Longrightarrow>
    balance_step cap s (set_slots w (k\<lparr>k_taken := m, k_serving := k_serving k + 1\<rparr>) s)"
| send_handoff: "sh_slots s w = k \<Longrightarrow> k_taken k = Suc m \<Longrightarrow>
    balance_step cap s (set_slots w (k\<lparr>k_taken := m, k_queued := k_queued k + 1\<rparr>) s)"
| send_failed: "sh_slots s w = k \<Longrightarrow> k_taken k = Suc m \<Longrightarrow>
    balance_step cap s (set_slots w (k\<lparr>k_taken := m, k_open := RETIRED, k_retired := True\<rparr>) s)"
| detach_failed: "sh_slots s w = k \<Longrightarrow> k_taken k = Suc m \<Longrightarrow>
    balance_step cap s (set_slots w (k\<lparr>k_taken := m, k_open := wrapping_sub_u64 (k_open k) 1\<rparr>) s)"
| adopt: "sh_slots s w = k \<Longrightarrow> k_queued k = Suc m \<Longrightarrow>
    balance_step cap s (set_slots w (k\<lparr>k_queued := m, k_serving := k_serving k + 1\<rparr>) s)"
| adopt_failed: "sh_slots s w = k \<Longrightarrow> k_queued k = Suc m \<Longrightarrow>
    balance_step cap s (set_slots w (k\<lparr>k_queued := m, k_open := wrapping_sub_u64 (k_open k) 1\<rparr>) s)"
| close_conn: "sh_slots s w = k \<Longrightarrow> k_serving k = Suc m \<Longrightarrow>
    balance_step cap s (set_slots w (k\<lparr>k_serving := m, k_open := wrapping_sub_u64 (k_open k) 1\<rparr>) s)"
| retire_worker: "sh_slots s w = k \<Longrightarrow>
    balance_step cap s (set_slots w (k\<lparr>k_open := RETIRED, k_retired := True\<rparr>) s)"
| recount: "sh_slots s w = k \<Longrightarrow> k_retired k \<Longrightarrow> k_queued k = Suc m \<Longrightarrow>
    balance_step cap s (set_slots w (k\<lparr>k_queued := m, k_serving := k_serving k + 1,
      k_open := wrapping_add_u64 (k_open k) 1\<rparr>) s)"
| adopt_held: "sh_slots s w = k \<Longrightarrow> k_retired k \<Longrightarrow> k_held k \<Longrightarrow>
    balance_step cap s (set_slots w (k\<lparr>k_held := False, k_serving := k_serving k + 1,
      k_open := wrapping_add_u64 (k_open k) 1\<rparr>) s)"

definition shared_new :: shared where
  "shared_new =
     \<lparr>sh_slots = (\<lambda>_. \<lparr>k_open = 0, k_taken = 0, k_queued = 0, k_serving = 0, k_retired = False, k_held = True\<rparr>),
      sh_threads = (\<lambda>_. Idle)\<rparr>"

abbreviation balance_reach :: "nat \<Rightarrow> shared \<Rightarrow> bool" where
  "balance_reach cap s \<equiv> (balance_step cap)\<^sup>*\<^sup>* shared_new s"

definition connections :: "slots \<Rightarrow> nat" where
  "connections k = k_taken k + k_queued k + k_serving k"

definition slots_ok :: "nat \<Rightarrow> slots \<Rightarrow> bool" where
  "slots_ok cap k \<longleftrightarrow>
     (let extra = (if k_held k then 0 else 1) in
      connections k \<le> cap + extra
      \<and> (if k_retired k
         then RETIRED + connections k \<le> k_open k + cap + extra
           \<and> k_open k + k_taken k + k_queued k \<le> RETIRED + cap + extra
         else k_held k \<and> k_open k = connections k))"

lemma slots_ok_step:
  assumes "slots_ok cap k" and "2 * cap + 2 \<le> RETIRED"
  shows "k_open k < cap \<Longrightarrow> slots_ok cap (k\<lparr>k_open := k_open k + 1, k_taken := k_taken k + 1\<rparr>)"
    "k_taken k = Suc m \<Longrightarrow> slots_ok cap (k\<lparr>k_taken := m, k_serving := k_serving k + 1\<rparr>)"
    "k_taken k = Suc m \<Longrightarrow> slots_ok cap (k\<lparr>k_taken := m, k_queued := k_queued k + 1\<rparr>)"
    "k_taken k = Suc m \<Longrightarrow> slots_ok cap (k\<lparr>k_taken := m, k_open := RETIRED, k_retired := True\<rparr>)"
    "k_queued k = Suc m \<Longrightarrow> slots_ok cap (k\<lparr>k_queued := m, k_serving := k_serving k + 1\<rparr>)"
    "slots_ok cap (k\<lparr>k_open := RETIRED, k_retired := True\<rparr>)"
  using assms by (auto simp: slots_ok_def connections_def Let_def split: if_splits)

lemma slots_ok_wrap:
  assumes "slots_ok cap k" and "2 * cap + 2 \<le> RETIRED"
  shows "0 < connections k \<Longrightarrow> wrapping_sub_u64 (k_open k) 1 = k_open k - 1 \<and> 0 < k_open k"
    "wrapping_add_u64 (k_open k) 1 = k_open k + 1"
proof -
  have "k_open k \<le> 2 * RETIRED" "0 < connections k \<longrightarrow> 0 < k_open k" "2 * RETIRED + 1 < 2 ^ 64"
    using assms by (auto simp: slots_ok_def connections_def Let_def RETIRED_def split: if_splits)
  then show "0 < connections k \<Longrightarrow> wrapping_sub_u64 (k_open k) 1 = k_open k - 1 \<and> 0 < k_open k"
    "wrapping_add_u64 (k_open k) 1 = k_open k + 1"
    by (auto simp: wrapping_sub_u64_exact wrapping_add_u64_exact)
qed

lemma slots_ok_release:
  assumes "slots_ok cap k" and "2 * cap + 2 \<le> RETIRED"
  shows "k_taken k = Suc m \<Longrightarrow> slots_ok cap (k\<lparr>k_taken := m, k_open := wrapping_sub_u64 (k_open k) 1\<rparr>)"
    "k_queued k = Suc m \<Longrightarrow> slots_ok cap (k\<lparr>k_queued := m, k_open := wrapping_sub_u64 (k_open k) 1\<rparr>)"
    "k_serving k = Suc m \<Longrightarrow> slots_ok cap (k\<lparr>k_serving := m, k_open := wrapping_sub_u64 (k_open k) 1\<rparr>)"
  using assms slots_ok_wrap(1) [OF assms]
  by (auto simp: slots_ok_def connections_def Let_def split: if_splits)

lemma slots_ok_drain:
  assumes "slots_ok cap k" and "2 * cap + 2 \<le> RETIRED" and "k_retired k"
  shows "k_queued k = Suc m \<Longrightarrow> slots_ok cap (k\<lparr>k_queued := m, k_serving := k_serving k + 1,
      k_open := wrapping_add_u64 (k_open k) 1\<rparr>)"
    "k_held k \<Longrightarrow> slots_ok cap (k\<lparr>k_held := False, k_serving := k_serving k + 1,
      k_open := wrapping_add_u64 (k_open k) 1\<rparr>)"
  using assms slots_ok_wrap(2) [OF assms(1,2)]
  by (auto simp: slots_ok_def connections_def Let_def split: if_splits)

lemma balance_step_ok:
  assumes "balance_step cap s s'" and "\<forall>w. slots_ok cap (sh_slots s w)" and "2 * cap + 2 \<le> RETIRED"
  shows "\<forall>w. slots_ok cap (sh_slots s' w)"
  using assms slots_ok_step [OF _ assms(3)] slots_ok_release [OF _ assms(3)] slots_ok_drain [OF _ assms(3)]
  by (cases rule: balance_step.cases) auto

lemma balance_reach_ok:
  assumes "balance_reach cap s" and "2 * cap + 2 \<le> RETIRED"
  shows "\<forall>w. slots_ok cap (sh_slots s w)"
  using assms(1)
proof (induction rule: rtranclp_induct)
  case base
  then show ?case by (simp add: shared_new_def slots_ok_def connections_def)
next
  case (step s s')
  with balance_step_ok assms(2) show ?case by blast
qed

text \<open>C30. The cap holds for the slots of every worker in its loop, whatever the interleaving.  For a cap far
  enough below \<^verbatim>\<open>RETIRED\<close> (half of \<^verbatim>\<open>usize::MAX\<close>), after any number of steps of any number of threads
  that load, compare and swap, hand over, adopt, close and retire, the count of a worker in its loop
  is exactly the connections reserved, queued and served there and never above the cap.  A retired
  worker's count is above the cap, so no compare-and-swap can take a slot there, and its connections
  are at most the cap until it serves the one it held for want of room, and at most one more after
  that.  No count ever wraps.  The one above the cap is reached (\<open>cap_plus_one_reached\<close>).\<close>

theorem connection_cap_exact:
  assumes "balance_reach cap s" and "2 * cap + 2 \<le> RETIRED"
  shows "(\<not> k_retired (sh_slots s w) \<longrightarrow>
      k_open (sh_slots s w) = connections (sh_slots s w) \<and> connections (sh_slots s w) \<le> cap)
    \<and> (k_retired (sh_slots s w) \<longrightarrow>
      cap < k_open (sh_slots s w) \<and> connections (sh_slots s w) \<le> cap + (if k_held (sh_slots s w) then 0 else 1))
    \<and> k_open (sh_slots s w) < 2 ^ 64 - 1
    \<and> (0 < connections (sh_slots s w) \<longrightarrow> 0 < k_open (sh_slots s w))"
proof -
  have ok: "slots_ok cap (sh_slots s w)" using balance_reach_ok [OF assms] by blast
  have "2 * RETIRED + 1 < 2 ^ 64" by (simp add: RETIRED_def)
  with ok assms(2) show ?thesis
    by (auto simp: slots_ok_def connections_def Let_def split: if_splits)
qed

lemma sample_run: "balance_reach 1 (set_slots 7
    \<lparr>k_open = 1, k_taken = 1, k_queued = 0, k_serving = 0, k_retired = False, k_held = True\<rparr>
    (set_thread 5 Idle shared_new))"
proof -
  let ?s1 = "set_thread 5 (Loading 7) shared_new"
  let ?s2 = "set_thread 5 (Trying 7 0) ?s1"
  let ?k = "sh_slots shared_new 7"
  have "balance_step 1 shared_new ?s1" by (rule begin_reserve) (simp add: shared_new_def)
  moreover have "balance_step 1 ?s1 ?s2"
    using load_count [of ?s1 5 7 1] by (simp add: shared_new_def)
  moreover have "balance_step 1 ?s2 (set_thread 5 Idle (set_slots 7 (?k\<lparr>k_open := 0 + 1, k_taken := k_taken ?k + 1\<rparr>) ?s2))"
    by (rule cas_taken) (simp_all add: shared_new_def)
  moreover have "set_thread 5 Idle (set_slots 7 (?k\<lparr>k_open := 0 + 1, k_taken := k_taken ?k + 1\<rparr>) ?s2)
      = set_slots 7 \<lparr>k_open = 1, k_taken = 1, k_queued = 0, k_serving = 0, k_retired = False, k_held = True\<rparr>
          (set_thread 5 Idle shared_new)"
    by (simp add: set_thread_def set_slots_def shared_new_def)
  ultimately show ?thesis by (metis (no_types, lifting) rtranclp.simps)
qed

theorem connection_cap_exact_witness:
  "\<exists>s. balance_reach 1 s \<and> k_open (sh_slots s 7) = 1 \<and> connections (sh_slots s 7) \<le> 1 \<and> k_open (sh_slots s 7) < 2 ^ 64 - 1"
proof -
  let ?s = "set_slots 7 \<lparr>k_open = 1, k_taken = 1, k_queued = 0, k_serving = 0, k_retired = False, k_held = True\<rparr>
    (set_thread 5 Idle shared_new)"
  have "2 * 1 + 2 \<le> RETIRED" by (simp add: RETIRED_def)
  from connection_cap_exact [OF sample_run this, of 7] sample_run show ?thesis
    by (intro exI [of _ ?s]) simp
qed

text \<open>
  A worker with its cap of one that held a connection when shutdown came: retired, it serves that
  one beside the one it was serving.
\<close>

theorem cap_plus_one_reached:
  "\<exists>s. balance_reach 1 s \<and> k_serving (sh_slots s 7) = 2"
proof -
  let ?s0 = "set_slots 7 \<lparr>k_open = 1, k_taken = 1, k_queued = 0, k_serving = 0, k_retired = False, k_held = True\<rparr>
    (set_thread 5 Idle shared_new)"
  let ?s1 = "set_slots 7 ((sh_slots ?s0 7)\<lparr>k_taken := 0, k_serving := k_serving (sh_slots ?s0 7) + 1\<rparr>) ?s0"
  let ?s2 = "set_slots 7 ((sh_slots ?s1 7)\<lparr>k_open := RETIRED, k_retired := True\<rparr>) ?s1"
  let ?s3 = "set_slots 7 ((sh_slots ?s2 7)\<lparr>k_held := False, k_serving := k_serving (sh_slots ?s2 7) + 1,
    k_open := wrapping_add_u64 (k_open (sh_slots ?s2 7)) 1\<rparr>) ?s2"
  have "balance_step 1 ?s0 ?s1" by (rule serve_here [OF refl]) simp
  moreover have "balance_step 1 ?s1 ?s2" by (rule retire_worker [OF refl])
  moreover have "balance_step 1 ?s2 ?s3" by (rule adopt_held [OF refl]) simp_all
  ultimately have "balance_reach 1 ?s3"
    using sample_run by (meson rtranclp.rtrancl_into_rtrancl)
  then show ?thesis by (intro exI [of _ ?s3]) simp
qed

section \<open>The operations as runs\<close>

text \<open>The counts of the first \<open>n\<close> workers, and the state after a thread took a slot.\<close>

definition counts :: "shared \<Rightarrow> nat \<Rightarrow> nat list" where
  "counts s n = map (\<lambda>w. k_open (sh_slots s w)) [0..<n]"

definition taken :: "nat \<Rightarrow> shared \<Rightarrow> shared" where
  "taken w s = set_slots w ((sh_slots s w)\<lparr>k_open := k_open (sh_slots s w) + 1, k_taken := k_taken (sh_slots s w) + 1\<rparr>) s"

lemma counts_taken: "w < n \<Longrightarrow> counts (taken w s) n = (counts s n)[w := k_open (sh_slots s w) + 1]"
  by (auto simp: counts_def taken_def intro!: nth_equalityI)

lemma open_count_counts:
  assumes "b_open b = counts s (workers b)" and "w < workers b"
  shows "open_count b w = k_open (sh_slots s w)"
  unfolding open_count_def by (subst assms(1)) (simp add: counts_def assms(2))

lemma reserve_is_run:
  assumes "b_open b = counts s (workers b)" and "w < workers b" and "sh_threads s t = Idle"
    and "reserve b w = (r, b')"
  shows "(balance_step (b_cap b))\<^sup>*\<^sup>* s (if r then taken w s else s)"
proof -
  let ?n = "k_open (sh_slots s w)" and ?k = "sh_slots s w"
  let ?s1 = "set_thread t (Loading w) s" and ?s2 = "set_thread t (Trying w ?n) (set_thread t (Loading w) s)"
  have n: "open_count b w = ?n" using open_count_counts [OF assms(1,2)] .
  have s1: "balance_step (b_cap b) s ?s1" by (rule begin_reserve) (rule assms(3))
  have s2: "balance_step (b_cap b) ?s1 ?s2" using load_count [of ?s1 t w "b_cap b"] by simp
  have s3: "balance_step (b_cap b) ?s2 (if r then taken w s else s)"
  proof (cases r)
    case True
    with assms(4) n have "?n < b_cap b" by (auto simp: reserve_simps)
    then have "balance_step (b_cap b) ?s2 (set_thread t Idle (set_slots w (?k\<lparr>k_open := ?n + 1, k_taken := k_taken ?k + 1\<rparr>) ?s2))"
      by (intro cas_taken) simp_all
    moreover have "set_thread t Idle (set_slots w (?k\<lparr>k_open := ?n + 1, k_taken := k_taken ?k + 1\<rparr>) ?s2) = taken w s"
      using assms(3) by (auto simp: taken_def set_thread_def set_slots_def fun_upd_idem)
    ultimately show ?thesis using True by simp
  next
    case False
    with assms(4) n have "b_cap b \<le> ?n" by (auto simp: reserve_simps)
    then have "balance_step (b_cap b) ?s2 (set_thread t Idle ?s2)" by (intro at_cap) simp_all
    moreover have "set_thread t Idle ?s2 = s" using assms(3) by (simp add: set_thread_def fun_upd_idem)
    ultimately show ?thesis using False by simp
  qed
  from s1 s2 s3 show ?thesis by (meson converse_rtranclp_into_rtranclp rtranclp.rtrancl_refl)
qed

lemma reserve_first_is_run:
  assumes "b_open b = counts s (workers b)" and "\<forall>i \<in> set ws. i < workers b" and "sh_threads s t = Idle"
    and "reserve_first b ws = (r, b')"
  shows "(balance_step (b_cap b))\<^sup>*\<^sup>* s (case r of Some w \<Rightarrow> taken w s | None \<Rightarrow> s)"
  using assms(2,4)
proof (induction ws)
  case (Cons i ws)
  obtain q b1 where q: "reserve b i = (q, b1)" by (cases "reserve b i")
  from Cons.prems have i: "i < workers b" by simp
  note run = reserve_is_run [OF assms(1) i assms(3) q]
  show ?case
  proof (cases q)
    case True
    with run q Cons.prems(2) show ?thesis by auto
  next
    case False
    with q have "b1 = b" by (simp add: reserve_simps)
    with Cons q False show ?thesis by auto
  qed
qed auto

text \<open>\<^verbatim>\<open>place\<close> is made of these steps: run alone, it is a run of one thread from loads and
  compare-and-swaps that ends with exactly the slot of the worker it returns taken, and with the
  counts it computes.\<close>

lemma place_is_run:
  assumes "b_open b = counts s (workers b)" and "me < workers b" and "workers b < 2 ^ 64"
    and "sh_threads s t = Idle" and "place b me rng = (r, b', rng')"
  shows "\<exists>s'. (balance_step (b_cap b))\<^sup>*\<^sup>* s s' \<and> b_open b' = counts s' (workers b)
    \<and> s' = (case r of Some w \<Rightarrow> taken w s | None \<Rightarrow> s)"
proof -
  obtain w rng1 where w: "pick b me rng = (w, rng1)" by (cases "pick b me rng")
  have wl: "w < workers b" using pick_worker [OF w assms(2,3)] by blast
  obtain q b1 where q: "(if w \<noteq> me then reserve b w else (False, b)) = (q, b1)"
    by (cases "if w \<noteq> me then reserve b w else (False, b)")
  note pl = assms(5) [unfolded place_def Let_def w prod.case q]
  have upd: "b_open (b\<lparr>b_open := (b_open b)[v := open_count b v + 1]\<rparr>) = counts (taken v s) (workers b)"
    if "v < workers b" for v
    using counts_taken [OF that, of s] open_count_counts [OF assms(1) that] assms(1) by simp
  show ?thesis
  proof (cases q)
    case True
    with q have "reserve b w = (True, b1)" by (auto split: if_splits)
    with reserve_is_run [OF assms(1) wl assms(4) this] upd [OF wl] pl True show ?thesis
      by (auto simp: reserve_simps)
  next
    case False
    with q have b1: "b1 = b" by (auto simp: reserve_simps split: if_splits)
    obtain q2 b2 where q2: "reserve b me = (q2, b2)" by (cases "reserve b me")
    show ?thesis
    proof (cases q2)
      case True
      with reserve_is_run [OF assms(1,2,4) q2] upd [OF assms(2)] pl False b1 q2 show ?thesis
        by (auto simp: reserve_simps)
    next
      case F2: False
      with q2 have "b2 = b" by (simp add: reserve_simps)
      obtain r3 b3 where f: "reserve_first b [0..<workers b] = (r3, b3)" by (cases "reserve_first b [0..<workers b]")
      from reserve_first_is_run [OF assms(1) _ assms(4) f] reserve_first_exact [OF f] upd
        pl False b1 q2 F2 \<open>b2 = b\<close> f assms(1) show ?thesis
        by (cases r3) auto
    qed
  qed
qed

end
