(* ===== verification/H1_Dispatch.thy ===== *)
theory H1_Dispatch
  imports H1_Session
begin

text \<open>
  Protocol dispatch: \<^verbatim>\<open>src/src/tls.rs\<close>, the backend seam of \<^verbatim>\<open>src/src/backend/mod.rs\<close> and
  \<^verbatim>\<open>src/src/backend/native.rs\<close>, and \<^verbatim>\<open>dispatch\<close>, \<^verbatim>\<open>peek_preface\<close> and \<^verbatim>\<open>serve_h1\<close> of
  \<^verbatim>\<open>src/src/server.rs\<close>.  The TLS handshake is not code of the crate; its outcome is a parameter.
\<close>

section \<open>Prefaces and ALPN\<close>

definition H2C_PREFACE :: bytes where
  "H2C_PREFACE = ''PRI * HTTP/2.0'' @ CRLF @ CRLF @ ''SM'' @ CRLF @ CRLF"

datatype preface = PrefaceHttp1 | PrefaceHttp2 | PrefaceNeedMore

definition is_h2c_preface :: "bytes \<Rightarrow> preface" where
  "is_h2c_preface buf =
     (let n = min (length buf) (length H2C_PREFACE) in
      if take n buf \<noteq> take n H2C_PREFACE then PrefaceHttp1
      else if length buf \<ge> length H2C_PREFACE then PrefaceHttp2
      else PrefaceNeedMore)"

record tls_config =
  cert_chain :: "bytes list"
  key_der :: bytes
  alpn :: "bytes list"

definition tls_new :: "bytes list \<Rightarrow> bytes \<Rightarrow> tls_config" where
  "tls_new certs key = \<lparr>cert_chain = certs, key_der = key, alpn = [''http/1.1'']\<rparr>"

definition with_h2 :: "tls_config \<Rightarrow> tls_config" where
  "with_h2 c = (if \<not> list_ex (\<lambda>p. p = ''h2'') (alpn c) then c\<lparr>alpn := ''h2'' # alpn c\<rparr> else c)"

datatype tls_error = NoCertificate | InvalidPrivateKey | Rustls bytes

text \<open>\<open>parse_key\<close> and \<open>build\<close> are what rustls makes of a key and of a chain with it.\<close>

record 'c rustls_config =
  rustls_inner :: 'c
  alpn_protocols :: "bytes list"

definition server_config ::
    "(bytes \<Rightarrow> 'k option) \<Rightarrow> (bytes list \<Rightarrow> 'k \<Rightarrow> bytes + 'c) \<Rightarrow> tls_config \<Rightarrow> tls_error + 'c rustls_config" where
  "server_config parse_key build c =
     (if cert_chain c = [] then Inl NoCertificate
      else
        (case parse_key (key_der c) of
           None \<Rightarrow> Inl InvalidPrivateKey
         | Some key \<Rightarrow>
             (case build (cert_chain c) key of
                Inl e \<Rightarrow> Inl (Rustls e)
              | Inr cfg \<Rightarrow> Inr \<lparr>rustls_inner = cfg, alpn_protocols = alpn c\<rparr>)))"

definition negotiated_h2 :: "bytes option \<Rightarrow> bool" where
  "negotiated_h2 alpn_protocol \<longleftrightarrow> alpn_protocol = Some ''h2''"

section \<open>Reading a preface\<close>

text \<open>
  One read under \<^verbatim>\<open>timeout_at\<close>, which polls the read before the timer: \<open>None\<close> is the deadline or an
  error.  Each wake-up takes the next reading of the clock; one that has run out fires no more.
\<close>

function preface_read ::
    "(instant \<Rightarrow> bool) \<Rightarrow> instant list \<Rightarrow> transport \<Rightarrow> bytes option \<times> instant list \<times> transport" where
  "preface_read fires clock t =
     (case poll_read t of
        (Ready (Inr b), t) \<Rightarrow> (Some b, clock, t)
      | (Ready (Inl e), t) \<Rightarrow> (None, clock, t)
      | (Pending, t) \<Rightarrow>
          (case clock of
             [] \<Rightarrow> preface_read fires [] t
           | now # clock \<Rightarrow> if fires now then (None, clock, t) else preface_read fires clock t))"
  by pat_completeness auto
termination
  by (relation "measure (\<lambda>(_, _, t). length (rd t))")
     (auto simp: poll_read_def split: list.splits read_event.splits)

declare preface_read.simps [simp del]

text \<open>A transport that has reported the end of its stream goes on reporting it.\<close>

fun eof_final :: "read_event list \<Rightarrow> bool" where
  "eof_final [] = True"
| "eof_final (RdData b # es) = ((b = [] \<longrightarrow> stream_of es = []) \<and> eof_final es)"
| "eof_final (_ # es) = eof_final es"

lemma poll_read_frame:
  assumes "poll_read t = (r, t')"
  shows "wr t' = wr t \<and> fl t' = fl t \<and> sent t' = sent t \<and> (eof_final (rd t) \<longrightarrow> eof_final (rd t'))
    \<and> (case r of Ready (Inr b) \<Rightarrow> stream_of (rd t) = (if b = [] then [] else b @ stream_of (rd t'))
        \<and> (b \<noteq> [] \<longrightarrow> length (rd t') < length (rd t)) \<and> (b = [] \<and> eof_final (rd t) \<longrightarrow> stream_of (rd t') = [])
       | Pending \<Rightarrow> stream_of (rd t) = stream_of (rd t') | _ \<Rightarrow> True)"
  using assms by (auto simp: poll_read_def split: list.splits read_event.splits)

lemma preface_read_frame:
  assumes "preface_read fires clock t = (r, clock', t')"
  shows "wr t' = wr t \<and> fl t' = fl t \<and> sent t' = sent t \<and> (eof_final (rd t) \<longrightarrow> eof_final (rd t'))
    \<and> (\<forall>b. r = Some b \<longrightarrow> stream_of (rd t) = (if b = [] then [] else b @ stream_of (rd t'))
        \<and> (b \<noteq> [] \<longrightarrow> length (rd t') < length (rd t)) \<and> (b = [] \<and> eof_final (rd t) \<longrightarrow> stream_of (rd t') = []))"
  using assms
proof (induction fires clock t rule: preface_read.induct)
  case (1 fires clock t)
  obtain q t1 where q: "poll_read t = (q, t1)" by (cases "poll_read t")
  note f = poll_read_frame [OF q]
  have sh: "q = Pending \<Longrightarrow> length (rd t1) < length (rd t)"
    using q by (auto simp: poll_read_def split: list.splits read_event.splits)
  show ?case
  proof (cases q)
    case Pending
    show ?thesis
    proof (cases clock)
      case Nil
      with 1(3) Pending q have "preface_read fires [] t1 = (r, clock', t')"
        by (simp add: preface_read.simps [of fires "[]" t])
      from 1(1) [OF q [symmetric] Pending Nil this] f Pending sh [OF Pending] show ?thesis by auto
    next
      case (Cons now clock1)
      show ?thesis
      proof (cases "fires now")
        case True
        with 1(3) Pending q Cons f show ?thesis by (auto simp: preface_read.simps [of fires "now # clock1" t])
      next
        case False
        with 1(3) Pending q Cons have "preface_read fires clock1 t1 = (r, clock', t')"
          by (simp add: preface_read.simps [of fires "now # clock1" t])
        from 1(2) [OF q [symmetric] Pending Cons False this] f Pending sh [OF Pending] show ?thesis by auto
      qed
    qed
  next
    case (Ready x)
    with 1(3) q f show ?thesis by (cases x) (auto simp: preface_read.simps [of fires clock t])
  qed
qed

function peek_loop ::
    "(instant \<Rightarrow> bool) \<Rightarrow> instant list \<Rightarrow> transport \<Rightarrow> bytes \<Rightarrow> (transport \<times> bytes \<times> preface) option" where
  "peek_loop fires clock t buf =
     (let decided = is_h2c_preface buf in
      if decided \<noteq> PrefaceNeedMore then Some (t, buf, decided)
      else
        (case preface_read fires clock t of
           (None, _, _) \<Rightarrow> None
         | (Some b, clock, t) \<Rightarrow>
             if b = [] then Some (t, buf, PrefaceHttp1) else peek_loop fires clock t (buf @ b)))"
  by pat_completeness auto
termination
  by (relation "measure (\<lambda>(_, _, t, _). length (rd t))") (auto dest!: sym [THEN preface_read_frame])

declare peek_loop.simps [simp del]

text \<open>One deadline for the whole preface, far off when it cannot be represented.\<close>

definition peek_preface ::
    "env \<Rightarrow> instant \<Rightarrow> instant list \<Rightarrow> transport \<Rightarrow> (transport \<times> bytes \<times> preface) option" where
  "peek_preface env now clock t =
     (let deadline = (case instant_checked_add now (header_timeout (e_limits env)) of
            Some d \<Rightarrow> d | None \<Rightarrow> now + from_secs (86400 * 365 * 30))
      in peek_loop (\<lambda>now. e_fires env now deadline) clock t [])"

section \<open>Dispatch\<close>

text \<open>\<^verbatim>\<open>serve_h1\<close> over the native backend: an upgraded transport is what goes to the consumer.\<close>

record worker_conn =
  w_date :: date_cache
  w_instants :: "instant list"
  w_clock :: "int list"

definition serve_h1 :: "env \<Rightarrow> worker_conn \<Rightarrow> transport \<Rightarrow> bytes \<Rightarrow> (serve_step \<times> conn) option" where
  "serve_h1 env w t buffered = serve env (conn_new env t buffered (w_date w) (w_instants w) (w_clock w))"

datatype handshake = HandshakeDone transport "bytes option" | HandshakeFailed | HandshakeTimedOut

datatype dispatched =
    ToFallback transport bytes
  | ToHttp1 transport bytes "(serve_step \<times> conn) option"
  | Dropped

text \<open>The outcome of the handshake, when TLS is configured, and whether h2c detection is.\<close>

definition dispatch ::
    "env \<Rightarrow> worker_conn \<Rightarrow> handshake option \<Rightarrow> bool \<Rightarrow> instant \<Rightarrow> instant list \<Rightarrow> transport \<Rightarrow> dispatched" where
  "dispatch env w tls detect_h2c now clock t =
     (case tls of
        Some HandshakeFailed \<Rightarrow> Dropped
      | Some HandshakeTimedOut \<Rightarrow> Dropped
      | Some (HandshakeDone s protocol) \<Rightarrow>
          if negotiated_h2 protocol then ToFallback s [] else ToHttp1 s [] (serve_h1 env w s [])
      | None \<Rightarrow>
          if detect_h2c then
            (case peek_preface env now clock t of
               Some (t, buffered, PrefaceHttp2) \<Rightarrow> ToFallback t buffered
             | Some (t, buffered, _) \<Rightarrow> ToHttp1 t buffered (serve_h1 env w t buffered)
             | None \<Rightarrow> Dropped)
          else ToHttp1 t [] (serve_h1 env w t []))"

section \<open>What detection decides\<close>

lemma preface_cases:
  "is_h2c_preface buf =
     (if prefix H2C_PREFACE buf then PrefaceHttp2
      else if prefix buf H2C_PREFACE then PrefaceNeedMore else PrefaceHttp1)"
proof (cases "length H2C_PREFACE \<le> length buf")
  case True
  then have "take (length H2C_PREFACE) buf = H2C_PREFACE \<longleftrightarrow> prefix H2C_PREFACE buf"
    by (metis append_eq_conv_conj prefix_def take_is_prefix)
  moreover have "prefix buf H2C_PREFACE \<longrightarrow> buf = H2C_PREFACE"
    using True by (meson prefix_length_prefix prefix_order.antisym prefix_order.refl)
  ultimately show ?thesis using True by (auto simp: is_h2c_preface_def Let_def)
next
  case False
  then have "buf = take (length buf) H2C_PREFACE \<longleftrightarrow> prefix buf H2C_PREFACE"
    by (metis append_eq_conv_conj prefix_def take_is_prefix)
  moreover have "\<not> prefix H2C_PREFACE buf" using False by (auto dest: prefix_length_le)
  ultimately show ?thesis using False by (auto simp: is_h2c_preface_def Let_def)
qed

lemma peek_loop_decides:
  assumes "peek_loop fires clock t buf = Some (t', buffered, p)"
  shows "(eof_final (rd t) \<longrightarrow> buf @ stream_of (rd t) = buffered @ stream_of (rd t')) \<and> sent t' = sent t
    \<and> p = (if prefix H2C_PREFACE (buf @ stream_of (rd t)) then PrefaceHttp2 else PrefaceHttp1)"
  using assms
proof (induction fires clock t buf rule: peek_loop.induct)
  case (1 fires clock t buf)
  show ?case
  proof (cases "is_h2c_preface buf = PrefaceNeedMore")
    case False
    with 1(2) have o: "t' = t" "buffered = buf" "p = is_h2c_preface buf"
      by (auto simp: peek_loop.simps [of fires clock t buf])
    have "\<not> prefix H2C_PREFACE (buf @ stream_of (rd t))"
      if "\<not> prefix H2C_PREFACE buf" "\<not> prefix buf H2C_PREFACE"
      using that prefix_same_cases [of H2C_PREFACE "buf @ stream_of (rd t)" buf] by auto
    with False o show ?thesis by (auto simp: preface_cases split: if_splits)
  next
    case True
    then have short: "\<not> prefix H2C_PREFACE buf" by (auto simp: preface_cases)
    obtain r clock1 t1 where q: "preface_read fires clock t = (r, clock1, t1)"
      by (cases "preface_read fires clock t") auto
    note f = preface_read_frame [OF q]
    note pl = 1(2) [unfolded peek_loop.simps [of fires clock t buf] q Let_def]
    from pl True obtain b where b: "r = Some b" by (auto split: option.splits)
    show ?thesis
    proof (cases "b = []")
      case N: True
      with pl True b have "t' = t1" "buffered = buf" "p = PrefaceHttp1" by auto
      with f b N short show ?thesis by auto
    next
      case False
      with pl True b have "peek_loop fires clock1 t1 (buf @ b) = Some (t', buffered, p)" by simp
      from 1(1) [OF refl _ q [symmetric] b refl False this] True f b False show ?thesis by auto
    qed
  qed
qed

text \<open>C27. Preface detection is exact and loses nothing: whatever the reads of the connection, it is taken
  for HTTP/2 exactly when the whole stream begins with the preface, never by how the first bytes
  were cut; nothing is written; and what goes to the protocol that was chosen, the bytes already
  read and then the transport, is the stream from its first byte.\<close>

theorem preface_detection_exact:
  assumes "eof_final (rd t)" and "peek_preface env now clock t = Some (t', buffered, p)"
  shows "p = (if prefix H2C_PREFACE (stream_of (rd t)) then PrefaceHttp2 else PrefaceHttp1)
    \<and> buffered @ stream_of (rd t') = stream_of (rd t) \<and> sent t' = sent t"
  using peek_loop_decides [OF assms(2) [unfolded peek_preface_def Let_def]] assms(1) by simp

theorem preface_detection_exact_witness:
  "\<exists>t' buffered. peek_preface sample_env 0 []
      (sample_transport [RdData ''PRI'', RdPending, RdData (drop 3 H2C_PREFACE @ ''x'')]) = Some (t', buffered, PrefaceHttp2)
    \<and> buffered @ stream_of (rd t') = H2C_PREFACE @ ''x''"
proof -
  let ?t = "sample_transport [RdData ''PRI'', RdPending, RdData (drop 3 H2C_PREFACE @ ''x'')]"
  have "peek_preface sample_env 0 [] ?t
      = Some (sample_transport [], ''PRI'' @ drop 3 H2C_PREFACE @ ''x'', PrefaceHttp2)" by code_simp
  moreover have "eof_final (rd ?t)" "stream_of (rd ?t) = H2C_PREFACE @ ''x''"
    by (simp_all add: sample_transport_def H2C_PREFACE_def)
  ultimately show ?thesis using preface_detection_exact [of ?t sample_env 0 "[]"] by fastforce
qed

text \<open>C28. Dispatch does not change what HTTP/1 sees: with or without preface detection, a plaintext
  connection that is served as HTTP/1 is served on the stream of the socket from its first byte,
  with everything \<^verbatim>\<open>serve\<close> promises for it; and with detection on, a connection that opens with the
  HTTP/2 preface never reaches the HTTP/1 parser.\<close>

theorem dispatch_serves_whole_stream:
  assumes "limits_ok (e_limits env)" and "length (stream_of (rd t)) < u64_range" and "eof_final (rd t)"
    and "dispatch env w None detect_h2c now clock t = ToHttp1 t' buffered result"
  shows "(detect_h2c \<longrightarrow> \<not> prefix H2C_PREFACE (stream_of (rd t)))
    \<and> (\<exists>n c step c' out. result = Some (step, c') \<and> step \<noteq> NextRequest
        \<and> serve_turn env c = Some (step, c')
        \<and> session env 0 n (stream_of (rd t)) out (upcoming (c_io c))
        \<and> wire c = sent t @ out)"
proof -
  have s: "(detect_h2c \<longrightarrow> \<not> prefix H2C_PREFACE (stream_of (rd t))) \<and> buffered @ stream_of (rd t') = stream_of (rd t)
      \<and> sent t' = sent t \<and> result = serve_h1 env w t' buffered"
  proof (cases detect_h2c)
    case True
    with assms(4) obtain p where p: "peek_preface env now clock t = Some (t', buffered, p)" "p \<noteq> PrefaceHttp2"
      "result = serve_h1 env w t' buffered"
      by (auto simp: dispatch_def split: option.splits prod.splits preface.splits)
    from peek_loop_decides [OF p(1) [unfolded peek_preface_def Let_def]] p assms(3) show ?thesis
      by (auto split: if_splits)
  next
    case False
    with assms(4) show ?thesis by (auto simp: dispatch_def)
  qed
  with serve_ends [of "conn_new env t' buffered (w_date w) (w_instants w) (w_clock w)" env] assms(1,2)
  show ?thesis by (fastforce simp: serve_h1_def conn_new_start)
qed

definition sample_worker :: worker_conn where
  "sample_worker = \<lparr>w_date = date_cache_new, w_instants = [], w_clock = []\<rparr>"

theorem dispatch_serves_whole_stream_witness:
  "\<exists>t' buffered result n c step c' out.
    dispatch sample_env sample_worker None True 0 [] (sample_transport [RdData ''GE'', RdData ''T'']) = ToHttp1 t' buffered result
    \<and> result = Some (step, c') \<and> step \<noteq> NextRequest
    \<and> session sample_env 0 n ''GET'' out (upcoming (c_io c)) \<and> wire c = out"
proof -
  let ?t = "sample_transport [RdData ''GE'', RdData ''T'']"
  have "peek_preface sample_env 0 [] ?t = Some (sample_transport [RdData ''T''], ''GE'', PrefaceHttp1)"
    by code_simp
  then have d: "dispatch sample_env sample_worker None True 0 [] ?t
      = ToHttp1 (sample_transport [RdData ''T'']) ''GE'' (serve_h1 sample_env sample_worker (sample_transport [RdData ''T'']) ''GE'')"
    by (simp add: dispatch_def)
  have "limits_ok (e_limits sample_env)" using default_limits_ok sample_limits by simp
  with dispatch_serves_whole_stream [OF _ _ _ d] d show ?thesis
    by (fastforce simp: sample_transport_def)
qed

end
