(* ===== verification/H1_Server.thy ===== *)
theory H1_Server
  imports H1_Balance H1_Dispatch "HOL-Library.Multiset"
begin

text \<open>
  The server of \<^verbatim>\<open>src/src/server.rs\<close>: its configuration, binding and startup, and the accept loop of a
  worker with the handover of connections to other workers.

  Sockets, threads and the runtime are not code of the crate.  A connection is an identity; what
  the operating system answers (a bind, an accept, whether a socket can be moved to another
  reactor) and which branch of a \<^verbatim>\<open>select!\<close> is ready are parameters.  The field \<^verbatim>\<open>Config::tls\<close>, present
  only with the feature of that name, is the argument of \<^verbatim>\<open>dispatch\<close> that says how a handshake went.
\<close>

section \<open>Configuration\<close>

record tcp_config =
  nodelay :: bool
  backlog :: int
  reuse_port :: bool

definition default_tcp_config :: tcp_config where
  "default_tcp_config = \<lparr>nodelay = True, backlog = 1024, reuse_port = True\<rparr>"

type_synonym socket_addr = nat

record config =
  sc_addr :: socket_addr
  sc_workers :: nat
  sc_limits :: limits
  sc_tcp :: tcp_config
  sc_tick :: duration
  sc_pin_cores :: bool
  sc_server_name :: "bytes option"
  sc_shutdown_grace :: duration
  sc_detect_h2c :: bool

definition config_new :: "nat option \<Rightarrow> socket_addr \<Rightarrow> config" where
  "config_new parallelism addr =
     \<lparr>sc_addr = addr, sc_workers = (case parallelism of Some n \<Rightarrow> n | None \<Rightarrow> 1), sc_limits = default_limits,
      sc_tcp = default_tcp_config, sc_tick = from_millis 100, sc_pin_cores = True, sc_server_name = None,
      sc_shutdown_grace = from_secs 10, sc_detect_h2c = False\<rparr>"

definition with_detect_h2c :: "config \<Rightarrow> bool \<Rightarrow> config" where
  "with_detect_h2c c on = c\<lparr>sc_detect_h2c := on\<rparr>"

definition with_workers :: "config \<Rightarrow> nat \<Rightarrow> config" where
  "with_workers c n = c\<lparr>sc_workers := max n 1\<rparr>"

definition with_limits :: "config \<Rightarrow> limits \<Rightarrow> config" where
  "with_limits c l = c\<lparr>sc_limits := clamp_max_headers l\<rparr>"

definition with_server_name :: "config \<Rightarrow> bytes \<Rightarrow> config" where
  "with_server_name c name = c\<lparr>sc_server_name := Some name\<rparr>"

definition with_pin_cores :: "config \<Rightarrow> bool \<Rightarrow> config" where
  "with_pin_cores c on = c\<lparr>sc_pin_cores := on\<rparr>"

text \<open>What a worker serves its connections with.\<close>

definition worker_conn_config :: "config \<Rightarrow> conn_config" where
  "worker_conn_config c =
     \<lparr>cfg_limits = clamp_max_headers (sc_limits c), cfg_tick = sc_tick c, cfg_server_name = sc_server_name c\<rparr>"

section \<open>Accept errors\<close>

datatype accept_kind = ConnectionAborted | ConnectionReset | Interrupted | AcceptTimedOut | OtherKind

record accept_error =
  ae_kind :: accept_kind
  ae_raw_os_error :: "int option"

definition EPROTO :: "int option" where
  "EPROTO = Some 71"

definition accept_backoff_warranted :: "accept_error \<Rightarrow> bool" where
  "accept_backoff_warranted e =
     (case ae_kind e of
        ConnectionAborted \<Rightarrow> False
      | ConnectionReset \<Rightarrow> False
      | Interrupted \<Rightarrow> False
      | AcceptTimedOut \<Rightarrow> False
      | OtherKind \<Rightarrow>
          \<not> (case (EPROTO, ae_raw_os_error e) of (Some p, Some r) \<Rightarrow> p = r | _ \<Rightarrow> False))"

section \<open>Binding and startup\<close>

datatype listeners = PerWorker "socket_addr list" | SharedListener socket_addr

text \<open>A listener is the address it is bound to; \<open>bind_one\<close> is modelled in \<^verbatim>\<open>H1_Fleet\<close>, from what the operating system answers.\<close>

fun bind_rest ::
    "(socket_addr \<Rightarrow> bool \<Rightarrow> nat \<Rightarrow> 'e + socket_addr) \<Rightarrow> socket_addr \<Rightarrow> nat list \<Rightarrow> 'e + (socket_addr list \<times> socket_addr)" where
  "bind_rest bind_one addr [] = Inr ([], addr)"
| "bind_rest bind_one addr (i # ws) =
     (case bind_one addr True i of
        Inl e \<Rightarrow> Inl e
      | Inr l \<Rightarrow>
          (case bind_rest bind_one (if i = 0 then l else addr) ws of
             Inl e \<Rightarrow> Inl e
           | Inr (ls, addr) \<Rightarrow> Inr (l # ls, addr)))"

record bound =
  bd_config :: config
  bd_listeners :: listeners
  bd_local_addr :: socket_addr
  bd_shutdown :: bool

definition server_bind ::
    "(socket_addr \<Rightarrow> bool \<Rightarrow> nat \<Rightarrow> 'e + socket_addr) \<Rightarrow> bool \<Rightarrow> config \<Rightarrow> 'e + bound" where
  "server_bind bind_one reuse_port_supported c =
     (if reuse_port (sc_tcp c) \<and> reuse_port_supported then
        (case bind_rest bind_one (sc_addr c) [0..<sc_workers c] of
           Inl e \<Rightarrow> Inl e
         | Inr (ls, addr) \<Rightarrow>
             Inr \<lparr>bd_config = c, bd_listeners = PerWorker ls, bd_local_addr = addr, bd_shutdown = False\<rparr>)
      else
        (case bind_one (sc_addr c) False 0 of
           Inl e \<Rightarrow> Inl e
         | Inr l \<Rightarrow>
             Inr \<lparr>bd_config = c, bd_listeners = SharedListener l, bd_local_addr = l, bd_shutdown = False\<rparr>))"

text \<open>A handle shares the channel of its server: \<open>bd_shutdown\<close> is the value that channel holds.\<close>

definition handle_shutdown :: "bound \<Rightarrow> bound" where
  "handle_shutdown s = s\<lparr>bd_shutdown := True\<rparr>"

definition is_shutting_down :: "bound \<Rightarrow> bool" where
  "is_shutting_down s = bd_shutdown s"

text \<open>
  What becomes of a worker: its listener could not be cloned, its thread could not be spawned, or
  it was spawned and then reached its accept loop or not, and ended in a panic or not.
\<close>

datatype 'e spawn = NoListener | SpawnFailed 'e | Spawned bool bool

datatype 'e serve_error = SpawnError 'e | NotStarted nat nat | WorkersPanicked nat

text \<open>\<^verbatim>\<open>join_all\<close>, and the loop that spawns: the handles, or the first failure.\<close>

definition join_all :: "(bool \<times> bool) list \<Rightarrow> nat" where
  "join_all hs = length (filter snd hs)"

fun spawn_workers :: "nat \<Rightarrow> 'e spawn list \<Rightarrow> balance \<Rightarrow> ('e + (bool \<times> bool) list) \<times> balance" where
  "spawn_workers worker [] b = (Inr [], b)"
| "spawn_workers worker (NoListener # ws) b = spawn_workers (Suc worker) ws (retire b worker)"
| "spawn_workers worker (SpawnFailed e # ws) b = (Inl e, b)"
| "spawn_workers worker (Spawned started panics # ws) b =
     (case spawn_workers (Suc worker) ws b of
        (Inl e, b) \<Rightarrow> (Inl e, b)
      | (Inr hs, b) \<Rightarrow> (Inr ((started, panics) # hs), b))"

text \<open>The result, and the value the shutdown channel is left with.\<close>

definition serve_with :: "config \<Rightarrow> 'e spawn list \<Rightarrow> bool \<Rightarrow> ('e serve_error + unit) \<times> bool" where
  "serve_with c ws shutdown =
     (case spawn_workers 0 ws (balance_new (length ws) (max_connections (sc_limits c))) of
        (Inl e, _) \<Rightarrow> (Inl (SpawnError e), True)
      | (Inr hs, _) \<Rightarrow>
          (let expected = length hs; live = length (filter fst hs) in
           if live < expected then (Inl (NotStarted live expected), True)
           else
             (let panicked = join_all hs in
              (if panicked > 0 then Inl (WorkersPanicked panicked) else Inr (), shutdown))))"

section \<open>The accept loop\<close>

type_synonym handoff = nat

text \<open>The channels of the workers, and what one worker holds: the connection it has no room for, the
  state of its sampler, and the connections it has spawned a task for.\<close>

record server =
  sv_balance :: balance
  sv_inbox :: "handoff list list"
  sv_closed :: "bool list"

record worker =
  wk_pending :: "handoff option"
  wk_rng :: "64 word"
  wk_serving :: "handoff list"

definition worker_new :: "nat \<Rightarrow> worker" where
  "worker_new w =
     \<lparr>wk_pending = None, wk_rng = 0x9E3779B97F4A7C15 XOR (word_of_nat w + 1), wk_serving = []\<rparr>"

definition serve_conn :: "handoff \<Rightarrow> worker \<Rightarrow> worker" where
  "serve_conn c wk = wk\<lparr>wk_serving := wk_serving wk @ [c]\<rparr>"

text \<open>\<open>registers c\<close> is whether the socket \<open>c\<close> joins this worker's reactor.\<close>

definition adopt_conn :: "(handoff \<Rightarrow> bool) \<Rightarrow> nat \<Rightarrow> handoff \<Rightarrow> server \<times> worker \<Rightarrow> server \<times> worker" where
  "adopt_conn registers me c x =
     (case x of (sv, wk) \<Rightarrow>
        if registers c then (sv, serve_conn c wk)
        else (sv\<lparr>sv_balance := release (sv_balance sv) me\<rparr>, wk))"

definition send :: "nat \<Rightarrow> handoff \<Rightarrow> server \<Rightarrow> bool \<times> server" where
  "send t c sv =
     (if sv_closed sv ! t then (False, sv)
      else (True, sv\<lparr>sv_inbox := (sv_inbox sv)[t := sv_inbox sv ! t @ [c]]\<rparr>))"

text \<open>\<^verbatim>\<open>route\<close>: \<open>Some None\<close> is placed, \<open>Some (Some c)\<close> is handed back to be held.\<close>

partial_function (option) route ::
    "(handoff \<Rightarrow> bool) \<Rightarrow> nat \<Rightarrow> handoff \<Rightarrow> server \<Rightarrow> worker \<Rightarrow> (handoff option \<times> server \<times> worker) option" where
  "route registers me c sv wk =
     (case place (sv_balance sv) me (wk_rng wk) of (target, b, rng) \<Rightarrow>
        (case target of
           None \<Rightarrow> Some (Some c, sv\<lparr>sv_balance := b\<rparr>, wk\<lparr>wk_rng := rng\<rparr>)
         | Some t \<Rightarrow>
             if t = me
             then Some (None, adopt_conn registers me c (sv\<lparr>sv_balance := b\<rparr>, wk\<lparr>wk_rng := rng\<rparr>))
             else
               (case send t c (sv\<lparr>sv_balance := b\<rparr>) of (ok, sv) \<Rightarrow>
                  if ok then Some (None, sv, wk\<lparr>wk_rng := rng\<rparr>)
                  else
                    route registers me c (sv\<lparr>sv_balance := retire (sv_balance sv) t\<rparr>) (wk\<lparr>wk_rng := rng\<rparr>))))"

declare route.simps [code]

text \<open>What a \<^verbatim>\<open>select!\<close> of the loop woke for.  \<open>Changed None\<close> is a channel whose senders are gone.\<close>

datatype event =
    Changed "bool option"
  | Freed
  | Recheck
  | Inbox
  | Accepted "accept_error + handoff"

text \<open>How an iteration ends: the next at once, the next after \<^verbatim>\<open>ACCEPT_BACKOFF\<close>, or the end of the loop.\<close>

datatype turn = GoOn | Backoff | Stop

definition hold :: "handoff option \<times> server \<times> worker \<Rightarrow> server \<times> worker" where
  "hold r = (case r of (p, sv, wk) \<Rightarrow> (sv, wk\<lparr>wk_pending := p\<rparr>))"

definition receive :: "(handoff \<Rightarrow> bool) \<Rightarrow> nat \<Rightarrow> server \<times> worker \<Rightarrow> server \<times> worker" where
  "receive registers me x =
     (case sv_inbox (fst x) ! me of
        [] \<Rightarrow> x
      | c # cs \<Rightarrow>
          adopt_conn registers me c ((fst x)\<lparr>sv_inbox := (sv_inbox (fst x))[me := cs]\<rparr>, snd x))"

text \<open>An accepted connection: \<open>detaches c\<close> is whether it can leave this worker's reactor.\<close>

definition accept_conn ::
    "(handoff \<Rightarrow> bool) \<Rightarrow> (handoff \<Rightarrow> bool) \<Rightarrow> nat \<Rightarrow> handoff \<Rightarrow> server \<Rightarrow> worker \<Rightarrow> (server \<times> worker) option" where
  "accept_conn registers detaches me c sv wk =
     (case place (sv_balance sv) me (wk_rng wk) of
        (Some t, b, rng) \<Rightarrow>
          (let sv = sv\<lparr>sv_balance := b\<rparr>; wk = wk\<lparr>wk_rng := rng\<rparr> in
           if t = me then Some (sv, serve_conn c wk)
           else if detaches c then
             (case send t c sv of
                (True, sv) \<Rightarrow> Some (sv, wk)
              | (False, sv) \<Rightarrow>
                  map_option hold (route registers me c (sv\<lparr>sv_balance := retire (sv_balance sv) t\<rparr>) wk))
           else Some (sv\<lparr>sv_balance := release (sv_balance sv) t\<rparr>, wk))
      | (None, b, rng) \<Rightarrow>
          Some (sv\<lparr>sv_balance := b\<rparr>,
            if detaches c then wk\<lparr>wk_rng := rng, wk_pending := Some c\<rparr> else wk\<lparr>wk_rng := rng\<rparr>))"

definition parked :: "config \<Rightarrow> nat \<Rightarrow> server \<Rightarrow> worker \<Rightarrow> bool" where
  "parked cfg me sv wk \<longleftrightarrow>
     wk_pending wk \<noteq> None
     \<or> (open_count (sv_balance sv) me \<ge> max (max_connections (sc_limits cfg)) 1 \<and> \<not> has_room (sv_balance sv))"

text \<open>One iteration.  The shutdown flag is read first, and a connection held is placed; a parked worker
  does not accept, so an accept is then no event of it.\<close>

definition place_pending :: "(handoff \<Rightarrow> bool) \<Rightarrow> nat \<Rightarrow> server \<Rightarrow> worker \<Rightarrow> (server \<times> worker) option" where
  "place_pending registers me sv wk =
     (case wk_pending wk of
        None \<Rightarrow> Some (sv, wk)
      | Some c \<Rightarrow> map_option hold (route registers me c sv (wk\<lparr>wk_pending := None\<rparr>)))"

definition worker_event ::
    "config \<Rightarrow> (handoff \<Rightarrow> bool) \<Rightarrow> (handoff \<Rightarrow> bool) \<Rightarrow> nat \<Rightarrow> event \<Rightarrow> server \<Rightarrow> worker \<Rightarrow>
      (turn \<times> server \<times> worker) option" where
  "worker_event cfg registers detaches me ev sv wk =
     (case ev of
        Changed v \<Rightarrow> Some (if v \<noteq> Some False then Stop else GoOn, sv, wk)
      | Freed \<Rightarrow>
          Some (GoOn,
            if parked cfg me sv wk
            then sv\<lparr>sv_balance := (sv_balance sv)\<lparr>b_freed := (b_freed (sv_balance sv))[me := False]\<rparr>\<rparr>
            else sv, wk)
      | Recheck \<Rightarrow> Some (GoOn, sv, wk)
      | Inbox \<Rightarrow> Some (GoOn, receive registers me (sv, wk))
      | Accepted (Inl e) \<Rightarrow>
          Some (if \<not> parked cfg me sv wk \<and> accept_backoff_warranted e then Backoff else GoOn, sv, wk)
      | Accepted (Inr c) \<Rightarrow>
          if parked cfg me sv wk then Some (GoOn, sv, wk)
          else map_option (\<lambda>x. (GoOn, x)) (accept_conn registers detaches me c sv wk))"

definition worker_turn ::
    "config \<Rightarrow> (handoff \<Rightarrow> bool) \<Rightarrow> (handoff \<Rightarrow> bool) \<Rightarrow> nat \<Rightarrow> bool \<Rightarrow> event \<Rightarrow> server \<Rightarrow> worker \<Rightarrow>
      (turn \<times> server \<times> worker) option" where
  "worker_turn cfg registers detaches me shutdown ev sv wk =
     (if shutdown then Some (Stop, sv, wk)
      else
        (case place_pending registers me sv wk of
           None \<Rightarrow> None
         | Some (sv, wk) \<Rightarrow> worker_event cfg registers detaches me ev sv wk))"

text \<open>After the loop: the worker retires, closes its inbox, and serves what it still holds.\<close>

definition recount_adopt :: "(handoff \<Rightarrow> bool) \<Rightarrow> nat \<Rightarrow> server \<times> worker \<Rightarrow> handoff \<Rightarrow> server \<times> worker" where
  "recount_adopt registers me x c =
     (let b = sv_balance (fst x);
          b = b\<lparr>b_open := (b_open b)[me := wrapping_add_u64 (open_count b me) 1]\<rparr>
      in adopt_conn registers me c ((fst x)\<lparr>sv_balance := b\<rparr>, snd x))"

definition worker_drain :: "(handoff \<Rightarrow> bool) \<Rightarrow> nat \<Rightarrow> server \<Rightarrow> worker \<Rightarrow> server \<times> worker" where
  "worker_drain registers me sv wk =
     (let sv = sv\<lparr>sv_balance := retire (sv_balance sv) me, sv_closed := (sv_closed sv)[me := True]\<rparr>;
          x = (case wk_pending wk of
                 None \<Rightarrow> (sv, wk)
               | Some c \<Rightarrow> recount_adopt registers me (sv, wk\<lparr>wk_pending := None\<rparr>) c);
          queued = sv_inbox (fst x) ! me;
          x = ((fst x)\<lparr>sv_inbox := (sv_inbox (fst x))[me := []]\<rparr>, snd x)
      in foldl (recount_adopt registers me) x queued)"

section \<open>No connection is lost\<close>

abbreviation fleet :: "server \<Rightarrow> nat" where
  "fleet sv \<equiv> workers (sv_balance sv)"

definition server_ok :: "server \<Rightarrow> bool" where
  "server_ok sv \<longleftrightarrow>
     length (sv_inbox sv) = fleet sv \<and> length (sv_closed sv) = fleet sv \<and> fleet sv < 2 ^ 64
     \<and> b_cap (sv_balance sv) \<le> RETIRED"

definition option_mset :: "'a option \<Rightarrow> 'a multiset" where
  "option_mset x = (case x of None \<Rightarrow> {#} | Some c \<Rightarrow> {#c#})"

text \<open>The connections in the channels and tasks, and those with the one held back.\<close>

definition moving :: "server \<Rightarrow> worker \<Rightarrow> handoff multiset" where
  "moving sv wk = mset (concat (sv_inbox sv)) + mset (wk_serving wk)"

definition conns :: "server \<Rightarrow> worker \<Rightarrow> handoff multiset" where
  "conns sv wk = moving sv wk + option_mset (wk_pending wk)"

lemma mset_concat_update:
  "i < length xs \<Longrightarrow> mset (concat (xs[i := ys])) + mset (xs ! i) = mset (concat xs) + mset ys"
proof (induction xs arbitrary: i)
  case (Cons x xs)
  then show ?case by (cases i) (auto simp: algebra_simps)
qed simp

lemma mset_concat_append:
  assumes "i < length xs"
  shows "mset (concat (xs[i := xs ! i @ [c]])) = add_mset c (mset (concat xs))"
  using mset_concat_update [OF assms, of "xs ! i @ [c]"] by simp

lemma mset_concat_take:
  assumes "i < length xs" and "xs ! i = c # cs"
  shows "mset (concat xs) = add_mset c (mset (concat (xs[i := cs])))"
  using mset_concat_update [OF assms(1), of cs] assms(2) by simp

text \<open>A connection that is no longer there is one whose socket could not be moved.\<close>

definition may_lose :: "bool \<Rightarrow> handoff \<Rightarrow> handoff multiset \<Rightarrow> bool" where
  "may_lose ok c lost \<longleftrightarrow> lost = {#} \<or> lost = {#c#} \<and> \<not> ok"

lemma adopt_conn_keeps:
  assumes "adopt_conn registers me c (sv, wk) = (sv', wk')" and "server_ok sv"
  shows "server_ok sv' \<and> fleet sv' = fleet sv \<and> wk_pending wk' = wk_pending wk
    \<and> (\<exists>lost. may_lose (registers c) c lost \<and> moving sv' wk' + lost = add_mset c (moving sv wk))"
  using assms
  by (cases "registers c")
     (auto simp: adopt_conn_def serve_conn_def release_def server_ok_def moving_def may_lose_def)

lemma place_fleet:
  assumes "place (sv_balance sv) me rng = (r, b, rng')" and "server_ok sv" and "me < fleet sv"
  shows "server_ok (sv\<lparr>sv_balance := b\<rparr>) \<and> workers b = fleet sv \<and> b_cap b = b_cap (sv_balance sv)
    \<and> (\<forall>t. r = Some t \<longrightarrow> t < fleet sv \<and> open_count (sv_balance sv) t < b_cap b
        \<and> (\<forall>i < fleet sv. i \<noteq> t \<longrightarrow> open_count b i = open_count (sv_balance sv) i))
    \<and> (r = None \<longrightarrow> b = sv_balance sv)"
  using place_spec [OF assms(3) _ assms(1)] assms(2)
  by (auto simp: server_ok_def open_count_def split: option.splits)

lemma send_keeps:
  assumes "send t c sv = (ok, sv')" and "server_ok sv" and "t < fleet sv"
  shows "server_ok sv' \<and> fleet sv' = fleet sv \<and> sv_balance sv' = sv_balance sv
    \<and> moving sv' wk = (if ok then add_mset c (moving sv wk) else moving sv wk) \<and> (\<not> ok \<longrightarrow> sv' = sv)"
  using assms by (auto simp: send_def server_ok_def moving_def mset_concat_append split: if_splits)

definition room :: "balance \<Rightarrow> nat set" where
  "room b = {i. i < workers b \<and> open_count b i < b_cap b}"

lemma route_returns:
  assumes "server_ok sv" and "me < fleet sv"
  shows "\<exists>r sv' wk'. route registers me c sv wk = Some (r, sv', wk')
    \<and> server_ok sv' \<and> fleet sv' = fleet sv \<and> wk_pending wk' = wk_pending wk
    \<and> (\<exists>lost. may_lose (registers c) c lost
        \<and> moving sv' wk' + option_mset r + lost = add_mset c (moving sv wk))"
  using assms
proof (induction "card (room (sv_balance sv))" arbitrary: sv wk rule: less_induct)
  case less
  obtain target b rng where p: "place (sv_balance sv) me (wk_rng wk) = (target, b, rng)"
    by (cases "place (sv_balance sv) me (wk_rng wk)") auto
  note pf = place_fleet [OF p less(2,3)]
  let ?sv = "sv\<lparr>sv_balance := b\<rparr>" and ?wk = "wk\<lparr>wk_rng := rng\<rparr>"
  have mv: "moving ?sv ?wk = moving sv wk" "fleet ?sv = fleet sv" "wk_pending ?wk = wk_pending wk"
    using pf by (simp_all add: moving_def)
  note rt = route.simps [of registers me c sv wk, unfolded p prod.case]
  show ?case
  proof (cases target)
    case None
    then have "route registers me c sv wk = Some (Some c, ?sv, ?wk)" using rt by simp
    moreover have "may_lose (registers c) c {#}" by (simp add: may_lose_def)
    moreover have "moving ?sv ?wk + option_mset (Some c) + {#} = add_mset c (moving sv wk)"
      unfolding mv(1) by (simp add: option_mset_def)
    ultimately show ?thesis using pf mv(2,3) by blast
  next
    case (Some t)
    with pf have tl: "t < fleet sv" "server_ok ?sv" by auto
    show ?thesis
    proof (cases "t = me")
      case True
      obtain sv2 wk2 where a: "adopt_conn registers me c (?sv, ?wk) = (sv2, wk2)"
        by (cases "adopt_conn registers me c (?sv, ?wk)")
      have "route registers me c sv wk = Some (None, sv2, wk2)" using rt Some True a by simp
      moreover from adopt_conn_keeps [OF a tl(2)] obtain lost where "server_ok sv2" "fleet sv2 = fleet sv"
        "wk_pending wk2 = wk_pending wk" "may_lose (registers c) c lost"
        "moving sv2 wk2 + option_mset None + lost = add_mset c (moving sv wk)"
        unfolding mv by (auto simp: option_mset_def)
      ultimately show ?thesis by blast
    next
      case False
      obtain ok sv2 where sd: "send t c ?sv = (ok, sv2)" by (cases "send t c ?sv")
      note sk = send_keeps [OF sd tl(2), of ?wk]
      show ?thesis
      proof (cases ok)
        case True
        have "route registers me c sv wk = Some (None, sv2, ?wk)" using rt Some False sd True by simp
        moreover have "server_ok sv2" "fleet sv2 = fleet sv"
          "moving sv2 ?wk + option_mset None + {#} = add_mset c (moving sv wk)"
          using sk True tl(1) pf unfolding mv by (simp_all add: option_mset_def)
        moreover have "may_lose (registers c) c {#}" by (simp add: may_lose_def)
        ultimately show ?thesis using mv(3) by blast
      next
        case nok: False
        let ?sv3 = "sv2\<lparr>sv_balance := retire (sv_balance sv2) t\<rparr>"
        have eq: "sv2 = ?sv" using sk nok tl(1) mv(2) by metis
        have b3: "sv_balance ?sv3 = retire b t" using eq by simp
        have wb: "workers b = fleet sv" using pf by blast
        have ok3: "server_ok ?sv3" "fleet ?sv3 = fleet sv" "moving ?sv3 ?wk = moving sv wk"
          using tl(2) unfolding eq by (simp_all add: server_ok_def retire_def moving_def wb)
        have oc: "open_count (retire b t) i = (if i = t then RETIRED else open_count (sv_balance sv) i)"
          if "i < fleet sv" for i
          using that pf Some tl(1) by (auto simp: retire_def open_count_def)
        have cap: "b_cap (retire b t) = b_cap (sv_balance sv)" "workers (retire b t) = fleet sv"
          "b_cap (sv_balance sv) \<le> RETIRED" "open_count (sv_balance sv) t < b_cap (sv_balance sv)"
          using pf Some less(2) by (simp_all add: retire_def server_ok_def)
        have "room (retire b t) = room (sv_balance sv) - {t}"
          using oc cap by (auto simp: room_def split: if_splits)
        moreover have "t \<in> room (sv_balance sv)" "finite (room (sv_balance sv))"
          using cap tl(1) by (simp_all add: room_def)
        ultimately have "card (room (sv_balance ?sv3)) < card (room (sv_balance sv))"
          unfolding b3 by (metis card_Diff1_less)
        from less(1) [OF this ok3(1), of ?wk, unfolded ok3(2,3) mv(3), OF less(3)]
        have "\<exists>r sv' wk'. route registers me c ?sv3 ?wk = Some (r, sv', wk')
            \<and> server_ok sv' \<and> fleet sv' = fleet sv \<and> wk_pending wk' = wk_pending wk
            \<and> (\<exists>lost. may_lose (registers c) c lost
                \<and> moving sv' wk' + option_mset r + lost = add_mset c (moving sv wk))" .
        moreover have "route registers me c sv wk = route registers me c ?sv3 ?wk"
          using rt Some False sd nok by simp
        ultimately show ?thesis by simp
      qed
    qed
  qed
qed

lemma hold_route:
  assumes "server_ok sv" and "me < fleet sv" and "wk_pending wk = None"
  shows "\<exists>sv' wk'. map_option hold (route registers me c sv wk) = Some (sv', wk')
    \<and> server_ok sv' \<and> fleet sv' = fleet sv
    \<and> (\<exists>lost. may_lose (registers c) c lost \<and> conns sv' wk' + lost = add_mset c (conns sv wk))"
proof -
  from route_returns [OF assms(1,2), of registers c wk] obtain q sv' wk' lost where
    r: "route registers me c sv wk = Some (q, sv', wk')" "server_ok sv'" "fleet sv' = fleet sv"
    "may_lose (registers c) c lost" "moving sv' wk' + option_mset q + lost = add_mset c (moving sv wk)" by blast
  have "conns sv' (wk'\<lparr>wk_pending := q\<rparr>) = moving sv' wk' + option_mset q" "conns sv wk = moving sv wk"
    using assms(3) by (simp_all add: conns_def moving_def option_mset_def)
  with r show ?thesis by (simp add: hold_def) metis
qed

lemma receive_keeps:
  assumes "receive registers me (sv, wk) = (sv', wk')" and "server_ok sv" and "me < fleet sv"
  shows "server_ok sv' \<and> fleet sv' = fleet sv
    \<and> (\<exists>lost. conns sv' wk' + lost = conns sv wk \<and> (\<forall>c \<in># lost. \<not> registers c))"
proof (cases "sv_inbox sv ! me")
  case Nil
  with assms show ?thesis by (auto simp: receive_def intro: exI [of _ "{#}"])
next
  case (Cons c cs)
  let ?sv = "sv\<lparr>sv_inbox := (sv_inbox sv)[me := cs]\<rparr>"
  have a: "adopt_conn registers me c (?sv, wk) = (sv', wk')" using assms(1) Cons by (simp add: receive_def)
  have ok: "server_ok ?sv" using assms(2) by (simp add: server_ok_def)
  have "moving sv wk = add_mset c (moving ?sv wk)"
    using mset_concat_take [OF _ Cons] assms(2,3) by (simp add: moving_def server_ok_def)
  with adopt_conn_keeps [OF a ok] show ?thesis
    by (auto simp: conns_def may_lose_def ac_simps)
qed

lemma accept_conn_keeps:
  assumes "server_ok sv" and "me < fleet sv" and "wk_pending wk = None"
  shows "\<exists>sv' wk'. accept_conn registers detaches me c sv wk = Some (sv', wk') \<and> server_ok sv' \<and> fleet sv' = fleet sv
    \<and> (\<exists>lost. may_lose (registers c \<and> detaches c) c lost \<and> conns sv' wk' + lost = add_mset c (conns sv wk))"
proof -
  obtain target b rng where p: "place (sv_balance sv) me (wk_rng wk) = (target, b, rng)"
    by (cases "place (sv_balance sv) me (wk_rng wk)") auto
  note pf = place_fleet [OF p assms(1,2)]
  let ?sv = "sv\<lparr>sv_balance := b\<rparr>" and ?wk = "wk\<lparr>wk_rng := rng\<rparr>"
  have wb: "workers b = fleet sv" "server_ok ?sv" using pf by blast+
  have mv: "conns ?sv ?wk = conns sv wk" by (simp add: conns_def moving_def)
  note ac = accept_conn_def [of registers detaches me c sv wk, unfolded p prod.case Let_def]
  show ?thesis
  proof (cases target)
    case None
    with ac wb assms(3) show ?thesis
      by (auto simp: conns_def moving_def option_mset_def may_lose_def intro: exI [of _ "{#}"])
  next
    case (Some t)
    with pf have tl: "t < fleet sv" by blast
    consider "t = me" | "t \<noteq> me" "\<not> detaches c" | "t \<noteq> me" "detaches c" by blast
    then show ?thesis
    proof cases
      case 1
      with ac Some wb show ?thesis
        by (auto simp: serve_conn_def conns_def moving_def may_lose_def intro: exI [of _ "{#}"])
    next
      case 2
      with ac Some wb show ?thesis
        by (auto simp: release_def server_ok_def conns_def moving_def may_lose_def)
    next
      case 3
      obtain ok sv2 where sd: "send t c ?sv = (ok, sv2)" by (cases "send t c ?sv")
      have "t < fleet ?sv" using tl wb(1) by simp
      note sk = send_keeps [OF sd wb(2) this, of ?wk]
      show ?thesis
      proof (cases ok)
        case True
        with ac Some 3 sd sk wb mv show ?thesis
          by (auto simp: conns_def may_lose_def intro: exI [of _ "{#}"])
      next
        case False
        let ?sv3 = "?sv\<lparr>sv_balance := retire b t\<rparr>"
        have "sv2 = ?sv" using sk False by blast
        with ac Some 3 sd False
        have eq: "accept_conn registers detaches me c sv wk = map_option hold (route registers me c ?sv3 ?wk)" by simp
        have "server_ok ?sv3" "fleet ?sv3 = fleet sv" "conns ?sv3 ?wk = conns sv wk"
          using wb by (simp_all add: server_ok_def retire_def conns_def moving_def)
        with hold_route [of ?sv3 me ?wk registers c] assms(2,3) show ?thesis
          unfolding eq by (auto simp: may_lose_def)
      qed
    qed
  qed
qed

lemma place_pending_keeps:
  assumes "server_ok sv" and "me < fleet sv"
  shows "\<exists>sv1 wk1 lost. place_pending registers me sv wk = Some (sv1, wk1) \<and> server_ok sv1 \<and> fleet sv1 = fleet sv
    \<and> conns sv1 wk1 + lost = conns sv wk \<and> (\<forall>c \<in># lost. \<not> registers c)"
proof (cases "wk_pending wk")
  case None
  with assms show ?thesis by (auto simp: place_pending_def intro: exI [of _ "{#}"])
next
  case (Some c)
  have "conns sv wk = add_mset c (conns sv (wk\<lparr>wk_pending := None\<rparr>))"
    using Some by (simp add: conns_def moving_def option_mset_def)
  with hold_route [OF assms, of "wk\<lparr>wk_pending := None\<rparr>" registers c] Some show ?thesis
    by (fastforce simp: place_pending_def may_lose_def)
qed

text \<open>The connection an event brings in: an accepted one, unless the worker is parked.\<close>

definition brought :: "config \<Rightarrow> nat \<Rightarrow> event \<Rightarrow> server \<Rightarrow> worker \<Rightarrow> handoff multiset" where
  "brought cfg me ev sv wk =
     (case ev of Accepted (Inr c) \<Rightarrow> if parked cfg me sv wk then {#} else {#c#} | _ \<Rightarrow> {#})"

lemma worker_event_keeps:
  assumes "server_ok sv" and "me < fleet sv"
  shows "\<exists>tn sv' wk' lost. worker_event cfg registers detaches me ev sv wk = Some (tn, sv', wk') \<and> server_ok sv'
    \<and> conns sv' wk' + lost = conns sv wk + brought cfg me ev sv wk
    \<and> (\<forall>c \<in># lost. \<not> registers c \<or> \<not> detaches c)
    \<and> (tn = Stop \<longleftrightarrow> (\<exists>v. ev = Changed v \<and> v \<noteq> Some False))"
proof -
  have plain: ?thesis if "worker_event cfg registers detaches me ev sv wk = Some (tn, sv2, wk)"
    "server_ok sv2" "conns sv2 wk = conns sv wk" "brought cfg me ev sv wk = {#}"
    "tn = Stop \<longleftrightarrow> (\<exists>v. ev = Changed v \<and> v \<noteq> Some False)" for tn sv2
    using that by (intro exI [of _ tn] exI [of _ sv2] exI [of _ wk] exI [of _ "{#}"]) simp
  consider (acc) c where "ev = Accepted (Inr c)" "\<not> parked cfg me sv wk" | (inbox) "ev = Inbox" | (freed) "ev = Freed"
    | (other) tn where "worker_event cfg registers detaches me ev sv wk = Some (tn, sv, wk)" "brought cfg me ev sv wk = {#}"
      "tn = Stop \<longleftrightarrow> (\<exists>v. ev = Changed v \<and> v \<noteq> Some False)"
  proof (cases ev)
    case (Accepted a)
    then show ?thesis using that(1) that(4) [of GoOn] that(4) [of Backoff]
      by (cases a; cases "parked cfg me sv wk"; cases "accept_backoff_warranted (projl a)")
         (auto simp: worker_event_def brought_def)
  next
    case (Changed v)
    then show ?thesis using that(4) [of "if v \<noteq> Some False then Stop else GoOn"]
      by (simp add: worker_event_def brought_def)
  qed (use that in \<open>simp_all add: worker_event_def brought_def\<close>)
  then show ?thesis
  proof cases
    case acc
    then have "wk_pending wk = None" by (simp add: parked_def)
    from accept_conn_keeps [OF assms this, of registers detaches c] obtain sv2 wk2 lost2 where
      k: "accept_conn registers detaches me c sv wk = Some (sv2, wk2)" "server_ok sv2"
      "may_lose (registers c \<and> detaches c) c lost2" "conns sv2 wk2 + lost2 = add_mset c (conns sv wk)" by blast
    with acc show ?thesis
      by (intro exI [of _ GoOn] exI [of _ sv2] exI [of _ wk2] exI [of _ lost2])
         (auto simp: worker_event_def brought_def may_lose_def)
  next
    case inbox
    obtain sv2 wk2 where rc: "receive registers me (sv, wk) = (sv2, wk2)" by (cases "receive registers me (sv, wk)")
    from receive_keeps [OF rc assms] obtain lost2 where "server_ok sv2"
      "conns sv2 wk2 + lost2 = conns sv wk" "\<forall>c \<in># lost2. \<not> registers c" by blast
    with inbox rc show ?thesis
      by (intro exI [of _ GoOn] exI [of _ sv2] exI [of _ wk2] exI [of _ lost2])
         (auto simp: worker_event_def brought_def)
  next
    case freed
    let ?sv2 = "if parked cfg me sv wk
        then sv\<lparr>sv_balance := (sv_balance sv)\<lparr>b_freed := (b_freed (sv_balance sv))[me := False]\<rparr>\<rparr> else sv"
    have "server_ok ?sv2" "conns ?sv2 wk = conns sv wk"
      using assms(1) by (simp_all add: server_ok_def conns_def moving_def)
    with freed show ?thesis by (intro plain [of GoOn ?sv2]) (auto simp: worker_event_def brought_def)
  next
    case other
    with assms(1) show ?thesis by (intro plain) simp_all
  qed
qed

text \<open>
  A connection accepted when every worker is at its cap is held, above the caps; and a worker that
  leaves its loop serves what it holds, and what is queued for it, beside all it serves.
\<close>

theorem held_above_cap:
  assumes "\<not> has_room (sv_balance sv)" and "me < fleet sv" and "fleet sv < 2 ^ 64" and "sv_inbox sv ! me = []"
    and "detaches c" and "registers c"
  shows "\<exists>sv' wk'. accept_conn registers detaches me c sv wk = Some (sv', wk')
    \<and> wk_pending wk' = Some c \<and> wk_serving wk' = wk_serving wk
    \<and> wk_serving (snd (worker_drain registers me sv' wk')) = wk_serving wk @ [c]"
proof -
  obtain q b rng where p: "place (sv_balance sv) me (wk_rng wk) = (q, b, rng)"
    by (cases "place (sv_balance sv) me (wk_rng wk)")
  from place_spec [OF assms(2,3) p] assms(1) have "q = None"
    by (cases q) (auto simp: has_room_def list_ex_iff)
  with p assms(4-6) show ?thesis
    by (simp add: accept_conn_def worker_drain_def recount_adopt_def adopt_conn_def serve_conn_def Let_def)
qed

text \<open>C31. No connection is lost or doubled by the accept loop: whatever woke the worker, its iteration
  ends, and the connections held, queued for any worker or being served are afterwards exactly
  those before with the one accepted, but for a connection whose socket could not be detached from
  a reactor or registered with one.  A worker accepts unless it is parked, and leaves the loop
  exactly when told to shut down.\<close>

theorem worker_turn_conserves:
  assumes "server_ok sv" and "me < fleet sv"
  shows "\<exists>tn sv' wk' lost. worker_turn cfg registers detaches me shutdown ev sv wk = Some (tn, sv', wk') \<and> server_ok sv'
    \<and> (\<forall>c \<in># lost. \<not> registers c \<or> \<not> detaches c)
    \<and> (tn = Stop \<longleftrightarrow> shutdown \<or> (\<exists>v. ev = Changed v \<and> v \<noteq> Some False))
    \<and> (if shutdown then sv' = sv \<and> wk' = wk
       else \<exists>sv1 wk1. place_pending registers me sv wk = Some (sv1, wk1)
         \<and> conns sv' wk' + lost = conns sv wk + brought cfg me ev sv1 wk1)"
proof (cases shutdown)
  case True
  with assms(1) show ?thesis by (auto simp: worker_turn_def intro!: exI [of _ "{#}"])
next
  case False
  from place_pending_keeps [OF assms, of registers wk] obtain sv1 wk1 lost1 where
    x: "place_pending registers me sv wk = Some (sv1, wk1)" "server_ok sv1" "me < fleet sv1"
    "conns sv1 wk1 + lost1 = conns sv wk" "\<forall>c \<in># lost1. \<not> registers c" using assms(2) by metis
  from worker_event_keeps [OF x(2,3), of cfg registers detaches ev wk1] obtain tn sv2 wk2 lost2 where
    e: "worker_event cfg registers detaches me ev sv1 wk1 = Some (tn, sv2, wk2)" "server_ok sv2"
    "conns sv2 wk2 + lost2 = conns sv1 wk1 + brought cfg me ev sv1 wk1"
    "\<forall>c \<in># lost2. \<not> registers c \<or> \<not> detaches c" "tn = Stop \<longleftrightarrow> (\<exists>v. ev = Changed v \<and> v \<noteq> Some False)" by blast
  have "conns sv2 wk2 + (lost2 + lost1) = conns sv wk + brought cfg me ev sv1 wk1"
    using e(3) x(4) by (metis add.assoc add.commute)
  moreover have "\<forall>c \<in># lost2 + lost1. \<not> registers c \<or> \<not> detaches c" using e(4) x(5) by auto
  ultimately show ?thesis using False x(1) e(1,2,5)
    by (intro exI [of _ tn] exI [of _ sv2] exI [of _ wk2] exI [of _ "lost2 + lost1"]) (simp add: worker_turn_def)
qed

definition sample_server :: server where
  "sample_server = \<lparr>sv_balance = balance_new 2 1, sv_inbox = [[], [9]], sv_closed = [False, False]\<rparr>"

theorem worker_turn_conserves_witness:
  "\<exists>tn sv' wk' lost. worker_turn (config_new None 0) (\<lambda>_. True) (\<lambda>_. True) 0 False (Accepted (Inr 7)) sample_server (worker_new 0)
      = Some (tn, sv', wk') \<and> conns sv' wk' + lost = {#7, 9#} \<and> lost = {#} \<and> tn \<noteq> Stop"
proof -
  let ?cfg = "config_new None 0"
  have ok: "server_ok sample_server" "0 < fleet sample_server"
    by (simp_all add: sample_server_def server_ok_def balance_new_def RETIRED_def)
  have "place_pending (\<lambda>_. True) 0 sample_server (worker_new 0) = Some (sample_server, worker_new 0)"
    by (simp add: place_pending_def worker_new_def)
  moreover have "\<not> parked ?cfg 0 sample_server (worker_new 0)"
    by (simp add: parked_def worker_new_def sample_server_def balance_new_def open_count_def config_new_def
        default_limits_def DEFAULT_MAX_CONNECTIONS_PER_WORKER_def)
  moreover have "conns sample_server (worker_new 0) = {#9#}"
    by (simp add: conns_def moving_def sample_server_def worker_new_def option_mset_def)
  ultimately show ?thesis
    using worker_turn_conserves [OF ok, of ?cfg "\<lambda>_. True" "\<lambda>_. True" False "Accepted (Inr 7)" "worker_new 0"]
    by (auto simp: brought_def)
qed

text \<open>Shutdown resets nobody: when a worker leaves its loop, every connection handed to it and the one
  it may hold get a task before it goes, its channel accepts no more, and its count, from then on
  that of a retired worker, has grown by one for each, so each can be given back.\<close>

lemma worker_drain_serves_all:
  assumes "server_ok sv" and "me < fleet sv" and "worker_drain (\<lambda>_. True) me sv wk = (sv', wk')"
    and "length (sv_inbox sv ! me) < RETIRED"
  shows "mset (wk_serving wk') = mset (wk_serving wk) + mset (sv_inbox sv ! me) + option_mset (wk_pending wk)
    \<and> wk_pending wk' = None \<and> sv_inbox sv' = (sv_inbox sv)[me := []] \<and> sv_closed sv' = (sv_closed sv)[me := True]
    \<and> open_count (sv_balance sv') me = RETIRED + length (sv_inbox sv ! me) + size (option_mset (wk_pending wk))"
proof -
  have step: "foldl (recount_adopt (\<lambda>_. True) me) (s, w) cs
      = (s\<lparr>sv_balance := (sv_balance s)\<lparr>b_open := (b_open (sv_balance s))[me := open_count (sv_balance s) me + length cs]\<rparr>\<rparr>,
         w\<lparr>wk_serving := wk_serving w @ cs\<rparr>)"
    if "open_count (sv_balance s) me + length cs < 2 ^ 64" "me < fleet s" for s w cs
    using that
  proof (induction cs arbitrary: s w)
    case (Cons c cs)
    then show ?case
      by (simp add: recount_adopt_def adopt_conn_def serve_conn_def open_count_def Let_def wrapping_add_u64_exact)
  qed (simp add: open_count_def)
  let ?sv = "sv\<lparr>sv_balance := retire (sv_balance sv) me, sv_closed := (sv_closed sv)[me := True]\<rparr>"
  let ?held = "case wk_pending wk of None \<Rightarrow> [] | Some c \<Rightarrow> [c]"
  have oc: "open_count (sv_balance ?sv) me = RETIRED" "me < fleet ?sv"
    using assms(2) by (simp_all add: retire_def open_count_def)
  have r: "2 * RETIRED + 1 < 2 ^ 64" by (simp add: RETIRED_def)
  have x: "(case wk_pending wk of None \<Rightarrow> (?sv, wk)
       | Some c \<Rightarrow> recount_adopt (\<lambda>_. True) me (?sv, wk\<lparr>wk_pending := None\<rparr>) c)
      = (?sv\<lparr>sv_balance := (sv_balance ?sv)\<lparr>b_open := (b_open (sv_balance ?sv))[me := RETIRED + length ?held]\<rparr>\<rparr>,
         wk\<lparr>wk_pending := None, wk_serving := wk_serving wk @ ?held\<rparr>)"
    using step [of ?sv "?held" "wk\<lparr>wk_pending := None\<rparr>"] oc r
    by (cases "wk_pending wk") (auto simp: open_count_def retire_def)
  have "length ?held \<le> 1" by (simp split: option.split)
  with assms(3,4) oc r show ?thesis
    unfolding worker_drain_def Let_def x
    by (subst (asm) step) (auto simp: open_count_def retire_def option_mset_def ac_simps split: option.splits)
qed

section \<open>Startup\<close>

text \<open>Every worker listens at the one address the server reports: the first bind resolves it, and the
  others join it.  The operating system gives a resolved address back as it is.\<close>

lemma bind_rest_fixed:
  assumes "\<And>i l. bind_one addr True i = Inr l \<Longrightarrow> l = addr" and "bind_rest bind_one addr ws = Inr (ls, a)"
  shows "a = addr \<and> ls = replicate (length ws) addr"
  using assms(2)
proof (induction ws arbitrary: ls)
  case (Cons w ws)
  from Cons.prems obtain l ls1 where b: "bind_one addr True w = Inr l" and ls: "ls = l # ls1"
    and r: "bind_rest bind_one (if w = 0 then l else addr) ws = Inr (ls1, a)"
    by (auto split: sum.splits)
  from assms(1) [OF b] r have "bind_rest bind_one addr ws = Inr (ls1, a)" by (simp split: if_splits)
  with Cons.IH assms(1) [OF b] ls show ?case by simp
qed simp

lemma server_bind_address:
  assumes "\<And>a r i l j l'. bind_one a r i = Inr l \<Longrightarrow> bind_one l r j = Inr l' \<Longrightarrow> l' = l"
    and "server_bind bind_one supported c = Inr s" and "0 < sc_workers c"
  shows "bd_listeners s = (if reuse_port (sc_tcp c) \<and> supported
      then PerWorker (replicate (sc_workers c) (bd_local_addr s)) else SharedListener (bd_local_addr s))
    \<and> \<not> is_shutting_down s"
proof (cases "reuse_port (sc_tcp c) \<and> supported")
  case True
  with assms(2) obtain ls a where b: "bind_rest bind_one (sc_addr c) [0..<sc_workers c] = Inr (ls, a)"
    and s: "bd_listeners s = PerWorker ls" "bd_local_addr s = a" "\<not> is_shutting_down s"
    by (auto simp: server_bind_def is_shutting_down_def split: sum.splits)
  have u: "[0..<sc_workers c] = 0 # [Suc 0..<sc_workers c]" using assms(3) by (rule upt_conv_Cons)
  from b obtain l ls1 where l: "bind_one (sc_addr c) True 0 = Inr l" "ls = l # ls1"
    and r: "bind_rest bind_one l [Suc 0..<sc_workers c] = Inr (ls1, a)"
    unfolding u by (auto split: sum.splits)
  from bind_rest_fixed [OF assms(1) [OF l(1)] r] have "a = l" "ls1 = replicate (sc_workers c - 1) l" by simp_all
  with l(2) assms(3) have "ls = replicate (sc_workers c) a" by (cases "sc_workers c") simp_all
  with True s show ?thesis by simp
next
  case False
  with assms(2) show ?thesis by (auto simp: server_bind_def is_shutting_down_def split: sum.splits)
qed

lemma spawn_workers_failed: "SpawnFailed e \<in> set ws \<Longrightarrow> \<exists>e. fst (spawn_workers w ws b) = Inl e"
  by (induction w ws b rule: spawn_workers.induct) (auto split: prod.splits sum.splits)

lemma spawn_workers_started:
  "\<forall>e. SpawnFailed e \<notin> set ws \<Longrightarrow>
     fst (spawn_workers w ws b) = Inr (concat (map (\<lambda>x. case x of Spawned s p \<Rightarrow> [(s, p)] | _ \<Rightarrow> []) ws))"
  by (induction w ws b rule: spawn_workers.induct) (auto split: prod.splits sum.splits)

lemma started_mem:
  "(s, p) \<in> set (concat (map (\<lambda>x. case x of Spawned s p \<Rightarrow> [(s, p)] | _ \<Rightarrow> []) ws)) \<longleftrightarrow> Spawned s p \<in> set ws"
  by (induction ws) (auto split: spawn.splits)

lemma some_dead: "length (filter fst hs) < length hs \<longleftrightarrow> (\<exists>p. (False, p) \<in> set hs)"
proof (induction hs)
  case (Cons h hs)
  have "length (filter fst hs) \<le> length hs" by simp
  with Cons show ?case by (cases h) (auto simp: less_Suc_eq_le)
qed simp

lemma join_all_pos: "0 < join_all hs \<longleftrightarrow> (\<exists>s. (s, True) \<in> set hs)"
  by (force simp: join_all_def filter_empty_conv)

text \<open>A server reports a clean end only if every worker that was to start did and none panicked; a failed
  start also leaves the others told to stop.\<close>

lemma serve_with_failed:
  assumes "SpawnFailed e \<in> set ws"
  shows "(\<exists>e. fst (serve_with c ws shutdown) = Inl e) \<and> snd (serve_with c ws shutdown)"
proof -
  let ?b = "balance_new (length ws) (max_connections (sc_limits c))"
  obtain e b where "spawn_workers 0 ws ?b = (Inl e, b)"
    using spawn_workers_failed [OF assms, of 0 ?b] by (metis prod.collapse)
  then show ?thesis by (simp add: serve_with_def)
qed

lemma serve_with_started:
  assumes "\<forall>e. SpawnFailed e \<notin> set ws"
  shows "(fst (serve_with c ws shutdown) = Inr () \<longleftrightarrow> (\<forall>s p. Spawned s p \<in> set ws \<longrightarrow> s \<and> \<not> p))
    \<and> (Spawned False p \<in> set ws \<longrightarrow> snd (serve_with c ws shutdown))"
proof -
  let ?b = "balance_new (length ws) (max_connections (sc_limits c))"
  let ?hs = "concat (map (\<lambda>x. case x of Spawned s p \<Rightarrow> [(s, p)] | _ \<Rightarrow> []) ws)"
  obtain hs b where r: "spawn_workers 0 ws ?b = (Inr hs, b)" and hs: "hs = ?hs"
    using spawn_workers_started [OF assms, of 0 ?b] by (metis prod.collapse)
  have m: "(s, p) \<in> set hs \<longleftrightarrow> Spawned s p \<in> set ws" for s p unfolding hs by (rule started_mem)
  have "fst (serve_with c ws shutdown) = Inr () \<longleftrightarrow> \<not> (\<exists>p. (False, p) \<in> set hs) \<and> \<not> (\<exists>s. (s, True) \<in> set hs)"
    unfolding some_dead [symmetric] join_all_pos [symmetric] using r by (simp add: serve_with_def Let_def)
  moreover have "(False, p) \<in> set hs \<Longrightarrow> snd (serve_with c ws shutdown)"
    using r some_dead [of hs] by (auto simp: serve_with_def Let_def)
  ultimately show ?thesis unfolding m by (metis (full_types))
qed

end
