(* ===== verification/H1_Fleet.thy ===== *)
theory H1_Fleet
  imports H1_Server
begin

text \<open>
  All workers of a server together: from the listeners that \<^verbatim>\<open>Server::bind\<close> made, through the turns of
  the accept loops in any order and the ends of the connections' tasks, to shutdown and the drains.

  A turn of a worker is one step here, and so is its drain; what the threads do to the counts in
  between the accesses of one turn is the subject of \<^verbatim>\<open>H1_Balance\<close>, whose invariant \<open>slots_ok\<close> of a
  worker's count is the one kept here.  A worker that ends in a panic after its start is not among
  the steps: its tasks are dropped with it.
\<close>

section \<open>Starting\<close>

text \<open>
  One listener, by the calls on its socket.  \<open>os i call\<close> is the error the operating system answers a call
  on the \<open>i\<close>-th socket with, \<open>assigned i addr\<close> the address that socket gets when bound to \<open>addr\<close>, and \<open>v4\<close>
  the family of an address.  \<^verbatim>\<open>Server::bind\<close> asks the first listener for its address.
\<close>

datatype sock_call = NewSocket bool | SetReuseAddress | SetReusePort | BindTo socket_addr | ListenWith int | LocalAddr

definition reuse_port_supported :: "bool \<Rightarrow> bool \<Rightarrow> bool \<Rightarrow> bool" where
  "reuse_port_supported unix solaris illumos \<longleftrightarrow> unix \<and> \<not> solaris \<and> \<not> illumos"

fun sock_run :: "(sock_call \<Rightarrow> 'e option) \<Rightarrow> sock_call list \<Rightarrow> 'e + unit" where
  "sock_run os [] = Inr ()"
| "sock_run os (call # calls) = (case os call of Some e \<Rightarrow> Inl e | None \<Rightarrow> sock_run os calls)"

definition bind_one ::
    "(nat \<Rightarrow> sock_call \<Rightarrow> 'e option) \<Rightarrow> (nat \<Rightarrow> socket_addr \<Rightarrow> socket_addr) \<Rightarrow> (socket_addr \<Rightarrow> bool) \<Rightarrow> tcp_config \<Rightarrow> bool \<Rightarrow>
      socket_addr \<Rightarrow> bool \<Rightarrow> nat \<Rightarrow> 'e + socket_addr" where
  "bind_one os assigned v4 tcp supported addr reuse i =
     (case sock_run (os i)
        ([NewSocket (v4 addr), SetReuseAddress] @ (if supported \<and> reuse then [SetReusePort] else [])
         @ [BindTo addr, ListenWith (backlog tcp)]) of
        Inl e \<Rightarrow> Inl e
      | Inr _ \<Rightarrow> Inr (assigned i addr))"

definition bind_local ::
    "(nat \<Rightarrow> sock_call \<Rightarrow> 'e option) \<Rightarrow> (nat \<Rightarrow> socket_addr \<Rightarrow> socket_addr) \<Rightarrow> (socket_addr \<Rightarrow> bool) \<Rightarrow> tcp_config \<Rightarrow> bool \<Rightarrow>
      socket_addr \<Rightarrow> bool \<Rightarrow> nat \<Rightarrow> 'e + socket_addr" where
  "bind_local os assigned v4 tcp supported addr reuse i =
     (case bind_one os assigned v4 tcp supported addr reuse i of
        Inl e \<Rightarrow> Inl e
      | Inr l \<Rightarrow> if i = 0 then (case os i LocalAddr of Some e \<Rightarrow> Inl e | None \<Rightarrow> Inr l) else Inr l)"

lemma sock_run_first:
  "(sock_run os calls = Inr () \<longleftrightarrow> (\<forall>c \<in> set calls. os c = None))
   \<and> (sock_run os calls = Inl e \<longleftrightarrow> (\<exists>xs c ys. calls = xs @ c # ys \<and> (\<forall>x \<in> set xs. os x = None) \<and> os c = Some e))"
proof (induction calls)
  case (Cons c calls)
  show ?case
  proof (cases "os c")
    case None
    then have "(\<exists>xs d ys. c # calls = xs @ d # ys \<and> (\<forall>x \<in> set xs. os x = None) \<and> os d = Some e)
        \<longleftrightarrow> (\<exists>xs d ys. calls = xs @ d # ys \<and> (\<forall>x \<in> set xs. os x = None) \<and> os d = Some e)"
      by (auto simp: Cons_eq_append_conv) (metis append_Cons set_ConsD)+
    with None Cons show ?thesis by simp
  next
    case (Some e2)
    have "(\<exists>xs d ys. c # calls = xs @ d # ys \<and> (\<forall>x \<in> set xs. os x = None) \<and> os d = Some e) \<longleftrightarrow> e2 = e"
      using Some by (auto simp: Cons_eq_append_conv intro: exI [of _ "[]"])
    with Some show ?thesis by simp
  qed
qed simp

text \<open>
  All workers of a server that was bound listen at the one address it reports, where the system gives
  an assigned address back as it is.
\<close>

lemma bind_local_address:
  assumes "\<And>i j a. assigned j (assigned i a) = assigned i a"
    and "server_bind (bind_local os assigned v4 (sc_tcp c) supported) supported c = Inr s" and "0 < sc_workers c"
  shows "bd_listeners s = (if reuse_port (sc_tcp c) \<and> supported
      then PerWorker (replicate (sc_workers c) (bd_local_addr s)) else SharedListener (bd_local_addr s))"
proof -
  have "l' = l" if "bind_local os assigned v4 (sc_tcp c) supported a r i = Inr l"
    "bind_local os assigned v4 (sc_tcp c) supported l r j = Inr l'" for a r i l j l'
    using that assms(1) by (auto simp: bind_local_def bind_one_def split: sum.splits if_splits option.splits)
  from server_bind_address [OF _ assms(2,3)] this show ?thesis by blast
qed

text \<open>The listener of each worker; \<open>clones w\<close> is whether the shared one could be cloned for worker \<open>w\<close>.\<close>

definition per_worker :: "listeners \<Rightarrow> (nat \<Rightarrow> bool) \<Rightarrow> nat \<Rightarrow> bool list" where
  "per_worker ls clones n =
     (case ls of
        PerWorker v \<Rightarrow> map (\<lambda>_. True) v
      | SharedListener _ \<Rightarrow> map clones [0..<n])"

text \<open>\<open>spawned w\<close> is what becomes of worker \<open>w\<close> when it has a listener.\<close>

definition spawns :: "bound \<Rightarrow> (nat \<Rightarrow> bool) \<Rightarrow> (nat \<Rightarrow> 'e spawn) \<Rightarrow> 'e spawn list" where
  "spawns s clones spawned =
     (let slots = per_worker (bd_listeners s) clones (sc_workers (bd_config s))
      in map (\<lambda>w. if slots ! w then spawned w else NoListener) [0..<length slots])"

definition serve_bound ::
    "bound \<Rightarrow> (nat \<Rightarrow> bool) \<Rightarrow> (nat \<Rightarrow> 'e spawn) \<Rightarrow> bool \<Rightarrow> ('e serve_error + unit) \<times> bool" where
  "serve_bound s clones spawned shutdown =
     serve_with (bd_config s) (spawns s clones spawned) (is_shutting_down s \<or> shutdown)"

section \<open>The fleet\<close>

text \<open>
  What \<open>ft_accepted\<close> and \<open>ft_ended\<close> record is history: the connections taken from a listener, and those
  whose task has ended.
\<close>

record fleet_state =
  ft_server :: server
  ft_workers :: "worker list"
  ft_shutdown :: bool
  ft_accepted :: "handoff multiset"
  ft_ended :: "handoff multiset"

text \<open>A worker without a listener, or whose thread did not reach its loop, has dropped its inbox.\<close>

definition fleet_new :: "config \<Rightarrow> 'e spawn list \<Rightarrow> bool \<Rightarrow> fleet_state" where
  "fleet_new cfg ws shutdown =
     \<lparr>ft_server =
        \<lparr>sv_balance = snd (spawn_workers 0 ws (balance_new (length ws) (max_connections (sc_limits cfg)))),
         sv_inbox = replicate (length ws) [],
         sv_closed = map (\<lambda>w. \<not> (case w of Spawned started _ \<Rightarrow> started | _ \<Rightarrow> False)) ws\<rparr>,
      ft_workers = map worker_new [0..<length ws], ft_shutdown = shutdown,
      ft_accepted = {#}, ft_ended = {#}\<rparr>"

text \<open>
  The end of a connection's task drops its \<^verbatim>\<open>ConnSlot\<close>: by itself, or because the worker has left and
  its \<^verbatim>\<open>shutdown_grace\<close> is over.
\<close>

definition conn_ends :: "nat \<Rightarrow> handoff \<Rightarrow> server \<times> worker \<Rightarrow> server \<times> worker" where
  "conn_ends me c x =
     (case x of (sv, wk) \<Rightarrow>
        (sv\<lparr>sv_balance := release (sv_balance sv) me\<rparr>, wk\<lparr>wk_serving := remove1 c (wk_serving wk)\<rparr>))"

inductive fleet_step ::
    "config \<Rightarrow> (handoff \<Rightarrow> bool) \<Rightarrow> (handoff \<Rightarrow> bool) \<Rightarrow> fleet_state \<Rightarrow> fleet_state \<Rightarrow> bool"
  for cfg registers detaches where
  turn: "ft_server f = sv \<Longrightarrow> ft_workers f ! me = wk \<Longrightarrow> me < fleet sv \<Longrightarrow> \<not> sv_closed sv ! me \<Longrightarrow>
    worker_turn cfg registers detaches me (ft_shutdown f) ev sv wk = Some (tn, sv', wk') \<Longrightarrow> tn \<noteq> Stop \<Longrightarrow>
    place_pending registers me sv wk = Some (sv1, wk1) \<Longrightarrow>
    fleet_step cfg registers detaches f
      (f\<lparr>ft_server := sv', ft_workers := (ft_workers f)[me := wk'],
         ft_accepted := ft_accepted f + brought cfg me ev sv1 wk1\<rparr>)"
| leave: "ft_server f = sv \<Longrightarrow> ft_workers f ! me = wk \<Longrightarrow> me < fleet sv \<Longrightarrow> \<not> sv_closed sv ! me \<Longrightarrow>
    worker_turn cfg registers detaches me (ft_shutdown f) ev sv wk = Some (Stop, sv1, wk1) \<Longrightarrow>
    worker_drain registers me sv1 wk1 = (sv', wk') \<Longrightarrow>
    fleet_step cfg registers detaches f (f\<lparr>ft_server := sv', ft_workers := (ft_workers f)[me := wk']\<rparr>)"
| ends: "ft_server f = sv \<Longrightarrow> ft_workers f ! me = wk \<Longrightarrow> me < fleet sv \<Longrightarrow> c \<in> set (wk_serving wk) \<Longrightarrow>
    conn_ends me c (sv, wk) = (sv', wk') \<Longrightarrow>
    fleet_step cfg registers detaches f
      (f\<lparr>ft_server := sv', ft_workers := (ft_workers f)[me := wk'], ft_ended := add_mset c (ft_ended f)\<rparr>)"
| shutdown: "fleet_step cfg registers detaches f (f\<lparr>ft_shutdown := True\<rparr>)"

section \<open>Accounting\<close>

text \<open>
  The count of every worker against what it stands for: \<open>tk w\<close> slots just reserved, the queue of its
  channel, and \<open>serving w\<close> tasks.  Only a worker whose channel is closed may be retired.
\<close>

definition slot_at :: "server \<Rightarrow> (nat \<Rightarrow> nat) \<Rightarrow> (nat \<Rightarrow> nat) \<Rightarrow> nat \<Rightarrow> bool \<Rightarrow> bool \<Rightarrow> slots" where
  "slot_at sv serving tk w retired held =
     \<lparr>k_open = open_count (sv_balance sv) w, k_taken = tk w, k_queued = length (sv_inbox sv ! w),
      k_serving = serving w, k_retired = retired, k_held = held\<rparr>"

definition accounted_at :: "nat \<Rightarrow> (nat \<Rightarrow> nat) \<Rightarrow> (nat \<Rightarrow> nat) \<Rightarrow> server \<Rightarrow> nat \<Rightarrow> bool" where
  "accounted_at cap serving tk sv w \<longleftrightarrow>
     (\<exists>retired held. slots_ok cap (slot_at sv serving tk w retired held)
        \<and> (retired \<longrightarrow> sv_closed sv ! w) \<and> (\<not> sv_closed sv ! w \<longrightarrow> held))"

definition accounted :: "nat \<Rightarrow> (nat \<Rightarrow> nat) \<Rightarrow> (nat \<Rightarrow> nat) \<Rightarrow> server \<Rightarrow> bool" where
  "accounted cap serving tk sv \<longleftrightarrow>
     server_ok sv \<and> b_cap (sv_balance sv) = cap \<and> 2 * cap + 2 \<le> RETIRED
     \<and> (\<forall>w < fleet sv. accounted_at cap serving tk sv w)"

text \<open>A change at one worker leaves the accounts of the others.\<close>

lemma accounted_change:
  assumes "accounted cap f tk sv" and "server_ok sv'" and "b_cap (sv_balance sv') = cap" and "fleet sv' = fleet sv"
    and "\<And>w. w < fleet sv \<Longrightarrow> w \<noteq> t \<Longrightarrow> open_count (sv_balance sv') w = open_count (sv_balance sv) w
      \<and> sv_inbox sv' ! w = sv_inbox sv ! w \<and> sv_closed sv' ! w = sv_closed sv ! w \<and> f' w = f w \<and> tk' w = tk w"
    and "\<And>r h. slots_ok cap (slot_at sv f tk t r h) \<Longrightarrow> r \<longrightarrow> sv_closed sv ! t \<Longrightarrow> \<not> sv_closed sv ! t \<longrightarrow> h \<Longrightarrow>
      2 * cap + 2 \<le> RETIRED \<Longrightarrow> t < fleet sv \<Longrightarrow>
      slots_ok cap (slot_at sv' f' tk' t (r \<or> R) (h \<and> H)) \<and> (r \<or> R \<longrightarrow> sv_closed sv' ! t) \<and> (\<not> sv_closed sv' ! t \<longrightarrow> h \<and> H)"
  shows "accounted cap f' tk' sv'"
proof -
  have "accounted_at cap f' tk' sv' w" if "w < fleet sv" for w
  proof (cases "w = t")
    case True
    have "accounted_at cap f tk sv t" and c: "2 * cap + 2 \<le> RETIRED" using assms(1) that True by (simp_all add: accounted_def)
    then obtain r h where "slots_ok cap (slot_at sv f tk t r h)" "r \<longrightarrow> sv_closed sv ! t" "\<not> sv_closed sv ! t \<longrightarrow> h"
      unfolding accounted_at_def by blast
    from assms(6) [OF this c] that True show ?thesis unfolding accounted_at_def by blast
  next
    case False
    with assms(1) assms(5) [OF that False] that show ?thesis
      by (simp add: accounted_def accounted_at_def slot_at_def)
  qed
  with assms(1-4) show ?thesis by (simp add: accounted_def)
qed

lemma open_count_set:
  "open_count (b\<lparr>b_open := (b_open b)[t := n], b_freed := q\<rparr>) w = (if w = t \<and> t < workers b then n else open_count b w)"
  "open_count (b\<lparr>b_open := (b_open b)[t := n]\<rparr>) w = (if w = t \<and> t < workers b then n else open_count b w)"
  by (auto simp: open_count_def not_less list_update_beyond)

lemma accounted_server: "accounted cap f tk sv \<Longrightarrow> server_ok sv \<and> b_cap (sv_balance sv) = cap \<and> 2 * cap + 2 \<le> RETIRED"
  by (simp add: accounted_def)

lemmas account_defs = accounted_def server_ok_def open_count_set release_def retire_def

lemma place_accounted:
  assumes "accounted cap f tk sv" and "me < fleet sv" and "place (sv_balance sv) me rng = (r, b, rng')"
  shows "case r of
      Some t \<Rightarrow> t < fleet sv \<and> workers b = fleet sv \<and> accounted cap f (tk(t := Suc (tk t))) (sv\<lparr>sv_balance := b\<rparr>)
    | None \<Rightarrow> b = sv_balance sv"
proof (cases r)
  case None
  with place_spec [OF assms(2) _ assms(3)] assms(1) show ?thesis by (simp add: accounted_def server_ok_def)
next
  case (Some t)
  with place_spec [OF assms(2) _ assms(3)] assms(1)
  have t: "t < fleet sv" "open_count (sv_balance sv) t < cap"
    "b = (sv_balance sv)\<lparr>b_open := (b_open (sv_balance sv))[t := open_count (sv_balance sv) t + 1]\<rparr>"
    by (simp_all add: accounted_def server_ok_def)
  have "accounted cap f (tk(t := Suc (tk t))) (sv\<lparr>sv_balance := b\<rparr>)"
  proof (rule accounted_change [OF assms(1), where t = t and R = False and H = True])
    fix r h
    assume k: "slots_ok cap (slot_at sv f tk t r h)" "2 * cap + 2 \<le> RETIRED"
      "r \<longrightarrow> sv_closed sv ! t" "\<not> sv_closed sv ! t \<longrightarrow> h"
    have "slot_at (sv\<lparr>sv_balance := b\<rparr>) f (tk(t := Suc (tk t))) t r h =
        (slot_at sv f tk t r h)\<lparr>k_open := k_open (slot_at sv f tk t r h) + 1, k_taken := k_taken (slot_at sv f tk t r h) + 1\<rparr>"
      using t by (simp add: slot_at_def open_count_set)
    with slots_ok_step(1) [OF k(1,2)] k(3,4) t show "slots_ok cap (slot_at (sv\<lparr>sv_balance := b\<rparr>) f (tk(t := Suc (tk t))) t (r \<or> False) (h \<and> True))
      \<and> (r \<or> False \<longrightarrow> sv_closed (sv\<lparr>sv_balance := b\<rparr>) ! t) \<and> (\<not> sv_closed (sv\<lparr>sv_balance := b\<rparr>) ! t \<longrightarrow> h \<and> True)"
      by (simp add: slot_at_def)
  qed (use t assms(1) in \<open>simp_all add: account_defs\<close>)
  with Some t show ?thesis by simp
qed

text \<open>What becomes of a slot just reserved.\<close>

lemma taken_served:
  assumes "accounted cap f tk sv" and "t < fleet sv" and "tk t = Suc m"
  shows "accounted cap (f(t := Suc (f t))) (tk(t := m)) sv"
  by (rule accounted_change [OF assms(1), where t = t and R = False and H = True])
     (use assms in \<open>simp_all add: accounted_def slot_at_def slots_ok_def connections_def Let_def split: if_splits\<close>)

lemma taken_released:
  assumes "accounted cap f tk sv" and "t < fleet sv" and "tk t = Suc m"
  shows "accounted cap f (tk(t := m)) (sv\<lparr>sv_balance := release (sv_balance sv) t\<rparr>)"
proof (rule accounted_change [OF assms(1), where t = t and R = False and H = True])
  fix r h assume k: "slots_ok cap (slot_at sv f tk t r h)" "2 * cap + 2 \<le> RETIRED"
    "r \<longrightarrow> sv_closed sv ! t" "\<not> sv_closed sv ! t \<longrightarrow> h"
  then show "slots_ok cap (slot_at (sv\<lparr>sv_balance := release (sv_balance sv) t\<rparr>) f (tk(t := m)) t (r \<or> False) (h \<and> True))
    \<and> (r \<or> False \<longrightarrow> sv_closed (sv\<lparr>sv_balance := release (sv_balance sv) t\<rparr>) ! t)
    \<and> (\<not> sv_closed (sv\<lparr>sv_balance := release (sv_balance sv) t\<rparr>) ! t \<longrightarrow> h \<and> True)"
    using slots_ok_release(1) [OF k(1,2), of m] assms(2,3) by (simp add: slot_at_def account_defs)
qed (use assms in \<open>simp_all add: account_defs\<close>)

lemma taken_sent:
  assumes "accounted cap f tk sv" and "t < fleet sv" and "tk t = Suc m"
  shows "accounted cap f (tk(t := m)) (sv\<lparr>sv_inbox := (sv_inbox sv)[t := sv_inbox sv ! t @ [c]]\<rparr>)"
proof (rule accounted_change [OF assms(1), where t = t and R = False and H = True])
  have l: "t < length (sv_inbox sv)" using assms(1,2) by (simp add: account_defs)
  fix r h assume k: "slots_ok cap (slot_at sv f tk t r h)" "2 * cap + 2 \<le> RETIRED"
    "r \<longrightarrow> sv_closed sv ! t" "\<not> sv_closed sv ! t \<longrightarrow> h"
  let ?sv = "sv\<lparr>sv_inbox := (sv_inbox sv)[t := sv_inbox sv ! t @ [c]]\<rparr>"
  from k show "slots_ok cap (slot_at ?sv f (tk(t := m)) t (r \<or> False) (h \<and> True))
    \<and> (r \<or> False \<longrightarrow> sv_closed ?sv ! t) \<and> (\<not> sv_closed ?sv ! t \<longrightarrow> h \<and> True)"
    using slots_ok_step(3) [OF k(1,2), of m] assms(3) l by (simp add: slot_at_def)
qed (use assms in \<open>simp_all add: account_defs\<close>)

lemma taken_retired:
  assumes "accounted cap f tk sv" and "t < fleet sv" and "tk t = Suc m" and "sv_closed sv ! t"
  shows "accounted cap f (tk(t := m)) (sv\<lparr>sv_balance := retire (sv_balance sv) t\<rparr>)"
proof (rule accounted_change [OF assms(1), where t = t and R = True and H = True])
  fix r h assume k: "slots_ok cap (slot_at sv f tk t r h)" "2 * cap + 2 \<le> RETIRED"
  let ?sv = "sv\<lparr>sv_balance := retire (sv_balance sv) t\<rparr>"
  from k show "slots_ok cap (slot_at ?sv f (tk(t := m)) t (r \<or> True) (h \<and> True))
    \<and> (r \<or> True \<longrightarrow> sv_closed ?sv ! t) \<and> (\<not> sv_closed ?sv ! t \<longrightarrow> h \<and> True)"
    using slots_ok_step(4) [OF k(1,2), of m] assms(2,3,4) by (simp add: slot_at_def account_defs)
qed (use assms in \<open>simp_all add: account_defs\<close>)

text \<open>The channels that are closed, whose queues are empty.\<close>

definition framed :: "bool list \<Rightarrow> server \<Rightarrow> bool" where
  "framed C sv \<longleftrightarrow>
     fleet sv = length C \<and> sv_closed sv = C \<and> (\<forall>w < length C. C ! w \<longrightarrow> sv_inbox sv ! w = [])"

text \<open>Where no slot is just reserved, and the tasks of worker \<open>me\<close> are those of \<open>wk\<close>.\<close>

definition settled :: "bool list \<Rightarrow> nat \<Rightarrow> (nat \<Rightarrow> nat) \<Rightarrow> nat \<Rightarrow> server \<Rightarrow> worker \<Rightarrow> bool" where
  "settled C cap g me sv wk \<longleftrightarrow> framed C sv \<and> me < length C \<and> accounted cap (g(me := length (wk_serving wk))) (\<lambda>_. 0) sv"

lemma zero_upd [simp]: "(\<lambda>_. 0)(t := 0) = (\<lambda>_. 0 :: nat)"
  by auto

lemma framed_balance: "workers b = length C \<Longrightarrow> framed C sv \<Longrightarrow> framed C (sv\<lparr>sv_balance := b\<rparr>)"
  by (simp add: framed_def)

lemma framed_fleet: "framed C sv \<Longrightarrow> fleet sv = length C"
  by (simp add: framed_def)

lemma framed_inbox:
  assumes "framed C sv" and "C ! t \<longrightarrow> q = []"
  shows "framed C (sv\<lparr>sv_inbox := (sv_inbox sv)[t := q]\<rparr>)"
proof -
  have "(sv_inbox sv)[t := q] ! w = []" if "w < length C" "C ! w" for w
    using assms that by (cases "w = t"; cases "t < length (sv_inbox sv)") (auto simp: framed_def list_update_beyond)
  with assms(1) show ?thesis by (simp add: framed_def)
qed

lemma freed_accounted: "accounted cap f tk (sv\<lparr>sv_balance := (sv_balance sv)\<lparr>b_freed := q\<rparr>\<rparr>) = accounted cap f tk sv"
  by (simp add: accounted_def accounted_at_def server_ok_def slot_at_def open_count_def)

lemma settled_wk: "wk_serving wk' = wk_serving wk \<Longrightarrow> settled C cap g me sv wk' = settled C cap g me sv wk"
  by (simp add: settled_def)

lemma place_settled:
  assumes "settled C cap g me sv wk" and "place (sv_balance sv) me rng = (r, b, rng')"
  shows "case r of
      Some t \<Rightarrow> t < length C \<and> me < length C \<and> workers b = length C \<and> framed C (sv\<lparr>sv_balance := b\<rparr>)
        \<and> accounted cap (g(me := length (wk_serving wk))) ((\<lambda>_. 0)(t := Suc 0)) (sv\<lparr>sv_balance := b\<rparr>)
    | None \<Rightarrow> b = sv_balance sv"
proof -
  have "accounted cap (g(me := length (wk_serving wk))) (\<lambda>_. 0) sv" "me < fleet sv" using assms(1) by (simp_all add: settled_def framed_def)
  from place_accounted [OF this assms(2)] assms(1) show ?thesis by (auto simp: settled_def framed_def split: option.splits)
qed

lemma adopt_settled:
  assumes "accounted cap (g(me := length (wk_serving wk))) ((\<lambda>_. 0)(me := Suc 0)) sv" and "me < fleet sv" and "framed C sv"
    and "adopt_conn registers me c (sv, wk) = (sv', wk')"
  shows "settled C cap g me sv' wk'"
proof (cases "registers c")
  case True
  with assms taken_served [OF assms(1,2), of 0] show ?thesis by (auto simp: adopt_conn_def serve_conn_def settled_def framed_def)
next
  case False
  with assms taken_released [OF assms(1,2), of 0] show ?thesis
    by (auto simp: adopt_conn_def settled_def release_def framed_def)
qed

text \<open>A connection whose slot at another worker is reserved: sent, or that worker is retired.\<close>

lemma send_settled:
  assumes "accounted cap (g(me := length (wk_serving wk))) ((\<lambda>_. 0)(t := Suc 0)) sv" and "me < fleet sv" and "t < fleet sv"
    and "send t c sv = (ok, sv')" and "framed C sv"
  shows "settled C cap g me (if ok then sv' else sv'\<lparr>sv_balance := retire (sv_balance sv') t\<rparr>) wk"
  using assms(4) taken_sent [OF assms(1,3), of 0 c] taken_retired [OF assms(1,3), of 0] assms(2,5)
    framed_inbox [OF assms(5), of t "sv_inbox sv ! t @ [c]"] framed_fleet [OF assms(5)]
    framed_balance [OF _ assms(5), of "retire (sv_balance sv) t"]
  by (auto simp: send_def settled_def retire_def framed_def split: if_splits)

lemma route_settled:
  assumes "route registers me c sv wk = Some y" and "settled C cap g me sv wk"
  shows "settled C cap g me (fst (snd y)) (snd (snd y))"
proof -
  have "settled C cap g me sv wk \<longrightarrow> settled C cap g me (fst (snd y)) (snd (snd y))"
  proof (rule route.raw_induct [OF _ assms(1)])
    fix rt registers me c sv wk y
    assume IH: "\<And>registers me c sv wk y. rt registers me c sv wk = Some y \<Longrightarrow>
        settled C cap g me sv wk \<longrightarrow> settled C cap g me (fst (snd y)) (snd (snd y))"
      and rt: "(case place (sv_balance sv) me (wk_rng wk) of (target, b, rng) \<Rightarrow>
        (case target of
           None \<Rightarrow> Some (Some c, sv\<lparr>sv_balance := b\<rparr>, wk\<lparr>wk_rng := rng\<rparr>)
         | Some t \<Rightarrow>
             if t = me
             then Some (None, adopt_conn registers me c (sv\<lparr>sv_balance := b\<rparr>, wk\<lparr>wk_rng := rng\<rparr>))
             else
               (case send t c (sv\<lparr>sv_balance := b\<rparr>) of (ok, sv) \<Rightarrow>
                  if ok then Some (None, sv, wk\<lparr>wk_rng := rng\<rparr>)
                  else rt registers me c (sv\<lparr>sv_balance := retire (sv_balance sv) t\<rparr>) (wk\<lparr>wk_rng := rng\<rparr>)))) = Some y"
    obtain target b rng where p: "place (sv_balance sv) me (wk_rng wk) = (target, b, rng)"
      by (cases "place (sv_balance sv) me (wk_rng wk)") auto
    let ?sv = "sv\<lparr>sv_balance := b\<rparr>" and ?wk = "wk\<lparr>wk_rng := rng\<rparr>"
    show "settled C cap g me sv wk \<longrightarrow> settled C cap g me (fst (snd y)) (snd (snd y))"
    proof
      assume st: "settled C cap g me sv wk"
      show "settled C cap g me (fst (snd y)) (snd (snd y))"
      proof (cases target)
        case None
        with rt p have y: "y = (Some c, ?sv, ?wk)" by simp
        from None place_settled [OF st p] have "?sv = sv" by simp
        with st show ?thesis unfolding y by (simp add: settled_def)
      next
        case (Some t)
        note pl = place_settled [OF st p, unfolded Some, simplified]
        consider "t = me" | ok sv1 where "t \<noteq> me" "send t c ?sv = (ok, sv1)" by (cases "send t c ?sv") auto
        then show ?thesis
        proof cases
          case 1
          with rt p Some have "y = (None, adopt_conn registers me c (?sv, ?wk))" by simp
          then have "adopt_conn registers me c (?sv, ?wk) = (fst (snd y), snd (snd y))" by simp
          from adopt_settled [OF _ _ _ this, of cap g C] pl 1 show ?thesis by simp
        next
          case 2
          from send_settled [of cap g me ?wk t ?sv c ok sv1 C] pl 2
          have sd: "settled C cap g me (if ok then sv1 else sv1\<lparr>sv_balance := retire (sv_balance sv1) t\<rparr>) ?wk" by simp
          show ?thesis
          proof (cases ok)
            case True
            with rt p Some 2 have "y = (None, sv1, ?wk)" by simp
            with sd True show ?thesis by simp
          next
            case False
            with rt p Some 2 have "rt registers me c (sv1\<lparr>sv_balance := retire (sv_balance sv1) t\<rparr>) ?wk = Some y" by simp
            from IH [OF this] sd False show ?thesis by simp
          qed
        qed
      qed
    qed
  qed
  with assms(2) show ?thesis by blast
qed

lemma hold_settled: "settled C cap g me (fst (hold r)) (snd (hold r)) \<longleftrightarrow> settled C cap g me (fst (snd r)) (snd (snd r))"
  by (cases r) (simp add: hold_def settled_def)

lemma accept_settled:
  assumes "accept_conn registers detaches me c sv wk = Some (sv', wk')" and "settled C cap g me sv wk"
  shows "settled C cap g me sv' wk'"
proof -
  obtain target b rng where p: "place (sv_balance sv) me (wk_rng wk) = (target, b, rng)"
    by (cases "place (sv_balance sv) me (wk_rng wk)") auto
  let ?sv = "sv\<lparr>sv_balance := b\<rparr>" and ?wk = "wk\<lparr>wk_rng := rng\<rparr>"
  note ac = assms(1) [unfolded accept_conn_def p prod.case Let_def]
  show ?thesis
  proof (cases target)
    case None
    with ac have "sv' = ?sv" and w: "wk' = (if detaches c then wk\<lparr>wk_rng := rng, wk_pending := Some c\<rparr> else ?wk)" by simp_all
    moreover have "wk_serving wk' = wk_serving wk" unfolding w by simp
    moreover have "?sv = sv" using None place_settled [OF assms(2) p] by simp
    ultimately show ?thesis using assms(2) settled_wk [of wk' wk C cap g me sv] by simp
  next
    case (Some t)
    note pl = place_settled [OF assms(2) p, unfolded Some, simplified]
    consider "t = me" | "t \<noteq> me" "\<not> detaches c" | ok sv1 where "t \<noteq> me" "detaches c" "send t c ?sv = (ok, sv1)"
      by (cases "send t c ?sv") auto
    then show ?thesis
    proof cases
      case 1
      with ac Some have "sv' = ?sv" "wk' = serve_conn c ?wk" by simp_all
      moreover have "adopt_conn (\<lambda>_. True) me c (?sv, ?wk) = (?sv, serve_conn c ?wk)" by (simp add: adopt_conn_def)
      moreover have "accounted cap (g(me := length (wk_serving ?wk))) ((\<lambda>_. 0)(me := Suc 0)) ?sv" "me < fleet ?sv" "framed C ?sv"
        using pl 1 by simp_all
      ultimately show ?thesis using adopt_settled by metis
    next
      case 2
      with ac Some have e: "sv' = ?sv\<lparr>sv_balance := release b t\<rparr>" "wk' = ?wk" by simp_all
      have "t < fleet ?sv" using pl by simp
      with taken_released [of cap "g(me := length (wk_serving wk))" "(\<lambda>_. 0)(t := Suc 0)" ?sv t 0] pl
      have "accounted cap (g(me := length (wk_serving wk))) (\<lambda>_. 0) (?sv\<lparr>sv_balance := release b t\<rparr>)" by simp
      with pl show ?thesis unfolding e settled_def by (simp add: release_def framed_def)
    next
      case 3
      from send_settled [of cap g me ?wk t ?sv c ok sv1 C] pl 3
      have sd: "settled C cap g me (if ok then sv1 else sv1\<lparr>sv_balance := retire (sv_balance sv1) t\<rparr>) ?wk" by simp
      show ?thesis
      proof (cases ok)
        case True
        with ac Some 3 have "sv' = sv1" "wk' = ?wk" by simp_all
        with sd True show ?thesis by simp
      next
        case False
        with ac Some 3 have "map_option hold (route registers me c (sv1\<lparr>sv_balance := retire (sv_balance sv1) t\<rparr>) ?wk)
            = Some (sv', wk')" by simp
        then obtain y where y: "route registers me c (sv1\<lparr>sv_balance := retire (sv_balance sv1) t\<rparr>) ?wk = Some y"
          "hold y = (sv', wk')" by (auto simp: map_option_eq_Some)
        from sd False have "settled C cap g me (sv1\<lparr>sv_balance := retire (sv_balance sv1) t\<rparr>) ?wk" by simp
        from route_settled [OF y(1) this] show ?thesis using hold_settled [of C cap g me y] y(2) by simp
      qed
    qed
  qed
qed

lemma place_pending_settled:
  assumes "place_pending registers me sv wk = Some (sv', wk')" and "settled C cap g me sv wk"
  shows "settled C cap g me sv' wk'"
proof (cases "wk_pending wk")
  case None
  with assms show ?thesis by (simp add: place_pending_def)
next
  case (Some c)
  with assms(1) obtain y where y: "route registers me c sv (wk\<lparr>wk_pending := None\<rparr>) = Some y" "(sv', wk') = hold y"
    by (auto simp: place_pending_def)
  have "settled C cap g me sv (wk\<lparr>wk_pending := None\<rparr>)" using assms(2) by (simp add: settled_def)
  from route_settled [OF y(1) this] show ?thesis using hold_settled [of C cap g me y] y(2) by (metis fst_conv snd_conv)
qed

text \<open>A handoff taken from the channel keeps its slot.\<close>

lemma received_taken:
  assumes "accounted cap f (\<lambda>_. 0) sv" and "me < fleet sv" and "sv_inbox sv ! me = c # cs"
  shows "accounted cap f ((\<lambda>_. 0)(me := Suc 0)) (sv\<lparr>sv_inbox := (sv_inbox sv)[me := cs]\<rparr>)"
proof (rule accounted_change [OF assms(1), where t = me and R = False and H = True])
  have "me < length (sv_inbox sv)" using assms(1,2) by (simp add: account_defs)
  then show "slots_ok cap (slot_at (sv\<lparr>sv_inbox := (sv_inbox sv)[me := cs]\<rparr>) f ((\<lambda>_. 0)(me := Suc 0)) me (r \<or> False) (h \<and> True))
    \<and> (r \<or> False \<longrightarrow> sv_closed (sv\<lparr>sv_inbox := (sv_inbox sv)[me := cs]\<rparr>) ! me)
    \<and> (\<not> sv_closed (sv\<lparr>sv_inbox := (sv_inbox sv)[me := cs]\<rparr>) ! me \<longrightarrow> h \<and> True)"
    if "slots_ok cap (slot_at sv f (\<lambda>_. 0) me r h)" "r \<longrightarrow> sv_closed sv ! me" "\<not> sv_closed sv ! me \<longrightarrow> h" for r h
    using that assms(3) by (auto simp: slot_at_def slots_ok_def connections_def Let_def split: if_splits)
qed (use assms in \<open>simp_all add: account_defs\<close>)

lemma receive_settled:
  assumes "receive registers me (sv, wk) = (sv', wk')" and "settled C cap g me sv wk"
  shows "settled C cap g me sv' wk'"
proof (cases "sv_inbox sv ! me")
  case Nil
  with assms show ?thesis by (simp add: receive_def)
next
  case (Cons c cs)
  let ?sv = "sv\<lparr>sv_inbox := (sv_inbox sv)[me := cs]\<rparr>"
  have st: "framed C sv" "me < length C" "accounted cap (g(me := length (wk_serving wk))) (\<lambda>_. 0) sv"
    using assms(2) by (simp_all add: settled_def)
  with Cons have "C ! me \<longrightarrow> cs = []" by (auto simp: framed_def)
  with st Cons received_taken [OF st(3)] framed_inbox [OF st(1), of me cs] framed_fleet [OF st(1)]
  have "accounted cap (g(me := length (wk_serving wk))) ((\<lambda>_. 0)(me := Suc 0)) ?sv" "me < fleet ?sv" "framed C ?sv"
    by simp_all
  moreover have "adopt_conn registers me c (?sv, wk) = (sv', wk')" using assms(1) Cons by (simp add: receive_def)
  ultimately show ?thesis by (rule adopt_settled)
qed

lemma worker_turn_settled:
  assumes "worker_turn cfg registers detaches me shutdown ev sv wk = Some (tn, sv', wk')" and "settled C cap g me sv wk"
  shows "settled C cap g me sv' wk'"
proof (cases shutdown)
  case True
  with assms show ?thesis by (simp add: worker_turn_def)
next
  case False
  with assms(1) obtain sv1 wk1 where p: "place_pending registers me sv wk = Some (sv1, wk1)"
    "worker_event cfg registers detaches me ev sv1 wk1 = Some (tn, sv', wk')"
    by (auto simp: worker_turn_def split: option.splits)
  note st = place_pending_settled [OF p(1) assms(2)]
  have freed: "settled C cap g me (sv1\<lparr>sv_balance := (sv_balance sv1)\<lparr>b_freed := q\<rparr>\<rparr>) wk1" for q
    using st freed_accounted by (simp add: settled_def framed_def)
  show ?thesis
  proof (cases ev)
    case Inbox
    with p(2) receive_settled [of registers me sv1 wk1 sv' wk'] st show ?thesis by (simp add: worker_event_def)
  next
    case (Accepted a)
    with p(2) accept_settled [of registers detaches me _ sv1 wk1 sv' wk'] st show ?thesis
      by (auto simp: worker_event_def split: sum.splits if_splits)
  qed (use p(2) st freed in \<open>auto simp: worker_event_def split: if_splits\<close>)
qed

text \<open>
  The drain.  The queue is taken over as slots already reserved, one to be recounted for each; that
  the worker is retired shows in its count.
\<close>

lemma recount_accounted:
  assumes "accounted cap (g(me := length (wk_serving wk))) ((\<lambda>_. 0)(me := Suc n)) sv" and "me < fleet sv"
    and "RETIRED \<le> open_count (sv_balance sv) me" and "recount_adopt registers me (sv, wk) c = (sv', wk')"
  shows "accounted cap (g(me := length (wk_serving wk'))) ((\<lambda>_. 0)(me := n)) sv' \<and> fleet sv' = fleet sv
    \<and> sv_inbox sv' = sv_inbox sv \<and> sv_closed sv' = sv_closed sv \<and> RETIRED \<le> open_count (sv_balance sv') me"
proof -
  let ?n = "open_count (sv_balance sv) me"
  let ?m = "if registers c then ?n + 1 else ?n"
  have le: "?n + 1 < 2 ^ 64"
  proof -
    have "accounted_at cap (g(me := length (wk_serving wk))) ((\<lambda>_. 0)(me := Suc n)) sv me" and c: "2 * cap + 2 \<le> RETIRED"
      using assms(1,2) by (simp_all add: accounted_def)
    then obtain r h where "slots_ok cap (slot_at sv (g(me := length (wk_serving wk))) ((\<lambda>_. 0)(me := Suc n)) me r h)"
      unfolding accounted_at_def by blast
    note this c
    moreover have "2 * RETIRED + 1 < 2 ^ 64" by (simp add: RETIRED_def)
    ultimately show ?thesis
      by (auto simp: slots_ok_def slot_at_def connections_def Let_def split: if_splits)
  qed
  have b: "sv_balance sv' = (sv_balance sv)\<lparr>b_open := (b_open (sv_balance sv))[me := ?m], b_freed := b_freed (sv_balance sv')\<rparr>"
    and sv: "sv_inbox sv' = sv_inbox sv" "sv_closed sv' = sv_closed sv"
    and wk: "length (wk_serving wk') = (if registers c then Suc (length (wk_serving wk)) else length (wk_serving wk))"
    using assms(2,4) le
    by (cases "registers c"; auto simp: recount_adopt_def adopt_conn_def serve_conn_def release_def open_count_def Let_def
        wrapping_add_u64_exact wrapping_sub_u64_exact list_update_id)+
  have oc: "open_count (sv_balance sv') w = (if w = me then ?m else open_count (sv_balance sv) w)" for w
    using assms(2) by (subst b) (simp add: open_count_set)
  have fl: "fleet sv' = fleet sv" "b_cap (sv_balance sv') = b_cap (sv_balance sv)" by (subst b, simp)+
  have "accounted cap (g(me := length (wk_serving wk'))) ((\<lambda>_. 0)(me := n)) sv'"
  proof (rule accounted_change [OF assms(1), where t = me and R = False and H = True])
    show "slots_ok cap (slot_at sv' (g(me := length (wk_serving wk'))) ((\<lambda>_. 0)(me := n)) me (r \<or> False) (h \<and> True))
      \<and> (r \<or> False \<longrightarrow> sv_closed sv' ! me) \<and> (\<not> sv_closed sv' ! me \<longrightarrow> h \<and> True)"
      if "slots_ok cap (slot_at sv (g(me := length (wk_serving wk))) ((\<lambda>_. 0)(me := Suc n)) me r h)"
        "r \<longrightarrow> sv_closed sv ! me" "\<not> sv_closed sv ! me \<longrightarrow> h" "2 * cap + 2 \<le> RETIRED" for r h
      using that assms(3) oc [of me] sv wk
      by (auto simp: slot_at_def slots_ok_def connections_def Let_def split: if_splits)
  qed (use assms(1) oc sv fl in \<open>simp_all add: accounted_def server_ok_def\<close>)
  with oc [of me] fl sv assms(2,3) show ?thesis by simp
qed

lemma recount_fold:
  assumes "accounted cap (g(me := length (wk_serving wk))) ((\<lambda>_. 0)(me := length cs)) sv" and "me < fleet sv"
    and "RETIRED \<le> open_count (sv_balance sv) me" and "framed C sv" and "foldl (recount_adopt registers me) (sv, wk) cs = (sv', wk')"
  shows "settled C cap g me sv' wk'"
  using assms
proof (induction cs arbitrary: sv wk)
  case (Cons c cs)
  obtain sv1 wk1 where r: "recount_adopt registers me (sv, wk) c = (sv1, wk1)"
    by (cases "recount_adopt registers me (sv, wk) c")
  have "accounted cap (g(me := length (wk_serving wk))) ((\<lambda>_. 0)(me := Suc (length cs))) sv" using Cons.prems(1) by (simp only: list.size add_Suc_right add_0_right)
  note m = recount_accounted [OF this Cons.prems(2,3) r]
  have "foldl (recount_adopt registers me) (sv1, wk1) cs = (sv', wk')" using Cons.prems(5) r by simp
  moreover have "framed C sv1" using m Cons.prems(4) by (simp add: framed_def)
  ultimately show ?case using Cons.IH [of wk1 sv1] m Cons.prems(2) by metis
qed (simp add: settled_def framed_def)

lemma recount_inbox:
  "recount_adopt registers me (sv\<lparr>sv_inbox := q\<rparr>, wk) c =
     ((fst (recount_adopt registers me (sv, wk) c))\<lparr>sv_inbox := q\<rparr>, snd (recount_adopt registers me (sv, wk) c))"
  "sv_inbox (fst (recount_adopt registers me (sv, wk) c)) = sv_inbox sv"
  by (simp_all add: recount_adopt_def adopt_conn_def Let_def)

lemma drain_fold:
  assumes "worker_drain registers me sv wk = (sv', wk')"
  shows "foldl (recount_adopt registers me)
      (sv\<lparr>sv_balance := retire (sv_balance sv) me, sv_closed := (sv_closed sv)[me := True], sv_inbox := (sv_inbox sv)[me := []]\<rparr>,
       wk\<lparr>wk_pending := None\<rparr>) ((case wk_pending wk of None \<Rightarrow> [] | Some c \<Rightarrow> [c]) @ sv_inbox sv ! me) = (sv', wk')"
  using assms recount_inbox(1) [where q = "(sv_inbox sv)[me := []]"] recount_inbox(2)
  by (cases wk; cases "wk_pending wk") (auto simp: worker_drain_def Let_def split: prod.splits)

lemma drain_settled:
  assumes "worker_drain registers me sv wk = (sv', wk')" and "settled C cap g me sv wk" and "\<not> sv_closed sv ! me"
  shows "settled (C[me := True]) cap g me sv' wk'"
proof -
  define cs where "cs = (case wk_pending wk of None \<Rightarrow> [] | Some c \<Rightarrow> [c]) @ sv_inbox sv ! me"
  let ?b = "retire (sv_balance sv) me"
  let ?sv = "sv\<lparr>sv_balance := ?b, sv_closed := (sv_closed sv)[me := True], sv_inbox := (sv_inbox sv)[me := []]\<rparr>"
  have ok: "me < fleet sv" "accounted cap (g(me := length (wk_serving wk))) (\<lambda>_. 0) sv" using assms(2) by (simp_all add: settled_def framed_def)
  then have l: "me < length (sv_closed sv)" "me < length (sv_inbox sv)" by (simp_all add: accounted_def server_ok_def)
  have "accounted cap (g(me := length (wk_serving (wk\<lparr>wk_pending := None\<rparr>)))) ((\<lambda>_. 0)(me := length cs)) ?sv"
  proof (rule accounted_change [OF ok(2), where t = me and R = True and H = "wk_pending wk = None"])
    show "slots_ok cap (slot_at ?sv (g(me := length (wk_serving (wk\<lparr>wk_pending := None\<rparr>)))) ((\<lambda>_. 0)(me := length cs)) me
          (r \<or> True) (h \<and> wk_pending wk = None))
      \<and> (r \<or> True \<longrightarrow> sv_closed ?sv ! me) \<and> (\<not> sv_closed ?sv ! me \<longrightarrow> h \<and> wk_pending wk = None)"
      if "slots_ok cap (slot_at sv (g(me := length (wk_serving wk))) (\<lambda>_. 0) me r h)" "\<not> sv_closed sv ! me \<longrightarrow> h"
        "r \<longrightarrow> sv_closed sv ! me" for r h
      using that assms(3) l ok(1)
      by (auto simp: slot_at_def slots_ok_def connections_def Let_def cs_def retire_def open_count_set split: option.splits if_splits)
  qed (use ok l in \<open>simp_all add: account_defs\<close>)
  moreover have "RETIRED \<le> open_count (sv_balance ?sv) me" "me < fleet ?sv" "framed (C[me := True]) ?sv"
    using ok(1) l assms(2) by (auto simp: retire_def open_count_set settled_def framed_def nth_list_update)
  moreover have "foldl (recount_adopt registers me) (?sv, wk\<lparr>wk_pending := None\<rparr>) cs = (sv', wk')"
    unfolding cs_def by (rule drain_fold [OF assms(1)])
  ultimately show ?thesis by (intro recount_fold)
qed

lemma ends_settled:
  assumes "settled C cap g me sv wk" and "c \<in> set (wk_serving wk)" and "conn_ends me c (sv, wk) = (sv', wk')"
  shows "settled C cap g me sv' wk'"
proof -
  let ?sv = "sv\<lparr>sv_balance := release (sv_balance sv) me\<rparr>"
  have st: "framed C sv" "me < length C" "accounted cap (g(me := length (wk_serving wk))) (\<lambda>_. 0) sv"
    using assms(1) by (simp_all add: settled_def)
  then have fl: "me < fleet sv" by (simp add: framed_fleet)
  obtain m where m: "length (wk_serving wk) = Suc m" using assms(2) by (cases "wk_serving wk") auto
  have e: "sv' = ?sv" "length (wk_serving wk') = m" using assms(2,3) m by (auto simp: conn_ends_def length_remove1)
  have "accounted cap (g(me := m)) (\<lambda>_. 0) ?sv"
  proof (rule accounted_change [OF st(3), where t = me and R = False and H = True])
    fix r h assume k: "slots_ok cap (slot_at sv (g(me := length (wk_serving wk))) (\<lambda>_. 0) me r h)" "2 * cap + 2 \<le> RETIRED"
      "r \<longrightarrow> sv_closed sv ! me" "\<not> sv_closed sv ! me \<longrightarrow> h"
    then show "slots_ok cap (slot_at ?sv (g(me := m)) (\<lambda>_. 0) me (r \<or> False) (h \<and> True))
      \<and> (r \<or> False \<longrightarrow> sv_closed ?sv ! me) \<and> (\<not> sv_closed ?sv ! me \<longrightarrow> h \<and> True)"
      using slots_ok_release(3) [OF k(1,2), of m] m fl by (simp add: slot_at_def account_defs)
  qed (use st fl in \<open>simp_all add: account_defs\<close>)
  moreover have "framed C ?sv" using st(1) by (simp add: framed_def release_def)
  ultimately show ?thesis using st(2) by (simp add: settled_def e)
qed

section \<open>Conservation\<close>

text \<open>The connections a worker has, and those of the whole fleet.\<close>

definition held_by :: "worker \<Rightarrow> handoff multiset" where
  "held_by wk = mset (wk_serving wk) + option_mset (wk_pending wk)"

definition fleet_conns :: "fleet_state \<Rightarrow> handoff multiset" where
  "fleet_conns f = mset (concat (sv_inbox (ft_server f))) + sum_list (map held_by (ft_workers f))"

lemma conns_held: "conns sv wk = mset (concat (sv_inbox sv)) + held_by wk"
  by (simp add: conns_def moving_def held_by_def)

lemma sum_list_update_split:
  fixes h :: "'a \<Rightarrow> 'b multiset"
  assumes "me < length xs"
  shows "\<exists>R. sum_list (map h xs) = R + h (xs ! me) \<and> (\<forall>y. sum_list (map h (xs[me := y])) = R + h y)"
proof -
  let ?R = "sum_list (map h (take me xs)) + sum_list (map h (drop (Suc me) xs))"
  have "sum_list (map h (xs[me := y])) = ?R + h y" for y
    using assms by (simp add: upd_conv_take_nth_drop ac_simps)
  from this this [of "xs ! me"] show ?thesis by (intro exI [of _ ?R]) simp
qed

lemma fleet_conns_update:
  assumes "me < length (ft_workers f)" and "conns sv' wk' + lost = conns (ft_server f) (ft_workers f ! me) + br"
    and "ft_server f' = sv'" and "ft_workers f' = (ft_workers f)[me := wk']"
  shows "fleet_conns f' + lost = fleet_conns f + br"
proof -
  from sum_list_update_split [OF assms(1), of held_by] obtain R where
    R: "sum_list (map held_by (ft_workers f)) = R + held_by (ft_workers f ! me)"
    "sum_list (map held_by ((ft_workers f)[me := wk'])) = R + held_by wk'" by blast
  have "fleet_conns f' + lost = R + (conns sv' wk' + lost)"
    unfolding fleet_conns_def assms(3,4) R(2) conns_held by (simp add: ac_simps)
  also have "\<dots> = R + (conns (ft_server f) (ft_workers f ! me) + br)" by (simp only: assms(2))
  also have "\<dots> = fleet_conns f + br"
    unfolding fleet_conns_def R(1) conns_held by (simp add: ac_simps)
  finally show ?thesis .
qed

lemma turn_conns:
  assumes "worker_turn cfg registers detaches me shutdown ev sv wk = Some (tn, sv', wk')" and "server_ok sv" and "me < fleet sv"
    and "\<not> shutdown" and "place_pending registers me sv wk = Some (sv1, wk1)"
  shows "\<exists>lost. conns sv' wk' + lost = conns sv wk + brought cfg me ev sv1 wk1
    \<and> (\<forall>c \<in># lost. \<not> registers c \<or> \<not> detaches c) \<and> (tn = Stop \<longrightarrow> brought cfg me ev sv1 wk1 = {#})"
proof -
  from place_pending_keeps [OF assms(2,3), of registers wk] assms(5) obtain lost1 where
    x: "server_ok sv1" "fleet sv1 = fleet sv" "conns sv1 wk1 + lost1 = conns sv wk" "\<forall>c \<in># lost1. \<not> registers c" by auto
  have "me < fleet sv1" using x(2) assms(3) by simp
  from worker_event_keeps [OF x(1) this, of cfg registers detaches ev wk1] assms(1,4,5) obtain lost2 where
    e: "conns sv' wk' + lost2 = conns sv1 wk1 + brought cfg me ev sv1 wk1" "\<forall>c \<in># lost2. \<not> registers c \<or> \<not> detaches c"
    "tn = Stop \<longleftrightarrow> (\<exists>v. ev = Changed v \<and> v \<noteq> Some False)" by (auto simp: worker_turn_def)
  have "conns sv' wk' + (lost2 + lost1) = conns sv wk + brought cfg me ev sv1 wk1"
    using e(1) x(3) by (metis add.assoc add.commute)
  with e x(4) show ?thesis by (intro exI [of _ "lost2 + lost1"]) (auto simp: brought_def)
qed

lemma recount_fold_conns:
  "foldl (recount_adopt registers me) (sv, wk) cs = (sv', wk') \<Longrightarrow>
    sv_inbox sv' = sv_inbox sv \<and> wk_pending wk' = wk_pending wk
    \<and> mset (wk_serving wk') + mset (filter (\<lambda>c. \<not> registers c) cs) = mset (wk_serving wk) + mset cs"
proof (induction cs arbitrary: sv wk)
  case (Cons c cs)
  obtain sv1 wk1 where r: "recount_adopt registers me (sv, wk) c = (sv1, wk1)"
    by (cases "recount_adopt registers me (sv, wk) c")
  then have "sv_inbox sv1 = sv_inbox sv" "wk_pending wk1 = wk_pending wk"
    "wk_serving wk1 = wk_serving wk @ (if registers c then [c] else [])"
    by (auto simp: recount_adopt_def adopt_conn_def serve_conn_def Let_def split: if_splits)
  with Cons.IH [of sv1 wk1] Cons.prems r show ?case by (auto simp: ac_simps)
qed simp

lemma drain_conns:
  assumes "worker_drain registers me sv wk = (sv', wk')" and "me < length (sv_inbox sv)"
  shows "(\<exists>lost. conns sv' wk' + lost = conns sv wk \<and> (\<forall>c \<in># lost. \<not> registers c)) \<and> wk_pending wk' = None"
proof -
  let ?cs = "(case wk_pending wk of None \<Rightarrow> [] | Some c \<Rightarrow> [c]) @ sv_inbox sv ! me"
  from recount_fold_conns [OF drain_fold [OF assms(1)]]
  have e: "sv_inbox sv' = (sv_inbox sv)[me := []]" "wk_pending wk' = None"
    "mset (wk_serving wk') + mset (filter (\<lambda>c. \<not> registers c) ?cs) = mset (wk_serving wk) + mset ?cs" by simp_all
  have q: "mset (concat (sv_inbox sv)) = mset (concat ((sv_inbox sv)[me := []])) + mset (sv_inbox sv ! me)"
    using mset_concat_update [OF assms(2), of "[]"] by simp
  have "conns sv' wk' + mset (filter (\<lambda>c. \<not> registers c) ?cs) = conns sv wk"
    using e(3) unfolding conns_held held_by_def e(1,2) q by (cases "wk_pending wk") (simp_all add: option_mset_def ac_simps)
  moreover have "\<forall>c \<in># mset (filter (\<lambda>c. \<not> registers c) ?cs). \<not> registers c" by auto
  ultimately show ?thesis using e(2) by blast
qed

section \<open>The invariant\<close>

text \<open>\<open>served f w\<close> is the number of tasks of worker \<open>w\<close>; \<open>unmovable\<close> the sockets the system refused to move.\<close>

definition served :: "fleet_state \<Rightarrow> nat \<Rightarrow> nat" where
  "served f w = length (wk_serving (ft_workers f ! w))"

definition unmovable :: "(handoff \<Rightarrow> bool) \<Rightarrow> (handoff \<Rightarrow> bool) \<Rightarrow> handoff \<Rightarrow> bool" where
  "unmovable registers detaches c \<longleftrightarrow> \<not> registers c \<or> \<not> detaches c"

definition conserved :: "(handoff \<Rightarrow> bool) \<Rightarrow> (handoff \<Rightarrow> bool) \<Rightarrow> fleet_state \<Rightarrow> bool" where
  "conserved registers detaches f \<longleftrightarrow>
     (\<exists>lost. ft_accepted f = fleet_conns f + ft_ended f + lost \<and> (\<forall>c \<in># lost. unmovable registers detaches c))"

definition fleet_inv :: "nat \<Rightarrow> (handoff \<Rightarrow> bool) \<Rightarrow> (handoff \<Rightarrow> bool) \<Rightarrow> fleet_state \<Rightarrow> bool" where
  "fleet_inv cap registers detaches f \<longleftrightarrow>
     length (ft_workers f) = fleet (ft_server f)
     \<and> framed (sv_closed (ft_server f)) (ft_server f)
     \<and> accounted cap (served f) (\<lambda>_. 0) (ft_server f)
     \<and> (\<forall>w < fleet (ft_server f). sv_closed (ft_server f) ! w \<longrightarrow> wk_pending (ft_workers f ! w) = None)
     \<and> conserved registers detaches f"

text \<open>One worker's view of the invariant, and back.\<close>

lemma accounted_cong:
  assumes "\<And>w. w < fleet sv \<Longrightarrow> g' w = g w"
  shows "accounted cap g' tk sv = accounted cap g tk sv"
  using assms by (auto simp: accounted_def accounted_at_def slot_at_def)

lemma fleet_inv_settled:
  assumes "fleet_inv cap registers detaches f" and "me < fleet (ft_server f)"
  shows "settled (sv_closed (ft_server f)) cap (served f) me (ft_server f) (ft_workers f ! me)"
proof -
  have "(served f)(me := length (wk_serving (ft_workers f ! me))) = served f" by (auto simp: served_def)
  with assms framed_fleet show ?thesis by (fastforce simp: fleet_inv_def settled_def)
qed

lemma settled_fleet_inv:
  assumes "fleet_inv cap registers detaches f" and "me < fleet (ft_server f)"
    and "settled C cap (served f) me sv' wk'" and "length C = fleet (ft_server f)"
    and "\<And>w. w < length C \<Longrightarrow> w \<noteq> me \<Longrightarrow> C ! w = sv_closed (ft_server f) ! w"
    and "C ! me \<Longrightarrow> wk_pending wk' = None"
    and "ft_server f' = sv'" and "ft_workers f' = (ft_workers f)[me := wk']" and "conserved registers detaches f'"
  shows "fleet_inv cap registers detaches f'"
proof -
  have st: "framed C sv'" "accounted cap ((served f)(me := length (wk_serving wk'))) (\<lambda>_. 0) sv'"
    using assms(3) by (simp_all add: settled_def)
  have fl: "fleet sv' = length C" "sv_closed sv' = C" using st(1) by (simp_all add: framed_def)
  have lw: "length (ft_workers f) = fleet (ft_server f)" using assms(1) by (simp add: fleet_inv_def)
  have "accounted cap (served f') (\<lambda>_. 0) sv'"
    using st(2) by (rule accounted_cong [THEN iffD1, rotated]) (use lw assms(2,4,8) fl in \<open>simp add: served_def nth_list_update\<close>)
  moreover have "wk_pending (ft_workers f' ! w) = None" if "w < length C" "C ! w" for w
    using that assms(1,4,5,6,8) lw by (cases "w = me") (simp_all add: fleet_inv_def)
  ultimately show ?thesis
    using lw fl st(1) assms(4,7,8,9) by (simp add: fleet_inv_def)
qed

lemma conserved_step:
  assumes "conserved registers detaches f" and "fleet_conns f' + lost + out = fleet_conns f + br"
    and "\<forall>c \<in># lost. unmovable registers detaches c"
    and "ft_accepted f' = ft_accepted f + br" and "ft_ended f' = ft_ended f + out"
  shows "conserved registers detaches f'"
proof -
  from assms(1) obtain l where l: "ft_accepted f = fleet_conns f + ft_ended f + l" "\<forall>c \<in># l. unmovable registers detaches c"
    unfolding conserved_def by blast
  have "ft_accepted f' = (fleet_conns f + br) + ft_ended f + l" unfolding assms(4) l(1) by (simp add: ac_simps)
  also have "\<dots> = (fleet_conns f' + lost + out) + ft_ended f + l" by (simp only: assms(2))
  also have "\<dots> = fleet_conns f' + ft_ended f' + (lost + l)" unfolding assms(5) by (simp add: ac_simps)
  finally show ?thesis using l(2) assms(3) unfolding conserved_def by (intro exI [of _ "lost + l"]) auto
qed

lemma fleet_inv_turn:
  assumes inv: "fleet_inv cap registers detaches f" and me: "me < fleet (ft_server f)" "\<not> sv_closed (ft_server f) ! me"
    and t: "worker_turn cfg registers detaches me (ft_shutdown f) ev (ft_server f) (ft_workers f ! me) = Some (tn, sv', wk')"
    and "tn \<noteq> Stop" and pp: "place_pending registers me (ft_server f) (ft_workers f ! me) = Some (sv1, wk1)"
  shows "fleet_inv cap registers detaches (f\<lparr>ft_server := sv', ft_workers := (ft_workers f)[me := wk'],
    ft_accepted := ft_accepted f + brought cfg me ev sv1 wk1\<rparr>)" (is "fleet_inv _ _ _ ?f'")
proof -
  note st = fleet_inv_settled [OF inv me(1)]
  have ok: "server_ok (ft_server f)" "length (ft_workers f) = fleet (ft_server f)" "conserved registers detaches f"
    using inv by (simp_all add: fleet_inv_def accounted_def)
  have "\<not> ft_shutdown f" using t assms(5) by (auto simp: worker_turn_def)
  from turn_conns [OF t ok(1) me(1) this pp] obtain lost where
    l: "conns sv' wk' + lost = conns (ft_server f) (ft_workers f ! me) + brought cfg me ev sv1 wk1"
    "\<forall>c \<in># lost. unmovable registers detaches c" unfolding unmovable_def by blast
  have "fleet_conns ?f' + lost = fleet_conns f + brought cfg me ev sv1 wk1"
    by (rule fleet_conns_update [OF _ l(1)]) (use me(1) ok(2) in simp_all)
  then have "conserved registers detaches ?f'"
    by (intro conserved_step [OF ok(3) _ l(2), of ?f' "{#}" "brought cfg me ev sv1 wk1"]) simp_all
  from settled_fleet_inv [OF inv me(1) worker_turn_settled [OF t st] _ _ _ _ _ this] me ok(1)
  show ?thesis by (simp add: server_ok_def)
qed

lemma fleet_inv_leave:
  assumes inv: "fleet_inv cap registers detaches f" and me: "me < fleet (ft_server f)" "\<not> sv_closed (ft_server f) ! me"
    and t: "worker_turn cfg registers detaches me (ft_shutdown f) ev (ft_server f) (ft_workers f ! me) = Some (Stop, sv1, wk1)"
    and d: "worker_drain registers me sv1 wk1 = (sv', wk')"
  shows "fleet_inv cap registers detaches (f\<lparr>ft_server := sv', ft_workers := (ft_workers f)[me := wk']\<rparr>)"
    (is "fleet_inv _ _ _ ?f'")
proof -
  let ?C = "sv_closed (ft_server f)"
  have ok: "server_ok (ft_server f)" "length (ft_workers f) = fleet (ft_server f)" "conserved registers detaches f"
    using inv by (simp_all add: fleet_inv_def accounted_def)
  note st = worker_turn_settled [OF t fleet_inv_settled [OF inv me(1)]]
  have s1: "sv_closed sv1 = ?C" "server_ok sv1" "fleet sv1 = length ?C"
    using st by (simp_all add: settled_def framed_def accounted_def)
  have "\<exists>lost. conns sv1 wk1 + lost = conns (ft_server f) (ft_workers f ! me) \<and> (\<forall>c \<in># lost. unmovable registers detaches c)"
  proof (cases "ft_shutdown f")
    case True
    with t show ?thesis by (intro exI [of _ "{#}"]) (simp add: worker_turn_def)
  next
    case False
    from place_pending_keeps [OF ok(1) me(1)] obtain sv2 wk2 where
      "place_pending registers me (ft_server f) (ft_workers f ! me) = Some (sv2, wk2)" by blast
    from turn_conns [OF t ok(1) me(1) False this] show ?thesis unfolding unmovable_def by auto
  qed
  then obtain lost1 where l1: "conns sv1 wk1 + lost1 = conns (ft_server f) (ft_workers f ! me)"
    "\<forall>c \<in># lost1. unmovable registers detaches c" by blast
  have "me < length (sv_inbox sv1)" using s1 me(1) ok(1) by (simp add: server_ok_def)
  from drain_conns [OF d this] obtain lost2 where l2: "conns sv' wk' + lost2 = conns sv1 wk1"
    "\<forall>c \<in># lost2. \<not> registers c" "wk_pending wk' = None" by blast
  have l: "\<forall>c \<in># lost2 + lost1. unmovable registers detaches c" using l1(2) l2(2) by (auto simp: unmovable_def)
  have "conns sv' wk' + (lost2 + lost1) = conns (ft_server f) (ft_workers f ! me) + {#}"
    unfolding l1(1) [symmetric] l2(1) [symmetric] by (simp add: ac_simps)
  then have "fleet_conns ?f' + (lost2 + lost1) = fleet_conns f + {#}"
    by (rule fleet_conns_update [rotated]) (use me(1) ok(2) in simp_all)
  then have cv: "conserved registers detaches ?f'"
    by (intro conserved_step [OF ok(3) _ l, of ?f' "{#}" "{#}"]) simp_all
  have "\<not> sv_closed sv1 ! me" using s1(1) me(2) by simp
  from settled_fleet_inv [OF inv me(1) drain_settled [OF d st this] _ _ l2(3) _ _ cv] ok(1)
  show ?thesis by (simp add: server_ok_def)
qed

lemma fleet_inv_ends:
  assumes inv: "fleet_inv cap registers detaches f" and me: "me < fleet (ft_server f)"
    and c: "c \<in> set (wk_serving (ft_workers f ! me))" and e: "conn_ends me c (ft_server f, ft_workers f ! me) = (sv', wk')"
  shows "fleet_inv cap registers detaches
    (f\<lparr>ft_server := sv', ft_workers := (ft_workers f)[me := wk'], ft_ended := add_mset c (ft_ended f)\<rparr>)"
    (is "fleet_inv _ _ _ ?f'")
proof -
  have ok: "server_ok (ft_server f)" "length (ft_workers f) = fleet (ft_server f)" "conserved registers detaches f"
    using inv by (simp_all add: fleet_inv_def accounted_def)
  have "conns sv' wk' + {#c#} = conns (ft_server f) (ft_workers f ! me) + {#}"
    using e c by (auto simp: conn_ends_def conns_held held_by_def)
  then have "fleet_conns ?f' + {#c#} = fleet_conns f + {#}"
    by (rule fleet_conns_update [rotated]) (use me ok(2) in simp_all)
  then have cv: "conserved registers detaches ?f'"
    by (intro conserved_step [OF ok(3), of ?f' "{#}" "{#c#}" "{#}"]) simp_all
  have "wk_pending wk' = None" if "sv_closed (ft_server f) ! me"
    using inv me e that by (auto simp: fleet_inv_def conn_ends_def)
  from settled_fleet_inv [OF inv me ends_settled [OF fleet_inv_settled [OF inv me] c e] _ _ this _ _ cv] ok(1)
  show ?thesis by (simp add: server_ok_def)
qed

lemma fleet_inv_step: "fleet_step cfg registers detaches f f' \<Longrightarrow> fleet_inv cap registers detaches f \<Longrightarrow> fleet_inv cap registers detaches f'"
proof (induction rule: fleet_step.induct)
  case (turn f sv me wk ev tn sv' wk' sv1 wk1)
  then show ?case using fleet_inv_turn by blast
next
  case (leave f sv me wk ev sv1 wk1 sv' wk')
  then show ?case using fleet_inv_leave by blast
next
  case (ends f sv me wk c sv' wk')
  then show ?case using fleet_inv_ends by blast
next
  case (shutdown f)
  have "served (f\<lparr>ft_shutdown := True\<rparr>) = served f" by (simp add: served_def fun_eq_iff)
  moreover have "fleet_conns (f\<lparr>ft_shutdown := True\<rparr>) = fleet_conns f" by (simp add: fleet_conns_def)
  ultimately show ?case using shutdown by (simp add: fleet_inv_def conserved_def)
qed

text \<open>A worker without a listener is retired, the others start with no connection.\<close>

lemma spawn_workers_counts:
  assumes "spawn_workers w ws b = (r, b')" and "w + length ws \<le> workers b"
  shows "workers b' = workers b \<and> b_cap b' = b_cap b
    \<and> (\<forall>i. open_count b' i = open_count b i
        \<or> open_count b' i = RETIRED \<and> w \<le> i \<and> i < w + length ws \<and> ws ! (i - w) = NoListener)"
  using assms
proof (induction w ws b arbitrary: r b' rule: spawn_workers.induct)
  case (2 w ws b)
  have b: "open_count (retire b w) i = (if i = w then RETIRED else open_count b i)" for i
    using 2(3) by (auto simp: retire_def open_count_set)
  have rt: "workers (retire b w) = workers b" "b_cap (retire b w) = b_cap b" by (simp_all add: retire_def)
  have "spawn_workers (Suc w) ws (retire b w) = (r, b')" "Suc w + length ws \<le> workers (retire b w)"
    using 2(2,3) rt by simp_all
  note IH = 2(1) [OF this]
  have "open_count b' i = open_count b i
      \<or> open_count b' i = RETIRED \<and> w \<le> i \<and> i < w + length (NoListener # ws) \<and> (NoListener # ws) ! (i - w) = NoListener" for i
  proof -
    have "open_count b' i = open_count (retire b w) i
      \<or> open_count b' i = RETIRED \<and> Suc w \<le> i \<and> i < Suc w + length ws \<and> ws ! (i - Suc w) = NoListener" using IH by blast
    then show ?thesis unfolding b by (cases "i = w") (auto simp: nth_Cons' split: if_splits)
  qed
  with IH rt show ?case by simp
next
  case (4 w started panics ws b)
  obtain r1 b1 where s: "spawn_workers (Suc w) ws b = (r1, b1)" by (cases "spawn_workers (Suc w) ws b")
  with 4(2) have e: "b' = b1" by (auto split: sum.splits)
  have "Suc w + length ws \<le> workers b" using 4(3) by simp
  note IH = 4(1) [OF s this]
  have "open_count b' i = open_count b i \<or> open_count b' i = RETIRED \<and> w \<le> i \<and> i < w + length (Spawned started panics # ws)
      \<and> (Spawned started panics # ws) ! (i - w) = NoListener" for i
  proof -
    have "open_count b1 i = open_count b i
      \<or> open_count b1 i = RETIRED \<and> Suc w \<le> i \<and> i < Suc w + length ws \<and> ws ! (i - Suc w) = NoListener" using IH by blast
    then show ?thesis unfolding e by (auto simp: nth_Cons' split: if_splits)
  qed
  with IH e show ?case by simp
qed auto

lemma fleet_inv_new:
  assumes "cap = max (max_connections (sc_limits cfg)) 1" and "2 * cap + 2 \<le> RETIRED" and "length ws < 2 ^ 64"
  shows "fleet_inv cap registers detaches (fleet_new cfg ws sd)"
proof -
  let ?f = "fleet_new cfg ws sd" and ?b = "balance_new (length ws) (max_connections (sc_limits cfg))"
  obtain r b where s: "spawn_workers 0 ws ?b = (r, b)" by (cases "spawn_workers 0 ws ?b")
  have b0: "workers ?b = length ws" "b_cap ?b = cap" "\<And>i. i < length ws \<Longrightarrow> open_count ?b i = 0"
    using assms(1) by (simp_all add: balance_new_def open_count_def)
  from spawn_workers_counts [OF s] b0
  have b: "workers b = length ws" "b_cap b = cap"
    "\<And>i. i < length ws \<Longrightarrow> open_count b i = 0 \<or> open_count b i = RETIRED \<and> ws ! i = NoListener" by force+
  have f: "ft_server ?f = \<lparr>sv_balance = b, sv_inbox = replicate (length ws) [],
      sv_closed = map (\<lambda>w. \<not> (case w of Spawned started _ \<Rightarrow> started | _ \<Rightarrow> False)) ws\<rparr>"
    using s by (simp add: fleet_new_def)
  have w: "ft_workers ?f = map worker_new [0..<length ws]" by (simp add: fleet_new_def)
  have sv: "served ?f w = 0" if "w < length ws" for w using that by (simp add: served_def fleet_new_def worker_new_def)
  have "accounted_at cap (served ?f) (\<lambda>_. 0) (ft_server ?f) w" if "w < length ws" for w
  proof -
    have sl: "slot_at (ft_server ?f) (served ?f) (\<lambda>_. 0) w rt h = \<lparr>k_open = open_count b w, k_taken = 0, k_queued = 0,
        k_serving = 0, k_retired = rt, k_held = h\<rparr>" for rt h
      using that by (simp add: slot_at_def f sv)
    from b(3) [OF that] show ?thesis
    proof
      assume "open_count b w = 0"
      then show ?thesis unfolding accounted_at_def sl
        by (intro exI [of _ False] exI [of _ True]) (simp add: slots_ok_def connections_def)
    next
      assume "open_count b w = RETIRED \<and> ws ! w = NoListener"
      then show ?thesis using that unfolding accounted_at_def sl
        by (intro exI [of _ True] exI [of _ True]) (simp add: slots_ok_def connections_def f)
    qed
  qed
  then have "accounted cap (served ?f) (\<lambda>_. 0) (ft_server ?f)"
    using b(1,2) assms(2,3) by (simp add: accounted_def server_ok_def f)
  moreover have "fleet_conns ?f = {#}"
    by (simp add: fleet_conns_def f w held_by_def worker_new_def option_mset_def comp_def)
  ultimately show ?thesis using b(1)
    by (simp add: fleet_inv_def framed_def conserved_def f w worker_new_def) (simp add: fleet_new_def)
qed

text \<open>What the invariant says of one worker.\<close>

lemma accounted_open:
  assumes "accounted cap g (\<lambda>_. 0) sv" and "w < fleet sv" and "\<not> sv_closed sv ! w"
  shows "open_count (sv_balance sv) w = length (sv_inbox sv ! w) + g w \<and> open_count (sv_balance sv) w \<le> cap"
  using assms by (auto simp: accounted_def accounted_at_def slot_at_def slots_ok_def connections_def)

lemma accounted_bound:
  assumes "accounted cap g (\<lambda>_. 0) sv" and "w < fleet sv"
  shows "length (sv_inbox sv ! w) + g w \<le> cap + 1"
  using assms by (auto simp: accounted_def accounted_at_def slot_at_def slots_ok_def connections_def Let_def split: if_splits)

lemma fleet_inv_reachable:
  assumes "(fleet_step cfg registers detaches)\<^sup>*\<^sup>* f f'" and "fleet_inv cap registers detaches f"
  shows "fleet_inv cap registers detaches f'"
  using assms by (induction rule: rtranclp_induct) (auto intro: fleet_inv_step)

section \<open>Shutdown\<close>

text \<open>What is left to happen once shutdown is signalled: workers to leave their loop, connections to end.\<close>

definition fleet_left :: "fleet_state \<Rightarrow> nat" where
  "fleet_left f = length (filter Not (sv_closed (ft_server f))) + size (fleet_conns f)"

lemma closed_update:
  assumes "me < length C" and "\<not> C ! me"
  shows "length (filter Not C) = Suc (length (filter Not (C[me := True])))"
proof -
  have "C = take me C @ C ! me # drop (Suc me) C" using assms(1) by (rule id_take_nth_drop)
  then have "filter Not C = filter Not (take me C) @ filter Not (C ! me # drop (Suc me) C)" by (metis filter_append)
  moreover have "filter Not (C[me := True]) = filter Not (take me C) @ filter Not (drop (Suc me) C)"
    using assms by (simp add: upd_conv_take_nth_drop)
  ultimately show ?thesis using assms(2) by simp
qed

lemma sum_list_held: "sum_list (map h xs) \<noteq> ({#} :: 'b multiset) \<Longrightarrow> \<exists>x \<in> set xs. h x \<noteq> {#}"
  by (induction xs) auto

lemma leave_left:
  assumes inv: "fleet_inv cap registers detaches f" and me: "me < fleet (ft_server f)" "\<not> sv_closed (ft_server f) ! me"
    and sd: "ft_shutdown f" and d: "worker_drain registers me (ft_server f) (ft_workers f ! me) = (sv', wk')"
  shows "fleet_left (f\<lparr>ft_server := sv', ft_workers := (ft_workers f)[me := wk']\<rparr>) < fleet_left f"
    (is "fleet_left ?f' < _")
proof -
  have ok: "server_ok (ft_server f)" "length (ft_workers f) = fleet (ft_server f)" "conserved registers detaches f"
    using inv by (simp_all add: fleet_inv_def accounted_def)
  then have l: "me < length (sv_inbox (ft_server f))" "me < length (sv_closed (ft_server f))" using me(1) by (simp_all add: server_ok_def)
  from drain_conns [OF d l(1)] obtain lost where
    "conns sv' wk' + lost = conns (ft_server f) (ft_workers f ! me) + {#}" by auto
  then have "fleet_conns ?f' + lost = fleet_conns f + {#}"
    by (rule fleet_conns_update [rotated]) (use me(1) ok(2) in simp_all)
  then have "size (fleet_conns ?f') \<le> size (fleet_conns f)" by (metis add.right_neutral le_add1 size_union)
  moreover have "sv_closed sv' = (sv_closed (ft_server f))[me := True]"
    using drain_settled [OF d fleet_inv_settled [OF inv me(1)] me(2)] by (simp add: settled_def framed_def)
  ultimately show ?thesis using closed_update [OF l(2) me(2)] by (simp add: fleet_left_def)
qed

lemma ends_left:
  assumes inv: "fleet_inv cap registers detaches f" and me: "me < fleet (ft_server f)"
    and c: "c \<in> set (wk_serving (ft_workers f ! me))" and e: "conn_ends me c (ft_server f, ft_workers f ! me) = (sv', wk')"
  shows "fleet_left (f\<lparr>ft_server := sv', ft_workers := (ft_workers f)[me := wk'], ft_ended := add_mset c (ft_ended f)\<rparr>) < fleet_left f"
    (is "fleet_left ?f' < _")
proof -
  have lw: "length (ft_workers f) = fleet (ft_server f)" using inv by (simp add: fleet_inv_def)
  have "conns sv' wk' + {#c#} = conns (ft_server f) (ft_workers f ! me) + {#}"
    using e c by (auto simp: conn_ends_def conns_held held_by_def)
  then have "fleet_conns ?f' + {#c#} = fleet_conns f + {#}"
    by (rule fleet_conns_update [rotated]) (use me lw in simp_all)
  then have "size (fleet_conns f) = Suc (size (fleet_conns ?f'))" by (metis add.right_neutral size_add_mset add_mset_add_single)
  moreover have "sv_closed sv' = sv_closed (ft_server f)" using e by (auto simp: conn_ends_def)
  ultimately show ?thesis by (simp add: fleet_left_def)
qed

lemma shutdown_step_left:
  assumes "fleet_step cfg registers detaches f f'" and "fleet_inv cap registers detaches f" and "ft_shutdown f" and "f' \<noteq> f"
  shows "ft_shutdown f' \<and> fleet_left f' < fleet_left f"
  using assms
proof (induction rule: fleet_step.induct)
  case (turn f sv me wk ev tn sv' wk' sv1 wk1)
  then show ?case by (auto simp: worker_turn_def)
next
  case (leave f sv me wk ev sv1 wk1 sv' wk')
  then have "sv1 = ft_server f" "wk1 = ft_workers f ! me" by (auto simp: worker_turn_def)
  with leave leave_left [of cap registers detaches f me sv' wk'] show ?case by simp
next
  case (ends f sv me wk c sv' wk')
  with ends_left [of cap registers detaches f me c sv' wk'] show ?case by simp
qed simp

lemma shutdown_accepts:
  "fleet_step cfg registers detaches f f' \<Longrightarrow> ft_shutdown f \<Longrightarrow> ft_accepted f' = ft_accepted f"
  by (induction rule: fleet_step.induct) (auto simp: worker_turn_def)

lemma shutdown_left_step:
  assumes inv: "fleet_inv cap registers detaches f" and sd: "ft_shutdown f" and "fleet_left f \<noteq> 0"
  shows "\<exists>f'. fleet_step cfg registers detaches f f' \<and> f' \<noteq> f"
proof (cases "\<exists>me < fleet (ft_server f). \<not> sv_closed (ft_server f) ! me")
  case True
  then obtain me where me: "me < fleet (ft_server f)" "\<not> sv_closed (ft_server f) ! me" by blast
  obtain sv' wk' where d: "worker_drain registers me (ft_server f) (ft_workers f ! me) = (sv', wk')"
    by (cases "worker_drain registers me (ft_server f) (ft_workers f ! me)")
  let ?f' = "f\<lparr>ft_server := sv', ft_workers := (ft_workers f)[me := wk']\<rparr>"
  have "fleet_step cfg registers detaches f ?f'"
    by (rule fleet_step.leave [OF refl refl me _ d, of _ _ Recheck]) (simp add: worker_turn_def sd)
  moreover have "?f' \<noteq> f" using leave_left [OF inv me sd d] by auto
  ultimately show ?thesis by blast
next
  case False
  let ?sv = "ft_server f"
  have ok: "length (sv_closed ?sv) = fleet ?sv" "length (sv_inbox ?sv) = fleet ?sv" "length (ft_workers f) = fleet ?sv"
    using inv by (simp_all add: fleet_inv_def accounted_def server_ok_def)
  have "filter Not (sv_closed ?sv) = []" using False ok(1) by (auto simp: filter_empty_conv in_set_conv_nth)
  then have "fleet_conns f \<noteq> {#}" using assms(3) by (auto simp: fleet_left_def)
  moreover have "concat (sv_inbox ?sv) = []"
    using inv False ok(1,2) by (auto simp: fleet_inv_def framed_def in_set_conv_nth)
  ultimately have "\<exists>wk \<in> set (ft_workers f). held_by wk \<noteq> {#}" 
    using sum_list_held [of held_by "ft_workers f"] by (simp add: fleet_conns_def)
  then obtain me where me: "me < fleet ?sv" "held_by (ft_workers f ! me) \<noteq> {#}" by (metis in_set_conv_nth ok(3))
  have "wk_pending (ft_workers f ! me) = None" using inv False me(1) by (simp add: fleet_inv_def)
  then obtain c where c: "c \<in> set (wk_serving (ft_workers f ! me))"
    using me(2) by (cases "wk_serving (ft_workers f ! me)") (auto simp: held_by_def option_mset_def)
  obtain sv' wk' where e: "conn_ends me c (?sv, ft_workers f ! me) = (sv', wk')" by (cases "conn_ends me c (?sv, ft_workers f ! me)")
  let ?f' = "f\<lparr>ft_server := sv', ft_workers := (ft_workers f)[me := wk'], ft_ended := add_mset c (ft_ended f)\<rparr>"
  have "fleet_step cfg registers detaches f ?f'" by (rule fleet_step.ends [OF refl refl me(1) c e])
  moreover have "?f' \<noteq> f" using ends_left [OF inv me(1) c e] by auto
  ultimately show ?thesis by blast
qed

section \<open>What the fleet guarantees\<close>

text \<open>C37. The books of the whole server are exact.  From its start, under any order of the workers' turns, ends
  of connections and shutdown, and for a cap (\<^verbatim>\<open>max_connections\<close>, at least one) far enough below
  \<^verbatim>\<open>RETIRED\<close>: the count of a worker in its loop is the number of connections queued for it and of tasks
  it runs, and at most the cap, besides which it may hold one connection it has no room for.  A worker
  that has left has an empty channel and holds no connection, and may run one task more than the cap,
  that of the one it held.  Every connection accepted is queued, held, served or has ended, each once,
  but for those lost because the system refused to detach or to register their sockets.\<close>

theorem fleet_accounts_exactly:
  assumes "(fleet_step cfg registers detaches)\<^sup>*\<^sup>* (fleet_new cfg ws sd) f"
    and "cap = max (max_connections (sc_limits cfg)) 1" and "2 * cap + 2 \<le> RETIRED" and "length ws < 2 ^ 64"
    and "w < fleet (ft_server f)"
  shows "(\<not> sv_closed (ft_server f) ! w \<longrightarrow>
       open_count (sv_balance (ft_server f)) w = length (sv_inbox (ft_server f) ! w) + length (wk_serving (ft_workers f ! w))
       \<and> open_count (sv_balance (ft_server f)) w \<le> cap)
     \<and> (sv_closed (ft_server f) ! w \<longrightarrow> sv_inbox (ft_server f) ! w = [] \<and> wk_pending (ft_workers f ! w) = None)
     \<and> length (sv_inbox (ft_server f) ! w) + length (wk_serving (ft_workers f ! w)) \<le> cap + 1
     \<and> (\<exists>lost. ft_accepted f = fleet_conns f + ft_ended f + lost \<and> (\<forall>c \<in># lost. \<not> registers c \<or> \<not> detaches c))"
proof -
  have inv: "fleet_inv cap registers detaches f" by (rule fleet_inv_reachable [OF assms(1) fleet_inv_new [OF assms(2-4)]])
  then have ac: "accounted cap (served f) (\<lambda>_. 0) (ft_server f)" by (simp add: fleet_inv_def)
  from inv assms(5) have "sv_closed (ft_server f) ! w \<longrightarrow> sv_inbox (ft_server f) ! w = [] \<and> wk_pending (ft_workers f ! w) = None"
    by (auto simp: fleet_inv_def framed_def)
  moreover from inv have "\<exists>lost. ft_accepted f = fleet_conns f + ft_ended f + lost \<and> (\<forall>c \<in># lost. \<not> registers c \<or> \<not> detaches c)"
    by (simp add: fleet_inv_def conserved_def unmovable_def)
  ultimately show ?thesis
    using accounted_open [OF ac assms(5)] accounted_bound [OF ac assms(5)] unfolding served_def by blast
qed

text \<open>A fleet of one worker with a listener and one without, that has accepted a connection.\<close>

definition sample_fleet :: fleet_state where
  "sample_fleet =
     \<lparr>ft_server = \<lparr>sv_balance = \<lparr>b_open = [1, RETIRED], b_freed = [False, False], b_cap = 10000\<rparr>,
        sv_inbox = [[], []], sv_closed = [False, True]\<rparr>,
      ft_workers = [serve_conn 7 (worker_new 0), worker_new 1], ft_shutdown = False,
      ft_accepted = {#7#}, ft_ended = {#}\<rparr>"

lemma sample_fleet_reached:
  "(fleet_step (config_new None 0) (\<lambda>_. True) (\<lambda>_. True))\<^sup>*\<^sup>* (fleet_new (config_new None 0) [Spawned True False, NoListener :: nat spawn] False)
     sample_fleet"
proof -
  let ?cfg = "config_new None 0" and ?f = "fleet_new (config_new None 0) [Spawned True False, NoListener :: nat spawn] False"
  have cap: "max_connections (sc_limits ?cfg) = 10000"
    by (simp add: config_new_def default_limits_def DEFAULT_MAX_CONNECTIONS_PER_WORKER_def)
  have sv: "ft_server ?f = \<lparr>sv_balance = \<lparr>b_open = [0, RETIRED], b_freed = [False, False], b_cap = 10000\<rparr>,
        sv_inbox = [[], []], sv_closed = [False, True]\<rparr>"
    by (simp add: fleet_new_def cap balance_new_def retire_def numeral_2_eq_2)
  have wk: "ft_workers ?f = [worker_new 0, worker_new 1]" by (simp add: fleet_new_def)
  have pp: "place_pending (\<lambda>_. True) 0 (ft_server ?f) (worker_new 0) = Some (ft_server ?f, worker_new 0)"
    by (simp add: place_pending_def worker_new_def)
  have np: "\<not> parked ?cfg 0 (ft_server ?f) (worker_new 0)" unfolding sv parked_def cap by (simp add: worker_new_def open_count_def)
  have pl: "place \<lparr>b_open = [0, RETIRED], b_freed = [False, False], b_cap = 10000\<rparr> 0 rng
      = (Some 0, \<lparr>b_open = [1, RETIRED], b_freed = [False, False], b_cap = 10000\<rparr>, rng)" for rng
    by (simp add: place_def pick_def reserve_def open_count_def HANDOFF_MARGIN_def)
  have "ft_shutdown ?f = False" by (simp add: fleet_new_def)
  then have t: "worker_turn ?cfg (\<lambda>_. True) (\<lambda>_. True) 0 (ft_shutdown ?f) (Accepted (Inr 7)) (ft_server ?f) (worker_new 0) =
      Some (GoOn, ft_server sample_fleet, serve_conn 7 (worker_new 0))"
    using pp np pl by (simp add: worker_turn_def worker_event_def accept_conn_def) (simp add: sv pl sample_fleet_def)
  have "fleet_step ?cfg (\<lambda>_. True) (\<lambda>_. True) ?f (?f\<lparr>ft_server := ft_server sample_fleet,
      ft_workers := (ft_workers ?f)[0 := serve_conn 7 (worker_new 0)],
      ft_accepted := ft_accepted ?f + brought ?cfg 0 (Accepted (Inr 7)) (ft_server ?f) (worker_new 0)\<rparr>)"
    by (rule fleet_step.turn [OF refl _ _ _ t _ pp]) (simp_all add: wk sv)
  moreover have "brought ?cfg 0 (Accepted (Inr 7)) (ft_server ?f) (worker_new 0) = {#7#}" using np by (simp add: brought_def)
  ultimately have "fleet_step ?cfg (\<lambda>_. True) (\<lambda>_. True) ?f sample_fleet"
    by (simp add: wk) (simp add: fleet_new_def sample_fleet_def)
  then show ?thesis by (rule r_into_rtranclp)
qed

theorem fleet_accounts_exactly_witness:
  "open_count (sv_balance (ft_server sample_fleet)) 0 = 1 \<and> \<not> sv_closed (ft_server sample_fleet) ! 0
    \<and> ft_accepted sample_fleet = fleet_conns sample_fleet + ft_ended sample_fleet"
proof -
  have "0 < fleet (ft_server sample_fleet)" "\<not> sv_closed (ft_server sample_fleet) ! 0" by (simp_all add: sample_fleet_def)
  with fleet_accounts_exactly [OF sample_fleet_reached refl, of 0] show ?thesis
    by (auto simp: config_new_def default_limits_def DEFAULT_MAX_CONNECTIONS_PER_WORKER_def RETIRED_def sample_fleet_def serve_conn_def worker_new_def)
qed

text \<open>C38. Shutdown comes to its end and loses nobody: once it is signalled no worker accepts any more, every
  step brings the fleet nearer to the end, as long as a worker is in its loop or a connection is left
  there is such a step, and when none is left every connection ever accepted has had a task that has
  ended, but for the sockets that could not be moved.\<close>

theorem shutdown_drains:
  assumes "(fleet_step cfg registers detaches)\<^sup>*\<^sup>* (fleet_new cfg ws sd) f"
    and "2 * max (max_connections (sc_limits cfg)) 1 + 2 \<le> RETIRED" and "length ws < 2 ^ 64" and "ft_shutdown f"
  shows "(\<forall>f'. fleet_step cfg registers detaches f f' \<and> f' \<noteq> f \<longrightarrow>
       ft_shutdown f' \<and> ft_accepted f' = ft_accepted f \<and> fleet_left f' < fleet_left f)
     \<and> (fleet_left f \<noteq> 0 \<longrightarrow> (\<exists>f'. fleet_step cfg registers detaches f f' \<and> f' \<noteq> f))
     \<and> (fleet_left f = 0 \<longrightarrow>
         (\<exists>lost. ft_accepted f = ft_ended f + lost \<and> (\<forall>c \<in># lost. \<not> registers c \<or> \<not> detaches c)))"
proof -
  have inv: "fleet_inv (max (max_connections (sc_limits cfg)) 1) registers detaches f"
    by (rule fleet_inv_reachable [OF assms(1) fleet_inv_new [OF refl assms(2,3)]])
  have "\<exists>lost. ft_accepted f = ft_ended f + lost \<and> (\<forall>c \<in># lost. \<not> registers c \<or> \<not> detaches c)" if "fleet_left f = 0"
    using inv that by (simp add: fleet_inv_def conserved_def unmovable_def fleet_left_def)
  then show ?thesis
    using shutdown_step_left [OF _ inv assms(4)] shutdown_left_step [OF inv assms(4)] shutdown_accepts [OF _ assms(4)] by blast
qed

theorem shutdown_drains_witness:
  "\<exists>f'. fleet_step (config_new None 0) (\<lambda>_. True) (\<lambda>_. True) (sample_fleet\<lparr>ft_shutdown := True\<rparr>) f'
    \<and> f' \<noteq> sample_fleet\<lparr>ft_shutdown := True\<rparr>"
proof -
  let ?f = "sample_fleet\<lparr>ft_shutdown := True\<rparr>"
  have "(fleet_step (config_new None 0) (\<lambda>_. True) (\<lambda>_. True))\<^sup>*\<^sup>*
      (fleet_new (config_new None 0) [Spawned True False, NoListener :: nat spawn] False) ?f"
    using sample_fleet_reached fleet_step.shutdown by (rule rtranclp.rtrancl_into_rtrancl)
  moreover have "fleet_left ?f \<noteq> 0" by (simp add: fleet_left_def sample_fleet_def)
  moreover have "2 * max (max_connections (sc_limits (config_new None 0))) 1 + 2 \<le> RETIRED"
    by (simp add: config_new_def default_limits_def DEFAULT_MAX_CONNECTIONS_PER_WORKER_def RETIRED_def)
  ultimately show ?thesis using shutdown_drains by fastforce
qed

end
