(* ===== verification/H1_Phase.thy ===== *)
theory H1_Phase
  imports H1_Conn
begin

text \<open>
  The timing of the hyper backend, \<^verbatim>\<open>src/src/backend/hyper/mod.rs\<close>: the phase clock that the I/O adapter
  and the bridge advance, the watchdog that races hyper's connection, and how a connection ends.

  Every operation takes the instant at which it runs.  The cells \<^verbatim>\<open>request_body_finished\<close>, one per
  request and shared with its body, are a store \<open>pc_flags\<close> in which \<open>pc_flag\<close> is the current one.
  \<open>pc_notified\<close> counts the calls of \<^verbatim>\<open>notify_waiters\<close>: a waiter that was made when the count was \<open>n\<close> is
  woken once it differs from \<open>n\<close>.
\<close>

section \<open>The phase clock\<close>

datatype phase = PhIdle | PhHead | PhHandler | PhWrite

record phase_clock =
  pc_phase :: phase
  pc_generation :: nat
  pc_wrote_bytes :: bool
  pc_body_done :: bool
  pc_detached :: bool
  pc_flags :: "bool list"
  pc_flag :: nat
  pc_body_deadline_at :: "instant option"
  pc_response_streams :: bool
  pc_phase_since :: instant
  pc_notified :: nat

definition clock_new :: "phase \<Rightarrow> instant \<Rightarrow> phase_clock" where
  "clock_new p now =
     \<lparr>pc_phase = p, pc_generation = 0, pc_wrote_bytes = False, pc_body_done = False, pc_detached = False,
      pc_flags = [False], pc_flag = 0, pc_body_deadline_at = None, pc_response_streams = False,
      pc_phase_since = now, pc_notified = 0\<rparr>"

definition clock_detach :: "phase_clock \<Rightarrow> phase_clock" where
  "clock_detach c = c\<lparr>pc_detached := True\<rparr>"

definition bump :: "instant \<Rightarrow> phase_clock \<Rightarrow> phase_clock" where
  "bump now c =
     c\<lparr>pc_generation := wrapping_add_u64 (pc_generation c) 1, pc_phase_since := now,
       pc_notified := Suc (pc_notified c)\<rparr>"

definition set_phase :: "phase \<Rightarrow> instant \<Rightarrow> phase_clock \<Rightarrow> phase_clock" where
  "set_phase p now c =
     (if pc_detached c then c
      else
        (let c = (if p = PhIdle \<or> p = PhHandler then c\<lparr>pc_wrote_bytes := False, pc_body_done := False\<rparr> else c);
             c = (if p = PhHandler
                  then c\<lparr>pc_flags := pc_flags c @ [False], pc_flag := length (pc_flags c), pc_response_streams := False\<rparr>
                  else c)
         in bump now (c\<lparr>pc_phase := p\<rparr>)))"

definition clock_note_write :: "instant \<Rightarrow> phase_clock \<Rightarrow> phase_clock" where
  "clock_note_write now c =
     (if pc_detached c then c
      else
        (let c = (if pc_phase c = PhWrite \<or> pc_phase c = PhHead then c\<lparr>pc_wrote_bytes := True\<rparr> else c)
         in if pc_phase c = PhWrite then bump now c else c))"

definition request_body_finished :: "phase_clock \<Rightarrow> bool" where
  "request_body_finished c = pc_flags c ! pc_flag c"

text \<open>\<^verbatim>\<open>leave_write\<close> returns at once or when woken, in the first state that is not writing.\<close>

definition leave_write :: "phase_clock \<Rightarrow> bool" where
  "leave_write c \<longleftrightarrow> pc_phase c \<noteq> PhWrite"

definition set_body_deadline :: "instant option \<Rightarrow> phase_clock \<Rightarrow> phase_clock" where
  "set_body_deadline at c = c\<lparr>pc_body_deadline_at := at\<rparr>"

definition note_body_end :: "phase_clock \<Rightarrow> phase_clock" where
  "note_body_end c = c\<lparr>pc_body_done := True\<rparr>"

definition clock_note_flush :: "instant \<Rightarrow> phase_clock \<Rightarrow> phase_clock" where
  "clock_note_flush now c =
     (if pc_detached c then c
      else if pc_phase c = PhWrite \<and> pc_body_done c then set_phase PhIdle now c
      else c)"

definition note_request_body_finished :: "nat \<Rightarrow> phase_clock \<Rightarrow> phase_clock" where
  "note_request_body_finished flag c =
     (let c = c\<lparr>pc_flags := (pc_flags c)[flag := True]\<rparr>
      in if flag = pc_flag c then c\<lparr>pc_notified := Suc (pc_notified c)\<rparr> else c)"

definition set_response_streams :: "bool \<Rightarrow> phase_clock \<Rightarrow> phase_clock" where
  "set_response_streams streams c = c\<lparr>pc_response_streams := streams\<rparr>"

text \<open>\<^verbatim>\<open>IoShared::note_read\<close> and \<^verbatim>\<open>IoShared::note_write\<close> of \<^verbatim>\<open>io.rs\<close>.\<close>

definition note_read :: "bytes \<Rightarrow> instant \<Rightarrow> phase_clock \<Rightarrow> phase_clock" where
  "note_read b now c = (if pc_phase c = PhIdle \<and> begins_request b then set_phase PhHead now c else c)"

definition note_write :: "nat \<Rightarrow> instant \<Rightarrow> phase_clock \<Rightarrow> phase_clock" where
  "note_write n now c = (if n > 0 then clock_note_write now c else c)"

definition phase_timeout :: "phase \<Rightarrow> limits \<Rightarrow> duration" where
  "phase_timeout p l =
     (case p of
        PhIdle \<Rightarrow> idle_timeout l
      | PhHead \<Rightarrow> header_timeout l
      | PhHandler \<Rightarrow> body_timeout l
      | PhWrite \<Rightarrow> write_timeout l)"

section \<open>The watchdog\<close>

definition body_at :: "phase_clock \<Rightarrow> instant option" where
  "body_at c = (if request_body_finished c then None else pc_body_deadline_at c)"

definition arm_for :: "limits \<Rightarrow> instant \<Rightarrow> phase_clock \<Rightarrow> duration" where
  "arm_for l now c =
     (let remaining = phase_timeout (pc_phase c) l - (now - pc_phase_since c) in
      case (pc_phase c, body_at c) of
        (PhHandler, Some at) \<Rightarrow> at - now
      | (PhWrite, Some at) \<Rightarrow> if pc_response_streams c then min remaining (at - now) else remaining
      | _ \<Rightarrow> remaining)"

text \<open>
  Where the watchdog is: in the \<^verbatim>\<open>select!\<close> with the clock it saw at the top of the loop, or waiting for
  the phase to move.  A poll sees the instant and the clock as they are then.
\<close>

datatype watch = Watching phase_clock conn_deadline | Waiting phase_clock conn_deadline

definition watch_arm :: "limits \<Rightarrow> instant \<Rightarrow> phase_clock \<Rightarrow> conn_deadline \<Rightarrow> watch" where
  "watch_arm l now c d = Watching c (deadline_arm d now (arm_for l now c))"

definition watch_poll ::
    "limits \<Rightarrow> (instant \<Rightarrow> instant \<Rightarrow> bool) \<Rightarrow> instant \<Rightarrow> phase_clock \<Rightarrow> watch \<Rightarrow> phase + watch" where
  "watch_poll l fires now c w =
     (case w of
        Watching c0 d \<Rightarrow>
          if pc_notified c \<noteq> pc_notified c0 then Inr (watch_arm l now c d)
          else
            (case poll_expired fires now d of (expired, d) \<Rightarrow>
               if \<not> expired then Inr (Watching c0 d)
               else if pc_generation c \<noteq> pc_generation c0 then Inr (watch_arm l now c d)
               else if pc_phase c0 = PhHandler \<and> request_body_finished c then Inr (Waiting c (deadline_disarm d))
               else if pc_phase c0 = PhWrite \<and> body_at c0 \<noteq> None \<and> request_body_finished c
               then Inr (watch_arm l now c d)
               else Inl (pc_phase c0))
      | Waiting c0 d \<Rightarrow> if pc_notified c \<noteq> pc_notified c0 then Inr (watch_arm l now c d) else Inr w)"

fun watchdog ::
    "limits \<Rightarrow> (instant \<Rightarrow> instant \<Rightarrow> bool) \<Rightarrow> watch \<Rightarrow> (instant \<times> phase_clock) list \<Rightarrow> phase option" where
  "watchdog l fires w [] = None"
| "watchdog l fires w ((now, c) # polls) =
     (case watch_poll l fires now c w of Inl p \<Rightarrow> Some p | Inr w \<Rightarrow> watchdog l fires w polls)"

section \<open>How a connection ends\<close>

text \<open>The bare error response, with the writer of the native loop.\<close>

definition write_error_close :: "(int \<Rightarrow> bytes) \<Rightarrow> date_cache \<Rightarrow> int \<Rightarrow> version \<Rightarrow> nat \<Rightarrow> bytes \<times> date_cache" where
  "write_error_close fmt date now v st =
     (let (date_bytes, date) = date_cache_get fmt date now
      in (write_head [] v \<lparr>resp_status = st, resp_headers = []\<rparr> OutNone date_bytes False, date))"

text \<open>A chain of error sources; an I/O error among them has an errno or only a kind.\<close>

datatype chain_error = ChainIo "int option" io_error | ChainOther

datatype rebuilt = FromErrno int | FromKind io_error

fun find_io_error :: "chain_error list \<Rightarrow> rebuilt option" where
  "find_io_error [] = None"
| "find_io_error (ChainIo raw e # es) =
     Some (case raw of Some code \<Rightarrow> FromErrno code | None \<Rightarrow> FromKind e)"
| "find_io_error (ChainOther # es) = find_io_error es"

text \<open>What the race of watchdog and connection yields, and what \<^verbatim>\<open>HyperBackend::serve\<close> makes of it.\<close>

datatype raced = RaceExpired phase | RaceClosed | RaceFailed "chain_error list"

datatype hyper_end = SilentClose | TimeoutResponse version nat | HandedOver | EndedWith rebuilt

definition hyper_served :: "phase_clock \<Rightarrow> version \<Rightarrow> bool \<Rightarrow> bool \<Rightarrow> raced \<Rightarrow> hyper_end" where
  "hyper_served c ver_of_req sent_101 slot_filled r =
     (case r of
        RaceExpired p \<Rightarrow>
          if p = PhIdle \<or> p = PhWrite then SilentClose
          else
            (let version = (if p = PhHandler then ver_of_req else Http11)
             in if \<not> pc_wrote_bytes c then TimeoutResponse version 408 else SilentClose)
      | RaceClosed \<Rightarrow> if sent_101 \<and> slot_filled then HandedOver else SilentClose
      | RaceFailed es \<Rightarrow> (case find_io_error es of Some e \<Rightarrow> EndedWith e | None \<Rightarrow> SilentClose))"

section \<open>The steps of a connection\<close>

text \<open>
  A connection served by hyper, between two polls of the watchdog.  Hyper is not code of the crate;
  of its documented behaviour the steps use that it calls the service for one request at a time and
  reads no more once it has refused a head, that it writes its buffer in order, and that a flush
  succeeds only with the buffer drained.  A byte it has buffered belongs to an interim response, to
  the final response of the service, or to its own refusal.  \<open>dr_partial\<close> is whether bytes of a final
  response are on the wire whose end is not.
\<close>

datatype owed = Interim | Final | Refusal

record driver =
  dr_clock :: phase_clock
  dr_called :: bool
  dr_waiting :: bool
  dr_refused :: bool
  dr_buffer :: "owed list"
  dr_partial :: bool

definition driver_new :: "instant \<Rightarrow> driver" where
  "driver_new now =
     \<lparr>dr_clock = clock_new PhIdle now, dr_called = False, dr_waiting = False, dr_refused = False,
      dr_buffer = [], dr_partial = False\<rparr>"

inductive driver_step :: "limits \<Rightarrow> driver \<Rightarrow> driver \<Rightarrow> bool" for l where
  read: "\<not> dr_refused d \<Longrightarrow> driver_step l d (d\<lparr>dr_clock := note_read b now (dr_clock d)\<rparr>)"
| call: "\<not> dr_called d \<Longrightarrow> \<not> dr_refused d \<Longrightarrow> driver_step l d (d\<lparr>dr_called := True, dr_waiting := True\<rparr>)"
| enter: "dr_waiting d \<Longrightarrow> leave_write (dr_clock d) \<Longrightarrow>
    driver_step l d (d\<lparr>dr_waiting := False,
      dr_clock := set_body_deadline (instant_checked_add now (body_timeout l)) (set_phase PhHandler now (dr_clock d))\<rparr>)"
| interim: "dr_called d \<Longrightarrow> driver_step l d (d\<lparr>dr_buffer := dr_buffer d @ [Interim]\<rparr>)"
| respond: "dr_called d \<Longrightarrow> \<not> dr_waiting d \<Longrightarrow>
    driver_step l d (d\<lparr>dr_called := False, dr_buffer := dr_buffer d @ replicate (Suc n) Final,
      dr_clock := (if ended then note_body_end else id) (set_response_streams s (set_phase PhWrite now (dr_clock d)))\<rparr>)"
| frame: "pc_phase (dr_clock d) = PhWrite \<Longrightarrow> \<not> pc_body_done (dr_clock d) \<Longrightarrow>
    driver_step l d (d\<lparr>dr_buffer := dr_buffer d @ replicate n Final,
      dr_clock := (if ended then note_body_end else id) (dr_clock d)\<rparr>)"
| refuse: "\<not> dr_called d \<Longrightarrow> \<not> dr_refused d \<Longrightarrow>
    driver_step l d (d\<lparr>dr_refused := True, dr_buffer := dr_buffer d @ replicate (Suc n) Refusal\<rparr>)"
| sends: "n \<le> length (dr_buffer d) \<Longrightarrow>
    driver_step l d (d\<lparr>dr_buffer := drop n (dr_buffer d),
      dr_partial := (dr_partial d \<or> (\<exists>o1 \<in> set (take n (dr_buffer d)). o1 \<noteq> Interim)),
      dr_clock := note_write n now (dr_clock d)\<rparr>)"
| flush: "dr_buffer d = [] \<Longrightarrow>
    driver_step l d (d\<lparr>dr_clock := clock_note_flush now (dr_clock d),
      dr_partial := (dr_partial d \<and> \<not> (pc_phase (dr_clock d) = PhWrite \<and> pc_body_done (dr_clock d)))\<rparr>)"
| finished: "flag < length (pc_flags (dr_clock d)) \<Longrightarrow>
    driver_step l d (d\<lparr>dr_clock := note_request_body_finished flag (dr_clock d)\<rparr>)"

lemmas clock_defs = set_phase_def bump_def clock_note_write_def clock_note_flush_def note_read_def
  note_write_def note_body_end_def set_body_deadline_def set_response_streams_def
  note_request_body_finished_def Let_def

section \<open>No response is spliced into another\<close>

definition driver_ok :: "driver \<Rightarrow> bool" where
  "driver_ok d \<longleftrightarrow>
     (let c = dr_clock d in
      \<not> pc_detached c \<and> pc_flag c < length (pc_flags c)
      \<and> (pc_phase c = PhIdle \<or> pc_phase c = PhHandler \<longrightarrow> \<not> pc_wrote_bytes c)
      \<and> (pc_phase c = PhHandler \<longleftrightarrow> dr_called d \<and> \<not> dr_waiting d)
      \<and> (dr_waiting d \<longrightarrow> dr_called d) \<and> (dr_refused d \<longrightarrow> \<not> dr_called d)
      \<and> (pc_phase c \<noteq> PhWrite \<and> \<not> dr_refused d \<longrightarrow> set (dr_buffer d) \<subseteq> {Interim} \<and> \<not> dr_partial d)
      \<and> (dr_partial d \<longrightarrow> pc_wrote_bytes c \<or> (dr_refused d \<and> pc_phase c = PhIdle)))"

lemma driver_new_ok: "driver_ok (driver_new now)"
  by (simp add: driver_ok_def driver_new_def clock_new_def)

lemma driver_step_ok: "driver_step l d d' \<Longrightarrow> driver_ok d \<Longrightarrow> driver_ok d'"
proof (induction rule: driver_step.induct)
  case (sends n d now)
  have "n = 0 \<Longrightarrow> take n (dr_buffer d) = []" by simp
  with sends show ?case
    by (cases "pc_phase (dr_clock d)")
       (auto simp: driver_ok_def clock_defs dest: in_set_takeD in_set_dropD)
qed (auto simp: driver_ok_def clock_defs leave_write_def split: if_splits)

lemma driver_reach_ok: "(driver_step l)\<^sup>*\<^sup>* d d' \<Longrightarrow> driver_ok d \<Longrightarrow> driver_ok d'"
  by (induction rule: rtranclp_induct) (auto intro: driver_step_ok)

text \<open>C32. A timed-out request is answered, and never in the middle of a response: in every reachable state of
  a connection, the bare 408 goes out only when no byte of an unfinished final response, the
  service's or hyper's own refusal, is on the wire; when the deadline of a request body passes while
  the handler runs it always goes out, in the version of the request; and an idle connection or a
  stalled write is closed without a word.\<close>

theorem timeout_response_not_spliced:
  assumes "(driver_step l)\<^sup>*\<^sup>* (driver_new t0) d" and "pc_phase (dr_clock d) = p"
  shows "case hyper_served (dr_clock d) v sent_101 slot (RaceExpired p) of
      TimeoutResponse v' st \<Rightarrow> \<not> dr_partial d \<and> (p = PhHead \<and> v' = Http11 \<or> p = PhHandler \<and> v' = v) \<and> st = 408
    | SilentClose \<Rightarrow> p = PhIdle \<or> p = PhWrite \<or> p = PhHead \<and> pc_wrote_bytes (dr_clock d)
    | _ \<Rightarrow> False"
  using driver_reach_ok [OF assms(1) driver_new_ok] assms(2)
  by (cases p) (auto simp: driver_ok_def hyper_served_def Let_def)

definition sample_driver :: driver where
  "sample_driver = (driver_new 0)\<lparr>dr_called := True, dr_clock :=
     set_body_deadline (Some 9) (set_phase PhHandler 2 (set_phase PhHead 1 (clock_new PhIdle 0)))\<rparr>"

lemma sample_driver_reached:
  assumes "body_timeout l = 7"
  shows "(driver_step l)\<^sup>*\<^sup>* (driver_new 0) sample_driver"
proof -
  let ?h = "(driver_new 0)\<lparr>dr_clock := set_phase PhHead 1 (clock_new PhIdle 0)\<rparr>"
  have a: "driver_step l (driver_new 0) ?h"
    using driver_step.read [of "driver_new 0" l "''G''" 1]
    by (simp add: driver_new_def note_read_def clock_new_def begins_request_def)
  have b: "driver_step l ?h (?h\<lparr>dr_called := True, dr_waiting := True\<rparr>)"
    by (rule driver_step.call) (simp_all add: driver_new_def)
  have c: "driver_step l (?h\<lparr>dr_called := True, dr_waiting := True\<rparr>) sample_driver"
    using driver_step.enter [of "?h\<lparr>dr_called := True, dr_waiting := True\<rparr>" l 2] assms
    by (simp add: sample_driver_def driver_new_def leave_write_def clock_defs clock_new_def
        instant_checked_add_def instant_range_def)
  from a b c show ?thesis by (meson r_into_rtranclp rtranclp_trans)
qed

theorem timeout_response_not_spliced_witness:
  "hyper_served (dr_clock sample_driver) Http10 False False (RaceExpired PhHandler) = TimeoutResponse Http10 408
   \<and> \<not> dr_partial sample_driver"
  using timeout_response_not_spliced [OF sample_driver_reached [of "default_limits\<lparr>body_timeout := 7\<rparr>"],
      of PhHandler Http10 False False]
  by (simp add: sample_driver_def clock_defs clock_new_def driver_new_def hyper_served_def)

section \<open>The watchdog\<close>

text \<open>A clock that has notified nobody since has not moved in anything the watchdog reads.\<close>

definition later :: "phase_clock \<Rightarrow> phase_clock \<Rightarrow> bool" where
  "later c c' \<longleftrightarrow>
     pc_notified c \<le> pc_notified c'
     \<and> (pc_notified c' = pc_notified c \<longrightarrow>
          pc_phase c' = pc_phase c \<and> pc_generation c' = pc_generation c \<and> pc_phase_since c' = pc_phase_since c
          \<and> request_body_finished c' = request_body_finished c
          \<and> pc_body_deadline_at c' = pc_body_deadline_at c \<and> pc_response_streams c' = pc_response_streams c)"

lemma later_refl: "later c c" by (simp add: later_def)

lemma later_trans: "later a b \<Longrightarrow> later b c \<Longrightarrow> later a c"
  by (auto simp: later_def)

lemma driver_step_later: "driver_step l d d' \<Longrightarrow> driver_ok d \<Longrightarrow> later (dr_clock d) (dr_clock d')"
  by (induction rule: driver_step.induct)
     (auto simp: driver_ok_def later_def clock_defs request_body_finished_def nth_list_update)

lemma driver_later: "(driver_step l)\<^sup>*\<^sup>* d d' \<Longrightarrow> driver_ok d \<Longrightarrow> later (dr_clock d) (dr_clock d')"
  by (induction rule: rtranclp_induct)
     (auto intro: later_refl later_trans driver_step_later driver_reach_ok)

text \<open>The connection as the watchdog finds it, poll by poll.\<close>

fun watched :: "limits \<Rightarrow> driver \<Rightarrow> (instant \<times> driver) list \<Rightarrow> bool" where
  "watched l d [] \<longleftrightarrow> True"
| "watched l d ((now, d') # polls) \<longleftrightarrow> (driver_step l)\<^sup>*\<^sup>* d d' \<and> watched l d' polls"

text \<open>Instants and durations in a range of a century, in which no deadline saturates.\<close>

definition timely :: "limits \<Rightarrow> instant \<times> driver \<Rightarrow> bool" where
  "timely l x \<longleftrightarrow>
     (case x of (now, d) \<Rightarrow>
        pc_phase_since (dr_clock d) \<le> now \<and> now < 2 ^ 62
        \<and> phase_timeout (pc_phase (dr_clock d)) l < 2 ^ 62
        \<and> (\<forall>at. pc_body_deadline_at (dr_clock d) = Some at \<longrightarrow> at < 2 ^ 63))"

definition overdue :: "limits \<Rightarrow> instant \<Rightarrow> phase_clock \<Rightarrow> bool" where
  "overdue l now c \<longleftrightarrow>
     pc_phase_since c + phase_timeout (pc_phase c) l \<le> now
     \<or> (\<exists>at. body_at c = Some at \<and> at \<le> now
          \<and> (pc_phase c = PhHandler \<or> pc_phase c = PhWrite \<and> pc_response_streams c))"

lemma arm_for_overdue:
  assumes "now + arm_for l now c \<le> now'" and "pc_phase_since c \<le> now"
  shows "overdue l now' c"
proof -
  have r: "now + (phase_timeout (pc_phase c) l - (now - pc_phase_since c)) \<le> now'
      \<Longrightarrow> pc_phase_since c + phase_timeout (pc_phase c) l \<le> now'"
    using assms(2) by linarith
  show ?thesis
    using assms(1) r
    by (cases "pc_phase c"; cases "body_at c")
       (auto simp: arm_for_def overdue_def Let_def min_def split: if_splits)
qed

lemma arm_for_bound:
  assumes "timely l (now, d)"
  shows "arm_for l now (dr_clock d) < 2 ^ 63"
  using assms
  by (cases "pc_phase (dr_clock d)")
     (auto simp: timely_def arm_for_def Let_def body_at_def split: option.split)

text \<open>A watch that was armed for the clock it holds, at some instant.\<close>

fun watch_ok :: "limits \<Rightarrow> driver \<Rightarrow> duration \<Rightarrow> watch \<Rightarrow> bool" where
  "watch_ok l d tick (Watching c dl) \<longleftrightarrow>
     later c (dr_clock d) \<and> deadline_ok dl \<and> dl_tick dl = tick
     \<and> (\<exists>now t. dl_target dl = Some t \<and> now + arm_for l now c \<le> t \<and> pc_phase_since c \<le> now)"
| "watch_ok l d tick (Waiting c dl) \<longleftrightarrow> dl_tick dl = tick"

lemma watch_arm_ok:
  assumes "timely l (now, d)" and "0 < tick" and "tick \<le> 2 ^ 62" and "dl_tick dl = tick"
  shows "watch_ok l d tick (watch_arm l now (dr_clock d) dl)"
proof -
  have "arm_for l now (dr_clock d) < 2 ^ 63" "now < 2 ^ 62" "pc_phase_since (dr_clock d) \<le> now"
    using arm_for_bound [OF assms(1)] assms(1) by (simp_all add: timely_def)
  with deadline_arm_target [of dl "arm_for l now (dr_clock d)" now] assms(2-)
  obtain t where "dl_target (deadline_arm dl now (arm_for l now (dr_clock d))) = Some t"
    "now + arm_for l now (dr_clock d) \<le> t" by (auto simp: instant_range_def)
  moreover have "dl_tick (deadline_arm dl now (arm_for l now (dr_clock d))) = tick"
    using assms(4) by (simp add: deadline_arm_def Let_def)
  ultimately show ?thesis
    using \<open>pc_phase_since (dr_clock d) \<le> now\<close> by (auto simp: watch_arm_def later_refl deadline_arm_ok)
qed

lemma watch_poll_keeps:
  assumes "watch_ok l d tick w" and "timely l (now, d)" and "0 < tick" and "tick \<le> 2 ^ 62"
    and "\<forall>now s. fires now s \<longrightarrow> s \<le> now"
  shows "case watch_poll l fires now (dr_clock d) w of
      Inl p \<Rightarrow> p = pc_phase (dr_clock d) \<and> overdue l now (dr_clock d)
        \<and> \<not> (p = PhHandler \<and> request_body_finished (dr_clock d))
    | Inr w' \<Rightarrow> watch_ok l d tick w'"
proof (cases w)
  case (Watching c0 dl)
  with assms(1) obtain now1 t where w: "later c0 (dr_clock d)" "deadline_ok dl" "dl_tick dl = tick"
    "dl_target dl = Some t" "now1 + arm_for l now1 c0 \<le> t" "pc_phase_since c0 \<le> now1" by auto
  obtain r dl' where p: "poll_expired fires now dl = (r, dl')" by (cases "poll_expired fires now dl")
  note pe = poll_expired_target [OF w(2,4) p]
  note arm = watch_arm_ok [OF assms(2,3,4)]
  show ?thesis
  proof (cases "pc_notified (dr_clock d) = pc_notified c0")
    case False
    with Watching arm [OF w(3)] show ?thesis by (simp add: watch_poll_def)
  next
    case True
    with w(1) have same: "pc_phase (dr_clock d) = pc_phase c0" "pc_phase_since (dr_clock d) = pc_phase_since c0"
      "body_at (dr_clock d) = body_at c0" "pc_response_streams (dr_clock d) = pc_response_streams c0"
      by (auto simp: later_def body_at_def)
    have "r \<Longrightarrow> overdue l now c0"
      using arm_for_overdue [of now1 l c0 now] pe(4) assms(5) w(5,6) by auto
    then have "r \<Longrightarrow> overdue l now (dr_clock d)" using same by (simp add: overdue_def)
    with True Watching p pe(1-3) w same arm [of dl'] show ?thesis
      by (auto simp: watch_poll_def deadline_disarm_def)
  qed
next
  case (Waiting c0 dl)
  with assms(1) watch_arm_ok [OF assms(2-4), of dl] show ?thesis by (simp add: watch_poll_def)
qed

lemma watch_ok_later:
  "watch_ok l d tick w \<Longrightarrow> (driver_step l)\<^sup>*\<^sup>* d d' \<Longrightarrow> driver_ok d \<Longrightarrow> watch_ok l d' tick w"
  by (cases w) (auto dest: driver_later intro: later_trans)

text \<open>C33. The watchdog is never early and never late on a phase that ended: whenever it gives up on a
  connection, the phase it names is the one the connection is in, the time of that phase, counted
  from when it began or last made progress, has passed, or the request body is awaited still though
  its own deadline has passed; and a handler whose body has arrived is never given up on.\<close>

theorem watchdog_never_early:
  assumes "(driver_step l)\<^sup>*\<^sup>* (driver_new t0) d" and "watched l d polls"
    and "list_all (timely l) ((now, d) # polls)" and "\<forall>now s. fires now s \<longrightarrow> s \<le> now"
    and "0 < dl_tick dl" and "dl_tick dl \<le> 2 ^ 62"
    and "watchdog l fires (watch_arm l now (dr_clock d) dl) (map (\<lambda>(now, d). (now, dr_clock d)) polls) = Some p"
  shows "\<exists>(now, d) \<in> set polls. pc_phase (dr_clock d) = p \<and> overdue l now (dr_clock d)
    \<and> \<not> (p = PhHandler \<and> request_body_finished (dr_clock d))"
proof -
  have "\<exists>(now, d) \<in> set polls. pc_phase (dr_clock d) = p \<and> overdue l now (dr_clock d)
      \<and> \<not> (p = PhHandler \<and> request_body_finished (dr_clock d))"
    if "watched l d polls" "list_all (timely l) polls" "driver_ok d" "watch_ok l d (dl_tick dl) w"
      "watchdog l fires w (map (\<lambda>(now, d). (now, dr_clock d)) polls) = Some p" for d polls w
    using that
  proof (induction polls arbitrary: d w)
    case (Cons x polls)
    obtain now1 d1 where x: "x = (now1, d1)" by (cases x)
    with Cons.prems have run: "(driver_step l)\<^sup>*\<^sup>* d d1" "watched l d1 polls" and t: "timely l (now1, d1)"
      by simp_all
    have ok: "driver_ok d1" using driver_reach_ok [OF run(1) Cons.prems(3)] .
    note k = watch_poll_keeps [OF watch_ok_later [OF Cons.prems(4) run(1) Cons.prems(3)] t assms(5,6,4)]
    show ?case
    proof (cases "watch_poll l fires now1 (dr_clock d1) w")
      case (Inl q)
      with Cons.prems(5) x k show ?thesis by auto
    next
      case (Inr w')
      with Cons.prems(5) x have "watchdog l fires w' (map (\<lambda>(now, d). (now, dr_clock d)) polls) = Some p"
        by simp
      with Cons.IH [OF run(2) _ ok _ this] Cons.prems(2) Inr k show ?thesis by auto
    qed
  qed simp
  from this [OF assms(2) _ driver_reach_ok [OF assms(1) driver_new_ok]
      watch_arm_ok [OF _ assms(5,6) refl] assms(7)] assms(3) show ?thesis by auto
qed

theorem watchdog_never_early_witness:
  "watchdog (default_limits\<lparr>body_timeout := 7\<rparr>) (\<lambda>now t. t \<le> now)
      (watch_arm (default_limits\<lparr>body_timeout := 7\<rparr>) 2 (dr_clock sample_driver) (deadline_new 10 0))
      [(5, dr_clock sample_driver), (30, dr_clock sample_driver)] = Some PhHandler
   \<and> (overdue (default_limits\<lparr>body_timeout := 7\<rparr>) 5 (dr_clock sample_driver)
      \<or> overdue (default_limits\<lparr>body_timeout := 7\<rparr>) 30 (dr_clock sample_driver))"
proof -
  let ?l = "default_limits\<lparr>body_timeout := 7\<rparr>" and ?d = "sample_driver"
  have w: "watchdog ?l (\<lambda>now t. t \<le> now) (watch_arm ?l 2 (dr_clock ?d) (deadline_new 10 0))
      (map (\<lambda>(now, d). (now, dr_clock d)) [(5, ?d), (30, ?d)]) = Some PhHandler"
    by (simp add: watch_arm_def watch_poll_def arm_for_def body_at_def request_body_finished_def sample_driver_def
        clock_defs clock_new_def poll_expired_def expired_loop.simps deadline_arm_def deadline_new_def round_up_def
        div_ceil_def instant_checked_add_def instant_range_def FAR_FUTURE_def from_secs_def)
  have t: "list_all (timely ?l) [(2, ?d), (5, ?d), (30, ?d)]"
    by (simp add: timely_def sample_driver_def clock_defs clock_new_def phase_timeout_def)
  have "\<exists>(now, d) \<in> set [(5, ?d), (30, ?d)]. pc_phase (dr_clock d) = PhHandler \<and> overdue ?l now (dr_clock d)
      \<and> \<not> (PhHandler = PhHandler \<and> request_body_finished (dr_clock d))"
    by (rule watchdog_never_early [OF sample_driver_reached _ t _ _ _ w]) (simp_all add: deadline_new_def)
  with w show ?thesis by auto
qed

text \<open>And it does give up: left alone in a phase that is bounded, by the first poll a tick after the
  deadline it armed.\<close>

lemma watchdog_fires:
  assumes "\<forall>(now, c) \<in> set polls. pc_notified c = pc_notified c0 \<and> pc_generation c = pc_generation c0
      \<and> request_body_finished c = request_body_finished c0"
    and "deadline_ok dl" and "dl_target dl = Some t" and "\<not> (pc_phase c0 = PhHandler \<and> request_body_finished c0)"
    and "\<exists>(now, c) \<in> set polls. \<forall>s. s \<le> t \<longrightarrow> fires now s"
  shows "watchdog l fires (Watching c0 dl) polls = Some (pc_phase c0)"
  using assms
proof (induction polls arbitrary: dl)
  case (Cons x polls)
  obtain now c where x: "x = (now, c)" by (cases x)
  obtain r dl' where p: "poll_expired fires now dl = (r, dl')" by (cases "poll_expired fires now dl")
  note pe = poll_expired_target [OF Cons.prems(2,3) p]
  have b: "request_body_finished c0 \<Longrightarrow> body_at c0 = None" by (simp add: body_at_def)
  show ?case
  proof (cases r)
    case True
    with p x Cons.prems(1,4) b show ?thesis by (auto simp: watch_poll_def)
  next
    case False
    with pe(5) Cons.prems(5) x have "\<exists>(now, c) \<in> set polls. \<forall>s. s \<le> t \<longrightarrow> fires now s" by auto
    with Cons.IH [OF _ pe(3,1) Cons.prems(4)] Cons.prems(1) False p x show ?thesis
      by (auto simp: watch_poll_def)
  qed
qed simp

end
