(* ===== verification/H1_Hyper.thy ===== *)
theory H1_Hyper
  imports H1_Phase
begin

text \<open>
  The adapters of the hyper backend: the transport of \<^verbatim>\<open>src/src/backend/hyper/io.rs\<close>, the request and
  response bodies of \<^verbatim>\<open>src/src/backend/hyper/body.rs\<close>, and the body mode of \<^verbatim>\<open>src/src/service.rs\<close> that
  reads a body already de-framed.  What hyper hands over, the frames of a request body, is a script;
  the scratch buffer of a read is its capacity only.
\<close>

section \<open>The transport\<close>

definition MAX_SCRATCH :: nat where
  "MAX_SCRATCH = 64 * 1024"

record io_shared =
  is_io :: transport
  is_buffered :: bytes
  is_clock :: phase_clock

definition io_shared_new :: "transport \<Rightarrow> bytes \<Rightarrow> phase_clock \<Rightarrow> io_shared" where
  "io_shared_new t buffered c = \<lparr>is_io = t, is_buffered = buffered, is_clock = c\<rparr>"

text \<open>A read of the transport into room for \<open>room\<close> bytes: the rest of a longer piece stays.\<close>

definition poll_read_upto :: "nat \<Rightarrow> transport \<Rightarrow> (io_error + bytes) pollable \<times> transport" where
  "poll_read_upto room t =
     (case rd t of
        RdData b # es \<Rightarrow>
          if length b \<le> room then poll_read t
          else (Ready (Inr (take room b)), t\<lparr>rd := RdData (drop room b) # es\<rparr>)
      | _ \<Rightarrow> poll_read t)"

definition poll_read_into :: "nat \<Rightarrow> instant \<Rightarrow> io_shared \<Rightarrow> (io_error + bytes) pollable \<times> io_shared" where
  "poll_read_into room now s =
     (if is_buffered s \<noteq> [] then
        (let n = min (length (is_buffered s)) room in
         if n > 0 then
           (let chunk = take n (is_buffered s)
            in (Ready (Inr chunk), s\<lparr>is_buffered := drop n (is_buffered s), is_clock := note_read chunk now (is_clock s)\<rparr>))
         else (Ready (Inr []), s))
      else
        (case poll_read_upto room (is_io s) of
           (Ready (Inr b), t) \<Rightarrow>
             (Ready (Inr b), s\<lparr>is_io := t, is_clock := if length b > 0 then note_read b now (is_clock s) else is_clock s\<rparr>)
         | (r, t) \<Rightarrow> (r, s\<lparr>is_io := t\<rparr>)))"

definition poll_write_from :: "bytes \<Rightarrow> instant \<Rightarrow> io_shared \<Rightarrow> (io_error + nat) pollable \<times> io_shared" where
  "poll_write_from b now s =
     (case poll_write b (is_io s) of
        (Ready (Inr n), t) \<Rightarrow> (Ready (Inr n), s\<lparr>is_io := t, is_clock := note_write n now (is_clock s)\<rparr>)
      | (r, t) \<Rightarrow> (r, s\<lparr>is_io := t\<rparr>))"

definition poll_flush_from :: "instant \<Rightarrow> io_shared \<Rightarrow> (io_error + unit) pollable \<times> io_shared" where
  "poll_flush_from now s =
     (case poll_flush (is_io s) of
        (Ready (Inr u), t) \<Rightarrow> (Ready (Inr u), s\<lparr>is_io := t, is_clock := clock_note_flush now (is_clock s)\<rparr>)
      | (r, t) \<Rightarrow> (r, s\<lparr>is_io := t\<rparr>))"

definition poll_read_cursor :: "nat \<Rightarrow> instant \<Rightarrow> io_shared \<Rightarrow> (io_error + bytes) pollable \<times> io_shared" where
  "poll_read_cursor capacity now s =
     (let want = min capacity MAX_SCRATCH in
      if want = 0 then (Pending, s) else poll_read_into want now s)"

section \<open>Request bodies\<close>

datatype frame = DataFrame bytes | TrailersFrame "(bytes \<times> bytes) list" | OtherFrame

datatype frame_event = FramePending | FrameFailed | FrameReady frame

record hyper_body =
  hb_frames :: "frame_event list"
  hb_stash :: bytes
  hb_trailers_slot :: "header_vec option"
  hb_finished :: "nat option"
  hb_clock :: phase_clock

definition hyper_body_new :: "frame_event list \<Rightarrow> phase_clock \<Rightarrow> hyper_body" where
  "hyper_body_new fs c =
     \<lparr>hb_frames = fs, hb_stash = [], hb_trailers_slot = None, hb_finished = None, hb_clock = c\<rparr>"

definition with_clock :: "hyper_body \<Rightarrow> hyper_body" where
  "with_clock b = b\<lparr>hb_finished := Some (pc_flag (hb_clock b))\<rparr>"

definition field_id :: "bytes \<Rightarrow> header_id" where
  "field_id name = (case header_from_bytes name of Some i \<Rightarrow> i | None \<Rightarrow> intern name)"

fun relay_trailers :: "(bytes \<times> bytes) list \<Rightarrow> header_vec option" where
  "relay_trailers [] = Some []"
| "relay_trailers ((name, val) # fs) =
     (if forbidden_in_trailers (field_id name) then None
      else map_option ((#) (field_id name, val)) (relay_trailers fs))"

fun hyper_fill_loop ::
    "frame_event list \<Rightarrow> header_vec option \<Rightarrow>
      (io_error + bytes) pollable \<times> frame_event list \<times> header_vec option" where
  "hyper_fill_loop [] slot = (Ready (Inr []), [], slot)"
| "hyper_fill_loop (FramePending # fs) slot = (Pending, fs, slot)"
| "hyper_fill_loop (FrameFailed # fs) slot = (Ready (Inl OtherIo), fs, slot)"
| "hyper_fill_loop (FrameReady (DataFrame b) # fs) slot =
     (if b = [] then hyper_fill_loop fs slot else (Ready (Inr b), fs, slot))"
| "hyper_fill_loop (FrameReady (TrailersFrame m) # fs) slot =
     (case relay_trailers m of
        None \<Rightarrow> (Ready (Inl InvalidData), fs, slot)
      | Some vec \<Rightarrow> hyper_fill_loop fs (Some vec))"
| "hyper_fill_loop (FrameReady OtherFrame # fs) slot = hyper_fill_loop fs slot"

definition hyper_poll_fill :: "hyper_body \<Rightarrow> (io_error + bytes) pollable \<times> hyper_body" where
  "hyper_poll_fill b =
     (case hyper_fill_loop (hb_frames b) (hb_trailers_slot b) of
        (r, fs, slot) \<Rightarrow> (r, b\<lparr>hb_frames := fs, hb_trailers_slot := slot\<rparr>))"

definition hyper_take_buffered :: "nat \<Rightarrow> hyper_body \<Rightarrow> bytes \<times> hyper_body" where
  "hyper_take_buffered mx b =
     (let n = min (length (hb_stash b)) mx in (take n (hb_stash b), b\<lparr>hb_stash := drop n (hb_stash b)\<rparr>))"

definition hyper_body_finished :: "nat \<Rightarrow> hyper_body \<Rightarrow> hyper_body" where
  "hyper_body_finished generation b =
     (case hb_finished b of
        Some flag \<Rightarrow> b\<lparr>hb_clock := note_request_body_finished flag (hb_clock b)\<rparr>
      | None \<Rightarrow> b)"

definition hyper_push_back :: "bytes \<Rightarrow> hyper_body \<Rightarrow> hyper_body" where
  "hyper_push_back x b =
     (if x = [] then b
      else if hb_stash b = [] then b\<lparr>hb_stash := x\<rparr>
      else b\<lparr>hb_stash := x @ hb_stash b\<rparr>)"

definition hyper_vt :: "hyper_body body_io" where
  "hyper_vt =
     \<lparr>poll_fill = hyper_poll_fill, poll_send_continue = (\<lambda>b. (Ready (Inr ()), b)),
      take_buffered = hyper_take_buffered, push_back = hyper_push_back,
      body_started = (\<lambda>b. (0, b)), body_finished = hyper_body_finished\<rparr>"

lemma hyper_vt_simps [simp]:
  "poll_fill hyper_vt = hyper_poll_fill" "poll_send_continue hyper_vt = (\<lambda>b. (Ready (Inr ()), b))"
  "take_buffered hyper_vt = hyper_take_buffered" "push_back hyper_vt = hyper_push_back"
  "body_started hyper_vt = (\<lambda>b. (0, b))" "body_finished hyper_vt = hyper_body_finished"
  by (simp_all add: hyper_vt_def)

section \<open>A body already de-framed\<close>

text \<open>\<^verbatim>\<open>Body::from_backend\<close> and \<^verbatim>\<open>poll_raw\<close>.  A step yields a result, or goes around again.\<close>

record raw_body =
  rb_state :: body_state
  rb_consumed :: nat
  rb_cap :: nat

definition from_backend :: "body_kind \<Rightarrow> hyper_body \<Rightarrow> bool \<Rightarrow> nat \<Rightarrow> raw_body \<times> hyper_body" where
  "from_backend kind io needs_continue mx =
     (let dn = (kind = BodyNone \<or> kind = Length 0);
          ((generation, notified), io) = register hyper_vt io dn
      in (\<lparr>rb_state =
             \<lparr>bs_kind = kind, bs_buffered = [], bs_remaining = 0, bs_decoder = None, bs_trailers = None,
              bs_trailers_ready = dn, bs_has_io = True, bs_generation = generation, bs_notified = notified,
              bs_continue_sent = (\<not> needs_continue), bs_needs_continue = needs_continue,
              bs_done = dn, bs_fully_read = dn\<rparr>,
           rb_consumed = 0, rb_cap = mx\<rparr>, io))"

definition raw_deliver :: "raw_body \<Rightarrow> hyper_body \<Rightarrow> chunk_result \<times> raw_body \<times> hyper_body" where
  "raw_deliver r io =
     (let s = rb_state r; chunk = bs_buffered s; s = s\<lparr>bs_buffered := []\<rparr>;
          consumed = wrapping_add_u64 (rb_consumed r) (length chunk);
          r = r\<lparr>rb_consumed := consumed\<rparr>
      in if consumed > rb_cap r then
           (let (s, io) = body_fail hyper_vt s io in (Ready (Some (Inl TooLarge)), r\<lparr>rb_state := s\<rparr>, io))
         else if bs_kind s = Length consumed then
           (let (s, io) = body_finish hyper_vt s io
            in (Ready (Some (Inr chunk)), r\<lparr>rb_state := s\<lparr>bs_trailers_ready := True\<rparr>\<rparr>, io))
         else (Ready (Some (Inr chunk)), r\<lparr>rb_state := s\<rparr>, io))"

definition raw_end :: "body_state \<Rightarrow> hyper_body \<Rightarrow> body_state \<times> hyper_body" where
  "raw_end s io =
     (let (s, io) = body_finish hyper_vt s io;
          t = (case hb_trailers_slot io of Some t \<Rightarrow> if t \<noteq> [] then Some t else None | None \<Rightarrow> None)
      in (s\<lparr>bs_trailers := t, bs_trailers_ready := True\<rparr>, io\<lparr>hb_trailers_slot := None\<rparr>))"

definition raw_step :: "raw_body \<Rightarrow> hyper_body \<Rightarrow> chunk_result option \<times> raw_body \<times> hyper_body" where
  "raw_step r io =
     (let (s, io) = top_up hyper_vt (u64_range - 1) (rb_state r) io in
      if bs_buffered s \<noteq> [] then
        (case raw_deliver (r\<lparr>rb_state := s\<rparr>) io of (x, r, io) \<Rightarrow> (Some x, r, io))
      else
        (case body_fill hyper_vt s io of
           (Pending, s, io) \<Rightarrow> (Some Pending, r\<lparr>rb_state := s\<rparr>, io)
         | (Ready (Inl e), s, io) \<Rightarrow>
             (let (s, io) = body_fail hyper_vt s io in (Some (Ready (Some (Inl e))), r\<lparr>rb_state := s\<rparr>, io))
         | (Ready (Inr False), s, io) \<Rightarrow>
             (let (s, io) = raw_end s io in (Some (Ready None), r\<lparr>rb_state := s\<rparr>, io))
         | (Ready (Inr True), s, io) \<Rightarrow> (None, r\<lparr>rb_state := s\<rparr>, io)))"

partial_function (option) raw_loop :: "raw_body \<Rightarrow> hyper_body \<Rightarrow> (chunk_result \<times> raw_body \<times> hyper_body) option" where
  "raw_loop r io =
     (case raw_step r io of
        (None, r, io) \<Rightarrow> raw_loop r io
      | (Some x, r, io) \<Rightarrow> Some (x, r, io))"

declare raw_loop.simps [code]

definition poll_raw :: "raw_body \<Rightarrow> hyper_body \<Rightarrow> (chunk_result \<times> raw_body \<times> hyper_body) option" where
  "poll_raw r io =
     (if bs_done (rb_state r) then Some (Ready None, r, io)
      else raw_loop (r\<lparr>rb_state := (rb_state r)\<lparr>bs_continue_sent := True\<rparr>\<rparr>) io)"

text \<open>A handler that reads to the end: polled again after every \<^verbatim>\<open>Pending\<close>, chunk after chunk.\<close>

partial_function (option) raw_read ::
    "bytes \<Rightarrow> raw_body \<Rightarrow> hyper_body \<Rightarrow> ((body_error + bytes) \<times> raw_body \<times> hyper_body) option" where
  "raw_read acc r io =
     (case poll_raw r io of
        None \<Rightarrow> None
      | Some (Pending, r, io) \<Rightarrow> raw_read acc r io
      | Some (Ready None, r, io) \<Rightarrow> Some (Inr acc, r, io)
      | Some (Ready (Some (Inl e)), r, io) \<Rightarrow> Some (Inl e, r, io)
      | Some (Ready (Some (Inr chunk)), r, io) \<Rightarrow> raw_read (acc @ chunk) r io)"

declare raw_read.simps [code]

section \<open>Response bodies\<close>

record out_body_state =
  ob_body :: response_body
  ob_done :: bool

definition out_body_new :: "response_body \<Rightarrow> phase_clock \<Rightarrow> out_body_state \<times> phase_clock" where
  "out_body_new body c =
     (let dn = (case body of RespEmpty \<Rightarrow> True | RespFull b \<Rightarrow> b = [] | RespStream _ \<Rightarrow> False)
      in (\<lparr>ob_body = body, ob_done = dn\<rparr>, if dn then note_body_end c else c))"

definition out_finish :: "out_body_state \<Rightarrow> phase_clock \<Rightarrow> out_body_state \<times> phase_clock" where
  "out_finish s c = (s\<lparr>ob_done := True\<rparr>, note_body_end c)"

type_synonym frame_result = "(body_error + bytes) option pollable"

text \<open>Polling the request's body, which a stream may do while it is polled, reports nothing here.\<close>

definition poll_frame :: "out_body_state \<Rightarrow> phase_clock \<Rightarrow> frame_result \<times> out_body_state \<times> phase_clock" where
  "poll_frame s c =
     (if ob_done s then (Ready None, s, c)
      else
        (case ob_body s of
           RespEmpty \<Rightarrow> (Ready None, out_finish s c)
         | RespFull b \<Rightarrow>
             (let sc = out_finish (s\<lparr>ob_body := RespFull []\<rparr>) c
              in if b = [] then (Ready None, sc) else (Ready (Some (Inr b)), sc))
         | RespStream items \<Rightarrow>
             (case dropWhile (\<lambda>i. i = StreamPollsBody) items of
                [] \<Rightarrow> (Ready None, out_finish (s\<lparr>ob_body := RespStream []\<rparr>) c)
              | StreamPending # items \<Rightarrow> (Pending, s\<lparr>ob_body := RespStream items\<rparr>, c)
              | StreamChunk b # items \<Rightarrow> (Ready (Some (Inr b)), s\<lparr>ob_body := RespStream items\<rparr>, c)
              | _ # items \<Rightarrow>
                  (Ready (Some (Inl (BodyIoError OtherIo))), out_finish (s\<lparr>ob_body := RespStream items\<rparr>) c))))"

definition is_end_stream :: "out_body_state \<Rightarrow> bool" where
  "is_end_stream s = ob_done s"

definition size_hint :: "out_body_state \<Rightarrow> nat option" where
  "size_hint s =
     (case ob_body s of RespEmpty \<Rightarrow> Some 0 | RespFull b \<Rightarrow> Some (length b) | RespStream _ \<Rightarrow> None)"

section \<open>Reads lose nothing\<close>

definition to_read :: "io_shared \<Rightarrow> bytes" where
  "to_read s = is_buffered s @ stream_of (rd (is_io s))"

lemma poll_read_upto_stream:
  assumes "poll_read_upto n t = (r, t')" and "0 < n"
  shows "sent t' = sent t \<and> wr t' = wr t \<and> fl t' = fl t \<and>
    (case r of
       Pending \<Rightarrow> stream_of (rd t') = stream_of (rd t)
     | Ready (Inl e) \<Rightarrow> stream_of (rd t) = []
     | Ready (Inr b) \<Rightarrow> length b \<le> n \<and> (if b = [] then stream_of (rd t) = [] else stream_of (rd t) = b @ stream_of (rd t')))"
  using assms
  by (auto simp: poll_read_upto_def poll_read_def split: list.splits read_event.splits if_splits)

text \<open>Hyper reads the connection as it is: a read never hands over more than there is room for, bytes
  read ahead of hyper come first, every byte comes exactly once and in order, nothing is written,
  and an empty read, by which hyper knows the end of the stream, is reported only at that end, even
  for a cursor without room.\<close>

lemma poll_read_cursor_stream:
  assumes "poll_read_cursor n now s = (r, s')"
  shows "sent (is_io s') = sent (is_io s) \<and>
    (case r of
       Pending \<Rightarrow> to_read s' = to_read s
     | Ready (Inl e) \<Rightarrow> to_read s = []
     | Ready (Inr b) \<Rightarrow> length b \<le> n \<and> (if b = [] then to_read s = [] else to_read s = b @ to_read s'))"
proof (cases "min n MAX_SCRATCH = 0")
  case True
  with assms show ?thesis by (auto simp: poll_read_cursor_def)
next
  case False
  then have n: "0 < min n MAX_SCRATCH" by simp
  show ?thesis
  proof (cases "is_buffered s = []")
    case True
    obtain r1 t where q: "poll_read_upto (min n MAX_SCRATCH) (is_io s) = (r1, t)"
      by (cases "poll_read_upto (min n MAX_SCRATCH) (is_io s)")
    from poll_read_upto_stream [OF q n] assms True False q show ?thesis
      by (auto simp: poll_read_cursor_def poll_read_into_def to_read_def Let_def
          split: pollable.splits sum.splits if_splits)
  next
    case B: False
    with n have "take (min n MAX_SCRATCH) (is_buffered s) \<noteq> []" by auto
    with assms False B n show ?thesis
      by (auto simp: poll_read_cursor_def poll_read_into_def to_read_def Let_def min_def split: if_splits)
  qed
qed

section \<open>The interface of bodies\<close>

fun frames_data :: "frame_event list \<Rightarrow> bytes" where
  "frames_data [] = []"
| "frames_data (FramePending # fs) = frames_data fs"
| "frames_data (FrameFailed # fs) = []"
| "frames_data (FrameReady (DataFrame b) # fs) = b @ frames_data fs"
| "frames_data (FrameReady (TrailersFrame m) # fs) = (if relay_trailers m = None then [] else frames_data fs)"
| "frames_data (FrameReady OtherFrame # fs) = frames_data fs"

text \<open>Frames that end without a failure or a trailer that is refused.\<close>

fun frames_clean :: "frame_event list \<Rightarrow> bool" where
  "frames_clean [] \<longleftrightarrow> True"
| "frames_clean (FrameFailed # fs) \<longleftrightarrow> False"
| "frames_clean (FrameReady (TrailersFrame m) # fs) \<longleftrightarrow> relay_trailers m \<noteq> None \<and> frames_clean fs"
| "frames_clean (f # fs) \<longleftrightarrow> frames_clean fs"

lemma hyper_fill_loop_frames:
  assumes "hyper_fill_loop fs slot = (r, fs', slot')"
  shows "case r of
      Pending \<Rightarrow> frames_data fs' = frames_data fs \<and> length fs' < length fs \<and> frames_clean fs' = frames_clean fs
    | Ready (Inl e) \<Rightarrow> frames_data fs = [] \<and> \<not> frames_clean fs
    | Ready (Inr b) \<Rightarrow> frames_data fs = b @ frames_data fs' \<and> frames_clean fs' = frames_clean fs
        \<and> (if b = [] then frames_data fs = [] \<and> frames_clean fs else length fs' < length fs)"
  using assms
proof (induction fs slot rule: hyper_fill_loop.induct)
  case (4 b fs slot)
  then show ?case by (auto split: if_splits pollable.splits sum.splits)
next
  case (5 m fs slot)
  then show ?case by (auto split: option.splits pollable.splits sum.splits)
next
  case (6 fs slot)
  then show ?case by (auto split: pollable.splits sum.splits)
qed auto

interpretation hb: body_transport hyper_vt hb_stash "\<lambda>b. frames_data (hb_frames b)" "\<lambda>b. length (hb_frames b)"
proof
  show "poll_fill hyper_vt io = (Ready (Inr fresh), io') \<Longrightarrow> fresh \<noteq> [] \<Longrightarrow>
      hb_stash io' = hb_stash io \<and> frames_data (hb_frames io) = fresh @ frames_data (hb_frames io')
      \<and> length (hb_frames io') < length (hb_frames io)" for io fresh io'
    using hyper_fill_loop_frames [of "hb_frames io" "hb_trailers_slot io"]
    by (fastforce simp: hyper_poll_fill_def split: prod.splits)
  show "poll_fill hyper_vt io = (Ready (Inr []), io') \<Longrightarrow> hb_stash io' = hb_stash io \<and> frames_data (hb_frames io) = []"
    for io io'
    using hyper_fill_loop_frames [of "hb_frames io" "hb_trailers_slot io"]
    by (fastforce simp: hyper_poll_fill_def split: prod.splits)
  show "poll_fill hyper_vt io = (Pending, io') \<Longrightarrow>
      hb_stash io' = hb_stash io \<and> frames_data (hb_frames io') = frames_data (hb_frames io)
      \<and> length (hb_frames io') < length (hb_frames io)" for io io'
    using hyper_fill_loop_frames [of "hb_frames io" "hb_trailers_slot io"]
    by (fastforce simp: hyper_poll_fill_def split: prod.splits)
qed (auto simp: hyper_take_buffered_def hyper_push_back_def hyper_body_finished_def Let_def min_def split: option.splits)

section \<open>A body already de-framed\<close>

text \<open>Where such a body has got to: \<open>acc\<close> delivered of the content \<open>x\<close>.\<close>

definition raw_ok :: "body_kind \<Rightarrow> nat \<Rightarrow> bytes \<Rightarrow> bool \<Rightarrow> bytes \<Rightarrow> raw_body \<Rightarrow> hyper_body \<Rightarrow> bool" where
  "raw_ok k mx x clean acc r io \<longleftrightarrow>
     bs_has_io (rb_state r) \<and> \<not> bs_done (rb_state r) \<and> bs_kind (rb_state r) = k \<and> rb_cap r = mx
     \<and> rb_consumed r = length acc \<and> acc @ bs_buffered (rb_state r) @ hb.ahead io = x
     \<and> (bs_buffered (rb_state r) \<noteq> [] \<longrightarrow> hb_stash io = []) \<and> frames_clean (hb_frames io) = clean"

definition raw_left :: "hyper_body \<Rightarrow> nat" where
  "raw_left io = length (hb_frames io) + (if hb_stash io = [] then 0 else 1)"

text \<open>What a poll may report from there.\<close>

definition raw_result ::
    "body_kind \<Rightarrow> nat \<Rightarrow> bytes \<Rightarrow> bool \<Rightarrow> bytes \<Rightarrow> nat \<Rightarrow> chunk_result \<Rightarrow> raw_body \<Rightarrow> hyper_body \<Rightarrow> bool" where
  "raw_result k mx x clean acc m res r io \<longleftrightarrow>
     (case res of
        Pending \<Rightarrow> raw_ok k mx x clean acc r io \<and> bs_buffered (rb_state r) = [] \<and> raw_left io < m
      | Ready None \<Rightarrow> acc = x \<and> bs_fully_read (rb_state r) \<and> clean
      | Ready (Some (Inl e)) \<Rightarrow> \<not> bs_fully_read (rb_state r) \<and> (clean \<longrightarrow> e = TooLarge \<and> mx < length x)
      | Ready (Some (Inr c)) \<Rightarrow>
          length (acc @ c) \<le> mx
          \<and> (if k = Length (length (acc @ c))
             then bs_done (rb_state r) \<and> bs_fully_read (rb_state r) \<and> (\<exists>more_bytes. acc @ c @ more_bytes = x)
             else raw_ok k mx x clean (acc @ c) r io \<and> bs_buffered (rb_state r) = [] \<and> raw_left io < m))"

lemma raw_finish:
  assumes "body_finish hyper_vt s io = (s', io')"
  shows "bs_done s' \<and> bs_fully_read s' \<and> hb_stash io' = hb_stash io \<and> hb_frames io' = hb_frames io
    \<and> hb_trailers_slot io' = hb_trailers_slot io"
  using assms by (auto simp: body_finish_def notify_finished_def hyper_body_finished_def split: if_splits option.splits)

lemma raw_fail:
  assumes "body_fail hyper_vt s io = (s', io')"
  shows "\<not> bs_fully_read s'"
  using assms by (auto simp: body_fail_def notify_finished_def split: if_splits)

lemma raw_deliver_result:
  assumes "raw_ok k mx x clean acc r io" and "bs_buffered (rb_state r) \<noteq> []" and "length x < u64_range"
    and "raw_left io < m" and "raw_deliver r io = (res, r', io')"
  shows "raw_result k mx x clean acc m res r' io'"
proof -
  let ?c = "bs_buffered (rb_state r)"
  have n: "rb_consumed r + length ?c \<le> length x" using assms(1) by (auto simp: raw_ok_def)
  then have w: "wrapping_add_u64 (rb_consumed r) (length ?c) = length (acc @ ?c)"
    using assms(1,3) by (simp add: raw_ok_def wrapping_add_u64_exact)
  have le: "length (acc @ ?c) \<le> length x" using n assms(1) by (simp add: raw_ok_def)
  consider (big) "mx < length (acc @ ?c)" | (last) "length (acc @ ?c) \<le> mx" "k = Length (length (acc @ ?c))"
    | (some) "length (acc @ ?c) \<le> mx" "k \<noteq> Length (length (acc @ ?c))" by linarith
  then show ?thesis
  proof cases
    case big
    obtain s1 io1 where f: "body_fail hyper_vt ((rb_state r)\<lparr>bs_buffered := []\<rparr>) io = (s1, io1)"
      by (cases "body_fail hyper_vt ((rb_state r)\<lparr>bs_buffered := []\<rparr>) io")
    with assms(1,5) big w le raw_fail [OF f] show ?thesis
      by (auto simp: raw_deliver_def raw_ok_def raw_result_def Let_def)
  next
    case last
    obtain s1 io1 where f: "body_finish hyper_vt ((rb_state r)\<lparr>bs_buffered := []\<rparr>) io = (s1, io1)"
      by (cases "body_finish hyper_vt ((rb_state r)\<lparr>bs_buffered := []\<rparr>) io")
    with assms(1,5) last w raw_finish [OF f] show ?thesis
      by (auto simp: raw_deliver_def raw_ok_def raw_result_def Let_def)
  next
    case some
    with assms w show ?thesis
      by (auto simp: raw_deliver_def raw_ok_def raw_result_def Let_def)
  qed
qed

lemma raw_loop_deliver:
  assumes "bs_buffered (rb_state r) \<noteq> []"
  shows "raw_loop r io = Some (raw_deliver r io)"
  using assms by (subst raw_loop.simps) (simp add: raw_step_def top_up_def split: prod.splits)

lemma raw_loop_result:
  assumes "raw_ok k mx x clean acc r io" and "bs_buffered (rb_state r) = []" and "length x < u64_range"
  shows "\<exists>res r' io'. raw_loop r io = Some (res, r', io') \<and> raw_result k mx x clean acc (raw_left io) res r' io'"
proof (cases "hb_stash io = []")
  case False
  let ?r = "r\<lparr>rb_state := (rb_state r)\<lparr>bs_buffered := hb_stash io\<rparr>\<rparr>" and ?io = "io\<lparr>hb_stash := []\<rparr>"
  have "length (hb_stash io) \<le> u64_range - 1" using assms by (auto simp: raw_ok_def hb.ahead_def)
  then have "raw_step r io = (case raw_deliver ?r ?io of (x, r, io) \<Rightarrow> (Some x, r, io))"
    using assms(1,2) False by (simp add: raw_step_def top_up_def hyper_take_buffered_def raw_ok_def Let_def min_def)
  then have l: "raw_loop r io = Some (raw_deliver ?r ?io)"
    by (subst raw_loop.simps) (simp split: prod.splits)
  have ok: "raw_ok k mx x clean acc ?r ?io" "raw_left ?io < raw_left io"
    using assms(1,2) False by (simp_all add: raw_ok_def hb.ahead_def raw_left_def)
  obtain res r' io' where d: "raw_deliver ?r ?io = (res, r', io')" by (cases "raw_deliver ?r ?io")
  from raw_deliver_result [OF ok(1) _ assms(3) ok(2) d] l d False show ?thesis by auto
next
  case True
  obtain fr fs slot where f: "hyper_fill_loop (hb_frames io) (hb_trailers_slot io) = (fr, fs, slot)"
    by (cases "hyper_fill_loop (hb_frames io) (hb_trailers_slot io)")
  let ?io = "io\<lparr>hb_frames := fs, hb_trailers_slot := slot\<rparr>"
  have p: "hyper_poll_fill io = (fr, ?io)" using f by (simp add: hyper_poll_fill_def)
  note fl = hyper_fill_loop_frames [OF f]
  have top: "top_up hyper_vt (u64_range - 1) (rb_state r) io = (rb_state r, io)"
    using True assms(1,2) by (simp add: top_up_def hyper_take_buffered_def raw_ok_def)
  note st = raw_step_def [of r io, unfolded top Let_def prod.case body_fill_def]
  have x: "x = acc @ frames_data (hb_frames io)" using assms(1,2) True by (simp add: raw_ok_def hb.ahead_def)
  have io: "bs_has_io (rb_state r)" using assms(1) by (simp add: raw_ok_def)
  show ?thesis
  proof (cases fr)
    case Pending
    then have "raw_loop r io = Some (Pending, r, ?io)"
      using st p assms(2) io by (subst raw_loop.simps) simp
    moreover have "raw_result k mx x clean acc (raw_left io) Pending r ?io"
      using Pending fl assms(1,2) True by (simp add: raw_result_def raw_ok_def raw_left_def hb.ahead_def)
    ultimately show ?thesis by blast
  next
    case (Ready y)
    show ?thesis
    proof (cases y)
      case (Inl e)
      obtain s1 io1 where b: "body_fail hyper_vt (rb_state r) ?io = (s1, io1)"
        by (cases "body_fail hyper_vt (rb_state r) ?io")
      have "raw_loop r io = Some (Ready (Some (Inl (BodyIoError e))), r\<lparr>rb_state := s1\<rparr>, io1)"
        using Ready Inl st p b assms(2) io by (subst raw_loop.simps) simp
      with raw_fail [OF b] Ready Inl fl assms(1) show ?thesis
        by (auto simp: raw_result_def raw_ok_def)
    next
      case (Inr d)
      show ?thesis
      proof (cases "d = []")
        case E: True
        obtain s1 io1 where b: "body_finish hyper_vt (rb_state r) ?io = (s1, io1)"
          by (cases "body_finish hyper_vt (rb_state r) ?io")
        have "\<exists>r2 io2. raw_loop r io = Some (Ready None, r2, io2) \<and> bs_fully_read (rb_state r2)"
          using Ready Inr E st p b assms(2) raw_finish [OF b] io
          by (subst raw_loop.simps) (simp add: raw_end_def)
        with Ready Inr E fl x assms(1) show ?thesis by (auto simp: raw_result_def raw_ok_def)
      next
        case False
        let ?r = "r\<lparr>rb_state := (rb_state r)\<lparr>bs_buffered := d\<rparr>\<rparr>"
        have "raw_step r io = (None, ?r, ?io)"
          using Ready Inr False st p assms(2) io by simp
        then have l: "raw_loop r io = Some (raw_deliver ?r ?io)"
          using raw_loop_deliver [of ?r ?io] False by (subst raw_loop.simps) simp
        have ok: "raw_ok k mx x clean acc ?r ?io" "raw_left ?io < raw_left io"
          using Ready Inr False fl assms(1,2) True by (simp_all add: raw_ok_def hb.ahead_def raw_left_def)
        obtain res r' io' where dl: "raw_deliver ?r ?io = (res, r', io')" by (cases "raw_deliver ?r ?io")
        from raw_deliver_result [OF ok(1) _ assms(3) ok(2) dl] l dl False show ?thesis by auto
      qed
    qed
  qed
qed

text \<open>A body is whole when hyper ended it without an error, or when all its declared length has come.\<close>

definition raw_read_result ::
    "body_kind \<Rightarrow> nat \<Rightarrow> bytes \<Rightarrow> bool \<Rightarrow> (body_error + bytes) \<times> raw_body \<times> hyper_body \<Rightarrow> bool" where
  "raw_read_result k mx x clean y \<longleftrightarrow>
     (case y of
        (Inr b, r, _) \<Rightarrow>
          b = x \<and> length x \<le> mx \<and> bs_fully_read (rb_state r) \<and> (clean \<or> k \<in> {BodyNone, Length (length x)})
      | (Inl e, r, _) \<Rightarrow> \<not> bs_fully_read (rb_state r) \<and> (clean \<longrightarrow> e = TooLarge \<and> mx < length x))"

lemma raw_read_whole:
  assumes "raw_ok k mx x clean acc r io" and "bs_buffered (rb_state r) = []" and "length x < u64_range"
    and "length acc \<le> mx" and "\<And>n. k = Length n \<Longrightarrow> length x \<le> n"
  shows "\<exists>y. raw_read acc r io = Some y \<and> raw_read_result k mx x clean y"
  using assms(1,2,4)
proof (induction "raw_left io" arbitrary: acc r io rule: less_induct)
  case less
  let ?r = "r\<lparr>rb_state := (rb_state r)\<lparr>bs_continue_sent := True\<rparr>\<rparr>"
  have "raw_ok k mx x clean acc ?r io" "bs_buffered (rb_state ?r) = []"
    using less.prems by (simp_all add: raw_ok_def)
  from raw_loop_result [OF this assms(3)] obtain res r' io' where
    l: "raw_loop ?r io = Some (res, r', io')" "raw_result k mx x clean acc (raw_left io) res r' io'" by blast
  have p: "poll_raw r io = Some (res, r', io')"
    using less.prems(1) l(1) by (simp add: poll_raw_def raw_ok_def)
  show ?case
  proof (cases res)
    case Pending
    with less.hyps [of io' acc r'] less.prems l(2) p show ?thesis
      by (subst raw_read.simps) (simp add: raw_result_def)
  next
    case (Ready y)
    then consider (fin) "res = Ready None" | (err) e where "res = Ready (Some (Inl e))"
      | (chunk) c where "res = Ready (Some (Inr c))" by (cases y; cases "the y") auto
    then show ?thesis
    proof cases
      case fin
      with l(2) p less.prems(3) show ?thesis
        by (subst raw_read.simps) (simp add: raw_result_def raw_read_result_def)
    next
      case err
      with l(2) p show ?thesis
        by (subst raw_read.simps) (simp add: raw_result_def raw_read_result_def)
    next
      case chunk
      show ?thesis
      proof (cases "k = Length (length (acc @ c))")
        case True
        with chunk l(2) obtain rest where w: "acc @ c @ rest = x" "bs_done (rb_state r')"
          "bs_fully_read (rb_state r')" "length (acc @ c) \<le> mx" by (auto simp: raw_result_def)
        with assms(5) [OF True] have "rest = []" by auto
        moreover have "raw_read (acc @ c) r' io' = Some (Inr (acc @ c), r', io')"
          using w(2) by (subst raw_read.simps) (simp add: poll_raw_def)
        ultimately show ?thesis
          using chunk p w True by (subst raw_read.simps) (auto simp: raw_read_result_def)
      next
        case False
        with less.hyps [of io' "acc @ c" r'] chunk l(2) p show ?thesis
          by (subst raw_read.simps) (simp add: raw_result_def)
      qed
    qed
  qed
qed

text \<open>C34. A body that hyper has de-framed is read whole or not at all: a handler that reads to the end
  always gets there.  It gets exactly the bytes of the data frames, in order, only if they fit the
  cap and hyper ended the body without an error or a forbidden trailer, or they are all of the
  declared length; the body then counts as fully read.  Otherwise it gets an error, and the body does
  not count as read; of a body that hyper ends well and that fits the cap it never gets one.  Of hyper
  it is used that the frames of a body with a declared length do not exceed it.\<close>

theorem raw_body_exact:
  assumes "from_backend k (with_clock (hyper_body_new fs c)) needs_continue mx = (r, io)"
    and "length (frames_data fs) < u64_range"
    and "case k of BodyNone \<Rightarrow> frames_data fs = [] | Length n \<Rightarrow> length (frames_data fs) \<le> n | Chunked \<Rightarrow> True"
  shows "\<exists>y. raw_read [] r io = Some y \<and> raw_read_result k mx (frames_data fs) (frames_clean fs) y"
proof (cases "k = BodyNone \<or> k = Length 0")
  case True
  with assms(1,3) have "bs_done (rb_state r)" "bs_fully_read (rb_state r)" "frames_data fs = []"
    by (auto simp: from_backend_def Let_def split: prod.splits)
  with True show ?thesis by (subst raw_read.simps) (auto simp: poll_raw_def raw_read_result_def)
next
  case False
  with assms(1) have "raw_ok k mx (frames_data fs) (frames_clean fs) [] r io" "bs_buffered (rb_state r) = []"
    by (auto simp: from_backend_def register_def raw_ok_def hb.ahead_def with_clock_def hyper_body_new_def Let_def)
  moreover have "k = Length n \<Longrightarrow> length (frames_data fs) \<le> n" for n using assms(3) by simp
  ultimately show ?thesis by (intro raw_read_whole [OF _ _ assms(2)]) simp_all
qed

theorem raw_body_exact_witness:
  "\<exists>r io y. from_backend (Length 5) (with_clock (hyper_body_new
        [FrameReady (DataFrame ''he''), FramePending, FrameReady (DataFrame []), FrameReady (DataFrame ''llo'')]
        (clock_new PhHandler 0))) True 1024 = (r, io)
     \<and> raw_read [] r io = Some y \<and> fst y = Inr ''hello'' \<and> bs_fully_read (rb_state (fst (snd y)))"
proof -
  let ?fs = "[FrameReady (DataFrame ''he''), FramePending, FrameReady (DataFrame []), FrameReady (DataFrame ''llo'')]"
  obtain r io where b: "from_backend (Length 5) (with_clock (hyper_body_new ?fs (clock_new PhHandler 0))) True 1024 = (r, io)"
    by (cases "from_backend (Length 5) (with_clock (hyper_body_new ?fs (clock_new PhHandler 0))) True 1024")
  from raw_body_exact [OF b] obtain y where "raw_read [] r io = Some y"
    "raw_read_result (Length 5) 1024 ''hello'' True y" by auto
  with b show ?thesis by (cases "fst y") (auto simp: raw_read_result_def)
qed

end
