(* ===== verification/H1_Bridge.thy ===== *)
theory H1_Bridge
  imports H1_Hyper
begin

text \<open>
  The bridge of \<^verbatim>\<open>src/src/backend/hyper/bridge.rs\<close>: a request hyper has parsed becomes a head of the
  crate, under the limits and rules of the native reader, and a response becomes one of hyper's,
  under the rules of the native writer.

  The types of the crate \<^verbatim>\<open>http\<close> are not code of this one.  A parsed request is the record of what the
  bridge reads of it; the constructors of field names and values are the parameters \<open>hl_name\<close> and
  \<open>hl_value\<close>; a status code is a number from 100 to 999.
\<close>

section \<open>Reading a length\<close>

text \<open>\<^verbatim>\<open>str::trim\<close>: the encodings of the characters that are white space.\<close>

definition WHITE_SPACE :: "bytes list" where
  "WHITE_SPACE =
     [[CHR 0x09], [CHR 0x0A], [CHR 0x0B], [CHR 0x0C], [CHR 0x0D], [CHR 0x20],
      [CHR 0xC2, CHR 0x85], [CHR 0xC2, CHR 0xA0], [CHR 0xE1, CHR 0x9A, CHR 0x80]]
     @ map (\<lambda>n. [CHR 0xE2, CHR 0x80, char_of n]) ([0x80..<0x8B] @ [0xA8, 0xA9, 0xAF])
     @ [[CHR 0xE2, CHR 0x81, CHR 0x9F], [CHR 0xE3, CHR 0x80, CHR 0x80]]"

lemma WHITE_SPACE_ne: "w \<in> set WHITE_SPACE \<Longrightarrow> w \<noteq> []"
  by (auto simp: WHITE_SPACE_def)

function trim_start :: "bytes list \<Rightarrow> bytes \<Rightarrow> bytes" where
  "trim_start ws s =
     (case find (\<lambda>w. w \<noteq> [] \<and> prefix w s) ws of
        None \<Rightarrow> s
      | Some w \<Rightarrow> trim_start ws (drop (length w) s))"
  by pat_completeness auto
termination
  by (relation "measure (\<lambda>(_, s). length s)") (auto simp: find_Some_iff prefix_def)

declare trim_start.simps [simp del]

definition trim_str :: "bytes \<Rightarrow> bytes" where
  "trim_str s = rev (trim_start (map rev WHITE_SPACE) (rev (trim_start WHITE_SPACE s)))"

text \<open>\<^verbatim>\<open>str::parse::<u64>\<close>: a leading plus sign is allowed.\<close>

definition parse_u64 :: "bytes \<Rightarrow> nat option" where
  "parse_u64 s =
     (let d = (case s of b # r \<Rightarrow> if b = CHR ''+'' then r else s | [] \<Rightarrow> s)
      in if d \<noteq> [] \<and> list_all is_ascii_digit d \<and> dec_value d < u64_range then Some (dec_value d) else None)"

section \<open>The head\<close>

definition REQUEST_LINE_FIXED :: nat where
  "REQUEST_LINE_FIXED = 1 + 1 + 8 + 2"

definition HEAD_TERMINATOR :: nat where
  "HEAD_TERMINATOR = 2"

datatype wire_version = WireHttp09 | WireHttp10 | WireHttp11 | WireHttp2 | WireHttp3

record http_parts =
  ht_method :: bytes
  ht_scheme :: "bytes option"
  ht_path_and_query :: "bytes option"
  ht_uri :: bytes
  ht_version :: wire_version
  ht_fields :: "(bytes \<times> bytes) list"

definition wire_version_of :: "version \<Rightarrow> wire_version" where
  "wire_version_of v = (case v of Http10 \<Rightarrow> WireHttp10 | Http11 \<Rightarrow> WireHttp11)"

definition from_wire :: "wire_version \<Rightarrow> version option" where
  "from_wire v = (case v of WireHttp11 \<Rightarrow> Some Http11 | WireHttp10 \<Rightarrow> Some Http10 | _ \<Rightarrow> None)"

definition method_of_parts :: "http_parts \<Rightarrow> http_method option" where
  "method_of_parts p =
     (case method_from_bytes (ht_method p) of
        Some m \<Rightarrow> Some m
      | None \<Rightarrow> (case from_utf8 (ht_method p) of Inr s \<Rightarrow> Some (OtherMethod s) | Inl _ \<Rightarrow> None))"

definition target_of_parts :: "http_parts \<Rightarrow> bytes" where
  "target_of_parts p =
     (case (ht_scheme p, ht_path_and_query p) of
        (None, Some pq) \<Rightarrow> pq
      | _ \<Rightarrow> ht_uri p)"

text \<open>The loop over the fields: the bytes counted, the declared length, and the fields converted.\<close>

fun convert_fields :: "(bytes \<times> bytes) list \<Rightarrow> nat \<times> nat option \<times> header_vec \<Rightarrow> nat \<times> nat option \<times> header_vec" where
  "convert_fields [] acc = acc"
| "convert_fields ((name, val) # fs) (cumulative, declared, hs) =
     convert_fields fs
       (cumulative + (length name + 2 + length val + 2),
        (if field_id name = ContentLength \<and> utf8_valid val then
           (case parse_u64 (trim_str val) of Some n \<Rightarrow> Some n | None \<Rightarrow> declared)
         else declared),
        hs @ [(field_id name, val)])"

definition convert_head :: "http_parts \<Rightarrow> limits \<Rightarrow> (nat + head) option" where
  "convert_head p l =
     (case from_wire (ht_version p) of
        None \<Rightarrow> Some (Inl 505)
      | Some v \<Rightarrow>
          (case method_of_parts p of
             None \<Rightarrow> None
           | Some m \<Rightarrow>
               (let target = target_of_parts p in
                if length (ht_fields p) > max_headers l then Some (Inl 431)
                else
                  (let (cumulative, declared, hs) =
                     convert_fields (ht_fields p)
                       (length (ht_method p) + length target + REQUEST_LINE_FIXED + HEAD_TERMINATOR, None, [])
                   in if cumulative > max_head_bytes l then Some (Inl 431)
                      else if validate_request_target target m \<noteq> Inr () then Some (Inl 400)
                      else if (case declared of Some n \<Rightarrow> n > max_body_bytes l | None \<Rightarrow> False) then Some (Inl 413)
                      else
                        (case from_utf8 target of
                           Inl _ \<Rightarrow> None
                         | Inr t \<Rightarrow> Some (Inr (head_new m t v hs)))))))"

section \<open>The response\<close>

record http_lib =
  hl_name :: "bytes \<Rightarrow> bytes option"
  hl_value :: "bytes \<Rightarrow> bytes option"

record bridge_response =
  br_status :: nat
  br_version :: wire_version
  br_fields :: "(bytes \<times> bytes) list"
  br_body :: out_body_state

definition reject :: "nat \<Rightarrow> version \<Rightarrow> phase_clock \<Rightarrow> bridge_response \<times> phase_clock" where
  "reject st v c =
     (case out_body_new RespEmpty c of (b, c) \<Rightarrow>
        (\<lparr>br_status = st, br_version = wire_version_of v, br_fields = [(''connection'', ''close'')], br_body = b\<rparr>, c))"

text \<open>The loop over the handler's fields: those passed on, whether one was a Server, the tokens of Connection.\<close>

fun convert_response_fields ::
    "http_lib \<Rightarrow> nat \<Rightarrow> nat \<Rightarrow> bool \<Rightarrow> nat option \<Rightarrow> header_vec \<Rightarrow>
      wire_fields \<times> bool \<times> bytes list \<Rightarrow> wire_fields \<times> bool \<times> bytes list" where
  "convert_response_fields lib lens st head_request body_len [] acc = acc"
| "convert_response_fields lib lens st head_request body_len ((i, val) # hs) (out, has_server, tokens) =
     (let i = into_canonical i in
      convert_response_fields lib lens st head_request body_len hs
        (if i = ContentLength \<and> handler_length_is_stale val lens st head_request body_len False
         then (out, has_server, tokens)
         else if i = TransferEncoding then (out, has_server, tokens)
         else if i = Connection then (out, has_server, tokens @ connection_tokens val)
         else
           (case hl_name lib (header_as_str i) of
              None \<Rightarrow> (out, has_server, tokens)
            | Some name \<Rightarrow>
                (case hl_value lib val of
                   None \<Rightarrow> (out, has_server, tokens)
                 | Some v \<Rightarrow> (out @ [(name, v)], has_server \<or> i = Server, tokens)))))"

definition convert_response ::
    "http_lib \<Rightarrow> conn_config \<Rightarrow> response \<Rightarrow> version \<Rightarrow> phase_clock \<Rightarrow> bool \<Rightarrow> bool \<Rightarrow> bridge_response \<times> phase_clock" where
  "convert_response lib cfg resp v c keep_alive head_request =
     (let st = (if 100 \<le> rsp_status resp \<and> rsp_status resp \<le> 999 then rsp_status resp else 500);
          body = (if forbids_body_framing st then RespEmpty else rsp_body resp);
          body_len = (case body of RespEmpty \<Rightarrow> Some 0 | RespFull b \<Rightarrow> Some (length b) | RespStream _ \<Rightarrow> None);
          lens = length (filter (\<lambda>(i, val). canonical i = ContentLength \<and> valid_field_value val) (rsp_headers resp));
          keep_alive =
            (keep_alive \<and> \<not> list_ex (\<lambda>(i, val). canonical i = Connection \<and> value_has_token val ''close'') (rsp_headers resp));
          (out, has_server, tokens) =
            convert_response_fields lib lens st head_request body_len (rsp_headers resp) ([], False, []);
          out = (case cfg_server_name cfg of
                   Some name \<Rightarrow>
                     if \<not> has_server
                     then (case hl_value lib name of Some x \<Rightarrow> out @ [(''server'', x)] | None \<Rightarrow> out)
                     else out
                 | None \<Rightarrow> out);
          server_token = (if st \<noteq> 101 then connection_field v keep_alive else None);
          out =
            (if tokens = [] then
               (case server_token of Some t \<Rightarrow> out @ [(''connection'', t)] | None \<Rightarrow> out)
             else
               (let tokens = (case server_token of Some t \<Rightarrow> tokens @ [t] | None \<Rightarrow> tokens)
                in case hl_value lib (join_tokens tokens) of
                     Some x \<Rightarrow> out @ [(''connection'', x)]
                   | None \<Rightarrow> out));
          (b, c) = out_body_new body c
      in (\<lparr>br_status = st, br_version = wire_version_of v, br_fields = out, br_body = b\<rparr>, c))"

section \<open>The call\<close>

text \<open>After the handler: its response, and whether the body was read to its end.  The flag says that the
  transport goes to the upgrade consumer.\<close>

definition bridge_respond ::
    "http_lib \<Rightarrow> conn_config \<Rightarrow> head \<Rightarrow> response \<Rightarrow> bool \<Rightarrow> instant \<Rightarrow> phase_clock \<Rightarrow>
      bridge_response \<times> bool \<times> phase_clock" where
  "bridge_respond lib cfg h resp fully_read now c =
     (let version = head_version h;
          is_head_request = (head_method h = Head);
          impossible_status = (\<not> is_final_status (rsp_status resp) (wants_upgrade h));
          resp = (if impossible_status then response_new 500 else resp);
          upgrading = (rsp_status resp = 101 \<and> wants_upgrade h \<and> fully_read);
          force_close = (\<not> upgrading \<and> (\<not> fully_read \<or> impossible_status));
          c = set_phase PhWrite now c;
          c = (if is_head_request then note_body_end c else c);
          streams = (case rsp_body resp of RespStream _ \<Rightarrow> True | _ \<Rightarrow> False);
          close_delimited =
            (version = Http10 \<and> streams \<and> \<not> is_head_request \<and> \<not> forbids_body_framing (rsp_status resp));
          c = set_response_streams (streams \<and> \<not> is_head_request \<and> \<not> forbids_body_framing (rsp_status resp)) c;
          (r, c) = convert_response lib cfg resp version c
            (is_keep_alive h \<and> \<not> force_close \<and> \<not> close_delimited) is_head_request
      in (r, upgrading, c))"

text \<open>
  The whole call, from the state in which \<^verbatim>\<open>leave_write\<close> has returned.  The handler gets the head and the
  body over hyper's frames and yields its response, or \<open>None\<close> when \<^verbatim>\<open>handler_timeout\<close> cuts it off, with
  the body and the clock as it leaves them, and the instant.
\<close>

definition bridge_call ::
    "http_lib \<Rightarrow> conn_config \<Rightarrow> http_parts \<Rightarrow> frame_event list \<Rightarrow>
      (head \<Rightarrow> raw_body \<Rightarrow> hyper_body \<Rightarrow> response option \<times> raw_body \<times> phase_clock \<times> instant) \<Rightarrow>
      instant \<Rightarrow> phase_clock \<Rightarrow> (bridge_response \<times> bool \<times> phase_clock) option" where
  "bridge_call lib cfg p fs handler now c =
     (let l = cfg_limits cfg;
          c = set_body_deadline (instant_checked_add now (body_timeout l)) (set_phase PhHandler now c)
      in case convert_head p l of
           None \<Rightarrow> None
         | Some (Inl st) \<Rightarrow>
             (case reject st (unwrap_or (from_wire (ht_version p)) Http11) (set_phase PhWrite now c) of
                (r, c) \<Rightarrow> Some (r, False, c))
         | Some (Inr h) \<Rightarrow>
             (case decide h l of
                None \<Rightarrow> None
              | Some (Inl e) \<Rightarrow>
                  (case reject (framing_error_status e) (head_version h) (set_phase PhWrite now c) of
                     (r, c) \<Rightarrow> Some (r, False, c))
              | Some (Inr kind) \<Rightarrow>
                  (case from_backend kind (with_clock (hyper_body_new fs c)) (expects_continue h)
                          (max_body_bytes l) of
                     (body, io) \<Rightarrow>
                       (case handler h body io of
                          (None, body, c, now) \<Rightarrow>
                            (case reject 503 (head_version h) (set_phase PhWrite now c) of
                               (r, c) \<Rightarrow> Some (r, False, c))
                        | (Some resp, body, c, now) \<Rightarrow>
                            Some (bridge_respond lib cfg h resp (bs_fully_read (rb_state body)) now c)))))"

section \<open>Trimming\<close>

lemma white_space_bytes:
  "\<forall>w \<in> set WHITE_SPACE. \<forall>b \<in> set w. \<not> is_ascii_digit b \<and> byte_of b \<noteq> 44"
  by (simp add: WHITE_SPACE_def is_ascii_digit_def upt_conv_Cons)

lemma trim_start_digit:
  assumes "is_ascii_digit b" and "ws = WHITE_SPACE \<or> ws = map rev WHITE_SPACE"
  shows "trim_start ws (b # r) = b # r"
proof -
  have d: "b \<notin> set w" if "w \<in> set ws" for w
    using that assms white_space_bytes by auto
  have "\<not> (w \<noteq> [] \<and> prefix w (b # r))" if "w \<in> set ws" for w
    using d [OF that] by (cases w) auto
  then have "find (\<lambda>w. w \<noteq> [] \<and> prefix w (b # r)) ws = None" by (simp add: find_None_iff)
  then show ?thesis by (simp add: trim_start.simps [of ws "b # r"])
qed

lemma trim_start_ows:
  assumes "is_ows b" and "ws = WHITE_SPACE \<or> ws = map rev WHITE_SPACE"
  shows "trim_start ws (b # r) = trim_start ws r"
proof -
  have "find (\<lambda>w. w \<noteq> [] \<and> prefix w (b # r)) ws = Some [b]"
    using assms by (auto simp: is_ows_def WHITE_SPACE_def)
  then show ?thesis by (simp add: trim_start.simps [of ws "b # r"])
qed

lemma trim_start_block:
  assumes "\<forall>c \<in> set a. is_ows c" and "is_ascii_digit b" and "ws = WHITE_SPACE \<or> ws = map rev WHITE_SPACE"
  shows "trim_start ws (a @ b # r) = b # r"
  using assms(1) by (induction a) (simp_all add: trim_start_digit [OF assms(2,3)] trim_start_ows [OF _ assms(3)])

lemma trim_start_bytes: "set s \<subseteq> set (trim_start ws s) \<union> (\<Union>w \<in> set ws. set w)"
proof (induction ws s rule: trim_start.induct)
  case (1 ws s)
  show ?case
  proof (cases "find (\<lambda>w. w \<noteq> [] \<and> prefix w s) ws")
    case None
    then show ?thesis by (simp add: trim_start.simps [of ws s])
  next
    case (Some w)
    then have w: "w \<in> set ws" "prefix w s" by (auto simp: find_Some_iff)
    then obtain r where s: "s = w @ r" by (auto simp: prefix_def)
    have "trim_start ws s = trim_start ws r" using Some unfolding s by (subst trim_start.simps) simp
    with 1 [OF Some] w(1) s show ?thesis by auto
  qed
qed

lemma trim_str_digits:
  assumes "trim_ows v \<noteq> []" and "is_ascii_digit (hd (trim_ows v))" and "is_ascii_digit (last (trim_ows v))"
  shows "trim_str v = trim_ows v"
proof -
  define u where "u = dropWhile is_ows v"
  define d where "d = trim_ows v"
  have d: "d = rev (dropWhile is_ows (rev u))" by (simp add: d_def u_def trim_ows_eq)
  have v: "v = takeWhile is_ows v @ u" by (simp add: u_def)
  have ru: "rev u = takeWhile is_ows (rev u) @ rev d" by (simp add: d)
  then have u: "u = d @ rev (takeWhile is_ows (rev u))" by (metis rev_append rev_rev_ident)
  have dd: "d \<noteq> []" "is_ascii_digit (hd d)" "is_ascii_digit (last d)" using assms by (simp_all add: d_def)
  then obtain b r where "d = b # r" "is_ascii_digit b" by (cases d) auto
  with u obtain r' where "u = b # r'" "is_ascii_digit b" by (metis append_Cons)
  with v trim_start_block [of "takeWhile is_ows v" b WHITE_SPACE r'] have s: "trim_start WHITE_SPACE v = u"
    by (metis set_takeWhileD)
  obtain b2 r2 where r2: "rev d = b2 # r2" "is_ascii_digit b2"
    using dd by (cases "rev d") (auto simp: last_rev dest: arg_cong [of _ _ hd] simp flip: hd_rev)
  with ru trim_start_block [of "takeWhile is_ows (rev u)" b2 "map rev WHITE_SPACE" r2]
  have "trim_start (map rev WHITE_SPACE) (rev u) = rev d" by (metis set_takeWhileD)
  then show ?thesis by (simp add: trim_str_def s d_def)
qed

lemma declares_length_parse:
  assumes "declares_length n v" and "parse_u64 (trim_str v) = Some m"
  shows "m = n"
proof -
  have plain: "CHR '','' \<notin> set (trim_str v)"
    using assms(2) by (cases "trim_str v") (auto simp: parse_u64_def list_all_iff is_ascii_digit_def Let_def split: if_splits)
  let ?u = "trim_start WHITE_SPACE v"
  have "set v \<subseteq> set ?u \<union> (\<Union>w \<in> set WHITE_SPACE. set w)"
    "set (rev ?u) \<subseteq> set (trim_start (map rev WHITE_SPACE) (rev ?u)) \<union> (\<Union>w \<in> set (map rev WHITE_SPACE). set w)"
    by (rule trim_start_bytes)+
  then have "set v \<subseteq> set (trim_str v) \<union> (\<Union>w \<in> set WHITE_SPACE. set w)" by (auto simp: trim_str_def)
  moreover have "CHR '','' \<notin> set w" if "w \<in> set WHITE_SPACE" for w
    using that white_space_bytes by fastforce
  ultimately have "CHR '','' \<notin> set v" using plain by blast
  then have "split_commas v = [v]" by (auto intro: split_on_no_sep)
  with assms(1) have p: "trim_ows v \<noteq> []" "list_all is_ascii_digit (trim_ows v)" "dec_value (trim_ows v) = n"
    by (auto simp: declares_length_def parse_content_length_iff)
  then have t: "trim_str v = trim_ows v" by (intro trim_str_digits) (auto simp: list_all_iff)
  from p obtain b r where "trim_ows v = b # r" "is_ascii_digit b" by (cases "trim_ows v") auto
  moreover from this have "b \<noteq> CHR ''+''" by (auto simp: is_ascii_digit_def)
  ultimately show ?thesis using assms(2) p(3) t by (simp add: parse_u64_def split: if_splits)
qed

section \<open>The head\<close>

lemma field_id_intern: "field_id name = intern name"
  by (simp add: field_id_def intern_def split: option.split)

lemma convert_fields_eq:
  "convert_fields fs (n, d, hs) = (n', d', hs') \<Longrightarrow>
     n' = n + (\<Sum>(name, val) \<leftarrow> fs. length name + 2 + length val + 2)
     \<and> hs' = hs @ map (\<lambda>(name, val). (intern name, val)) fs
     \<and> (\<forall>m. d' = Some m \<longrightarrow> d = Some m \<or>
          (\<exists>val \<in> set (header_all (map (\<lambda>(name, val). (intern name, val)) fs) ContentLength).
             parse_u64 (trim_str val) = Some m))"
proof (induction fs "(n, d, hs)" arbitrary: n d hs rule: convert_fields.induct)
  case (2 name val fs n d hs)
  let ?d = "if intern name = ContentLength \<and> utf8_valid val
     then (case parse_u64 (trim_str val) of Some n \<Rightarrow> Some n | None \<Rightarrow> d) else d"
  from 2(2) have "convert_fields fs (n + (length name + 2 + length val + 2), ?d, hs @ [(intern name, val)]) = (n', d', hs')"
    by (simp add: field_id_intern)
  with 2(1) [unfolded field_id_intern, OF this]
  show ?case by (auto simp: header_all_def split: if_splits option.splits)
qed (simp add: header_all_def)

text \<open>The bytes the bridge counts of a head.\<close>

definition parts_size :: "http_parts \<Rightarrow> nat" where
  "parts_size p =
     length (ht_method p) + length (target_of_parts p) + REQUEST_LINE_FIXED + HEAD_TERMINATOR
     + (\<Sum>(name, val) \<leftarrow> ht_fields p. length name + 2 + length val + 2)"

text \<open>
  Hyper's request and the native head are the same request: method, target, version, and for every
  name the same values in the same order.  Between names hyper's map of fields keeps no order.
\<close>

definition same_head :: "head \<Rightarrow> head \<Rightarrow> bool" where
  "same_head h h' \<longleftrightarrow>
     head_method h' = head_method h \<and> head_target h' = head_target h \<and> head_version h' = head_version h
     \<and> query_at h' = query_at h \<and> authority_at h' = authority_at h \<and> all_values h' = all_values h"

definition carries_head :: "http_parts \<Rightarrow> head \<Rightarrow> bool" where
  "carries_head p h \<longleftrightarrow>
     method_of_parts p = Some (head_method h) \<and> target_of_parts p = as_bytes (head_target h)
     \<and> from_wire (ht_version p) = Some (head_version h) \<and> length (ht_fields p) = length (head_headers h)
     \<and> header_all (map (\<lambda>(name, val). (intern name, val)) (ht_fields p)) = all_values h"

lemma decide_same_head:
  assumes "same_head h h'"
  shows "decide h' l = decide h l"
proof -
  have v: "all_values h' i = all_values h i" for i using assms by (simp add: same_head_def)
  then have g: "get h' i = get h i" "count h' i = count h i" "has_field h' i = has_field h i" for i
    using all_values_Nil_iff [of h' i] all_values_Nil_iff [of h i] length_header_all [of "head_headers h'" i]
      length_header_all [of "head_headers h" i]
    by (simp_all add: get_def count_def all_values_def header_get_all)
  then have s: "get_str h' i = get_str h i" for i by (simp add: get_str_def header_get_str_def get_def)
  have t: "head_target h' = head_target h" "head_method h' = head_method h" "authority_at h' = authority_at h"
    using assms by (simp_all add: same_head_def)
  have a: "authority h' = authority h" "absolute_scheme h' = absolute_scheme h"
    unfolding authority_def absolute_scheme_def t s by simp_all
  then have c: "check_authority h' = check_authority h"
    unfolding check_authority_def t g(1) a by simp
  have ver: "head_version h' = head_version h" using assms by (simp add: same_head_def)
  show ?thesis unfolding decide_eq v g(2,3) c ver by simp
qed

lemma decide_accepts_declared:
  assumes "decide h l = Some (Inr k)" and "val \<in> set (all_values h ContentLength)"
    and "parse_u64 (trim_str val) = Some m"
  shows "m \<le> max_body_bytes l"
proof -
  have "has_field h ContentLength" using assms(2) all_values_Nil_iff [of h ContentLength] by auto
  with assms(1) have "decide_length (all_values h ContentLength) l = Inr k"
    by (auto simp: decide_eq split: if_splits option.splits sum.splits)
  with assms(2) obtain n where "n \<le> max_body_bytes l" "declares_length n val" by (auto simp: decide_length_iff)
  with declares_length_parse [OF this(2) assms(3)] show ?thesis by simp
qed

text \<open>A Content-Length field of the head has a number in it that is over the limit of the body.\<close>

definition declares_over :: "head \<Rightarrow> limits \<Rightarrow> bool" where
  "declares_over h l \<longleftrightarrow>
     (\<exists>val \<in> set (all_values h ContentLength).
        case parse_u64 (trim_str val) of Some m \<Rightarrow> m > max_body_bytes l | None \<Rightarrow> False)"

text \<open>What the bridge makes of a request that the native reader parses.\<close>

lemma convert_head_over_limit:
  assumes "parse_head_region hp buf n l = Inr h" and "carries_head p h" and "parts_size p > max_head_bytes l"
  shows "convert_head p l = Some (Inl 431)"
proof -
  obtain cum d hs where f: "convert_fields (ht_fields p)
      (length (ht_method p) + length (target_of_parts p) + REQUEST_LINE_FIXED + HEAD_TERMINATOR, None, []) = (cum, d, hs)"
    by (cases "convert_fields (ht_fields p)
      (length (ht_method p) + length (target_of_parts p) + REQUEST_LINE_FIXED + HEAD_TERMINATOR, None, [])")
  with convert_fields_eq [OF f] assms(3) have "cum > max_head_bytes l" by (simp add: parts_size_def)
  with f assms(2) show ?thesis by (simp add: convert_head_def carries_head_def Let_def)
qed

lemma convert_head_carries:
  assumes "parse_head_region hp buf n l = Inr h" and "carries_head p h" and "parts_size p \<le> max_head_bytes l"
  shows "(\<exists>h'. convert_head p l = Some (Inr h') \<and> same_head h h')
    \<or> (convert_head p l = Some (Inl 413) \<and> declares_over h l \<and> (\<forall>k. decide h l \<noteq> Some (Inr k)))"
proof -
  from parse_head_region_ok [OF assms(1)] obtain req where ok: "parsed_head_ok l req h" by blast
  obtain cum d hs where f: "convert_fields (ht_fields p)
      (length (ht_method p) + length (target_of_parts p) + REQUEST_LINE_FIXED + HEAD_TERMINATOR, None, []) = (cum, d, hs)"
    by (cases "convert_fields (ht_fields p)
      (length (ht_method p) + length (target_of_parts p) + REQUEST_LINE_FIXED + HEAD_TERMINATOR, None, [])")
  note cf = convert_fields_eq [OF f]
  have hs: "header_all hs = all_values h" and cum: "cum \<le> max_head_bytes l"
    using cf assms(2,3) by (simp_all add: carries_head_def parts_size_def)
  have len: "\<not> max_headers l < length (ht_fields p)"
    using ok assms(2) by (auto simp: parsed_head_ok_def carries_head_def not_less)
  have wf: "head_wf h" "from_utf8 (target_of_parts p) = Inr (head_target h)"
    using ok assms(2) by (cases "head_target h"; auto simp: parsed_head_ok_def head_wf_def carries_head_def
        from_utf8_def byte_str_ok_def)+
  show ?thesis
  proof (cases "case d of Some n \<Rightarrow> n > max_body_bytes l | None \<Rightarrow> False")
    case True
    then obtain m where m: "d = Some m" "m > max_body_bytes l" by (auto split: option.splits)
    with cf obtain val where "val \<in> set (all_values h ContentLength)" "parse_u64 (trim_str val) = Some m"
      using assms(2) by (auto simp: carries_head_def)
    with decide_accepts_declared [of h l _ val m] m(2)
    have "\<forall>k. decide h l \<noteq> Some (Inr k)" "declares_over h l" by (force simp: declares_over_def)+
    moreover have "convert_head p l = Some (Inl 413)"
      using True cum ok len assms(2) f
      by (simp add: convert_head_def carries_head_def parsed_head_ok_def Let_def)
    ultimately show ?thesis by blast
  next
    case False
    then have "convert_head p l = Some (Inr (head_new (head_method h) (head_target h) (head_version h) hs))"
      using cum ok len assms(2) f wf
      by (simp add: convert_head_def carries_head_def parsed_head_ok_def Let_def)
    moreover have "same_head h (head_new (head_method h) (head_target h) (head_version h) hs)"
      using wf(1) hs by (simp add: same_head_def head_new_def head_wf_def all_values_def fun_eq_iff)
    ultimately show ?thesis by blast
  qed
qed

text \<open>C35. The hyper backend takes the requests the native one takes.  This is of a request whose head the
  native reader parses and that hyper hands on as it is, the same method, target, version and, name
  by name, fields; what hyper itself lets through and the native reader does not is no part of it.
  A head over the limit as the bridge counts it gets 431.  Of the others the bridge calls the service
  with the same head, and the same framing of the body, exactly when the native loop does; and it
  refuses what the native loop refuses, from the same head for the same reason, so with the same
  status, unless a Content-Length in it is over the limit: that may get its 413 first.\<close>

theorem bridge_decides_as_native:
  assumes "parse_head_region hp buf n l = Inr h" and "carries_head p h"
  shows "if parts_size p > max_head_bytes l then convert_head p l = Some (Inl 431)
    else case decide h l of
      Some (Inr k) \<Rightarrow> \<exists>h'. convert_head p l = Some (Inr h') \<and> same_head h h' \<and> decide h' l = Some (Inr k)
    | Some (Inl e) \<Rightarrow> (convert_head p l = Some (Inl 413) \<and> declares_over h l)
        \<or> (\<exists>h'. convert_head p l = Some (Inr h') \<and> same_head h h' \<and> decide h' l = Some (Inl e))
    | None \<Rightarrow> False"
proof (cases "parts_size p > max_head_bytes l")
  case True
  with convert_head_over_limit [OF assms] show ?thesis by simp
next
  case False
  then have le: "parts_size p \<le> max_head_bytes l" by simp
  have "decide h l \<noteq> None"
    using parse_head_region_ok [OF assms(1)] decide_total [of h l] by (auto simp: parsed_head_ok_def)
  with False convert_head_carries [OF assms le] decide_same_head [of h _ l] show ?thesis
    by (fastforce split: option.split sum.split)
qed

definition sample_parts :: http_parts where
  "sample_parts =
     \<lparr>ht_method = ''GET'', ht_scheme = None, ht_path_and_query = Some ''/a?b'', ht_uri = ''/a?b'',
      ht_version = WireHttp11, ht_fields = [(''host'', ''x'')]\<rparr>"

theorem bridge_decides_as_native_witness:
  "\<exists>h'. convert_head sample_parts default_limits = Some (Inr h') \<and> decide h' default_limits = Some (Inr BodyNone)"
proof -
  let ?h = "head_new Get (ByteStr ''/a?b'') Http11 [(Host, ''x'')]"
  from sample_parses obtain h where "parse_head_region sample_httparse sample_region 30 default_limits = Inr h"
    by (auto simp: parse_head_def return_iff split: option.splits if_splits)
  moreover have "validate_request_target ''/a?b'' Get = Inr ()"
    by (simp add: validate_request_target_ok validate_target_form_def uri_char_def ascii_defs)
  moreover have m: "method_from_bytes ''GET'' = Some Get" "header_from_bytes ''Host'' = Some Host"
    "header_from_bytes ''host'' = Some Host" by code_simp+
  moreover have "take 30 sample_region = sample_region" by (simp add: sample_region_def)
  moreover have "prescan sample_region = Inr ()" by (simp add: prescan_strict_lines sample_region_def)
  ultimately have r: "parse_head_region sample_httparse sample_region 30 default_limits = Inr ?h"
    by (simp add: parse_head_region_def sample_httparse_def finish_parse_head_def
        version_from_httparse_def parse_method_def from_utf8_iff from_utf8_def utf8_valid_ascii
        is_ascii_def parse_field_name_def default_limits_def HEADER_SCRATCH_TIER1_def)
  have "carries_head sample_parts ?h"
    using m by (simp add: carries_head_def sample_parts_def method_of_parts_def target_of_parts_def from_wire_def
        head_new_def all_values_def intern_def)
  moreover have "parts_size sample_parts \<le> max_head_bytes default_limits"
    by (simp add: parts_size_def sample_parts_def target_of_parts_def REQUEST_LINE_FIXED_def HEAD_TERMINATOR_def
        default_limits_def)
  moreover have "decide (sample_head Get ''/a?b'' [(Host, ''x'')]) default_limits = Some (Inr BodyNone)"
    by (simp add: decide_eq framing_eval)
  then have "decide ?h default_limits = Some (Inr BodyNone)" by (simp add: sample_head_def)
  ultimately show ?thesis using bridge_decides_as_native [OF r, of sample_parts] by fastforce
qed

section \<open>The response\<close>

text \<open>
  What the crate \<^verbatim>\<open>http\<close> documents: a field name is a token and is lowered, a field value has no
  control byte but the tab.
\<close>

definition field_byte :: "byte \<Rightarrow> bool" where
  "field_byte b \<longleftrightarrow> b = HT \<or> (32 \<le> byte_of b \<and> byte_of b \<noteq> 127)"

definition http_lib_ok :: "http_lib \<Rightarrow> bool" where
  "http_lib_ok lib \<longleftrightarrow>
     (\<forall>n. hl_name lib n = (if valid_field_name n then Some (lower n) else None))
     \<and> (\<forall>v. hl_value lib v = (if list_all field_byte v then Some v else None))"

definition plain_value :: "bytes \<Rightarrow> bool" where
  "plain_value v \<longleftrightarrow> (valid_field_value v \<longrightarrow> list_all field_byte v)"

definition plain_fields :: "header_vec \<Rightarrow> bool" where
  "plain_fields hs \<longleftrightarrow>
     list_all (\<lambda>(i, v). header_ok i \<and> plain_value v \<and> (canonical i = Server \<longrightarrow> valid_field_value v)) hs"

lemma canonical_otherD: "canonical i = OtherHeader s \<Longrightarrow> i = OtherHeader s"
  by (cases i) (auto simp: canonical_OtherHeader well_known_def dest: header_from_bytes_SomeD split: option.splits)

lemma into_canonical_eq: "into_canonical i = canonical i"
  by (cases "canonical i") (auto simp: into_canonical_def dest: canonical_otherD)

lemma field_bytes_valid: "list_all field_byte v \<Longrightarrow> valid_field_value v"
proof -
  have "\<not> field_byte CR" "\<not> field_byte LF" "\<not> field_byte (CHR 0x00)" by (simp_all add: field_byte_def)
  then have "field_byte b \<Longrightarrow> \<not> (b = CR \<or> b = LF \<or> b = CHR 0x00)" for b by blast
  then show "list_all field_byte v \<Longrightarrow> valid_field_value v"
    unfolding valid_field_value_def list_all_iff list_ex_iff by blast
qed

lemma tchar_field_byte: "is_tchar b \<Longrightarrow> field_byte b"
  by (auto simp: is_tchar_def field_byte_def ascii_defs)

lemma is_tchar_of_lower: "is_tchar (to_ascii_lowercase b) \<Longrightarrow> is_tchar b"
  by (auto simp: to_ascii_lowercase_def is_tchar_def ascii_defs)

lemma writable_well_known: "well_known i \<Longrightarrow> writable i v \<longleftrightarrow> valid_field_value v"
  by (cases i) (simp_all add: writable_def well_known_def)

lemma valid_name_canonical:
  assumes "byte_str_ok s" and "valid_field_name (header_as_str (canonical (OtherHeader s)))"
  shows "valid_field_name (as_str s)"
proof (cases "header_from_bytes (as_bytes s)")
  case None
  with assms(2) show ?thesis by (simp add: canonical_OtherHeader)
next
  case (Some k)
  then have k: "well_known k" "lower (as_bytes s) = header_as_str k" by (auto dest: header_from_bytes_SomeD)
  from well_known_name_ok [OF k(1)] have "lower (as_bytes s) \<noteq> []" "list_all is_tchar (lower (as_bytes s))"
    by (simp_all add: k(2) valid_field_name_def)
  then have "valid_field_name (as_bytes s)"
    by (auto simp: valid_field_name_def list_all_iff intro: is_tchar_of_lower)
  with assms(1) show ?thesis by (simp add: byte_str_ok_def as_str_def)
qed

lemma writable_iff:
  assumes "header_ok i" and "plain_value v"
  shows "writable i v \<longleftrightarrow> valid_field_name (header_as_str (canonical i)) \<and> list_all field_byte v"
proof (cases "well_known i")
  case True
  with assms(2) field_bytes_valid [of v] show ?thesis
    by (auto simp: writable_well_known well_known_name_ok plain_value_def)
next
  case False
  then obtain s where i: "i = OtherHeader s" by (cases i) (auto simp: well_known_def)
  with assms(1) have "valid_field_name (as_str s) \<longleftrightarrow> valid_field_name (header_as_str (canonical i))"
    using valid_name_canonical [of s] writable_name_ok [of i "[]"]
    by (auto simp: writable_def valid_field_value_def)
  with i assms(2) field_bytes_valid [of v] show ?thesis
    by (auto simp: writable_def plain_value_def)
qed

text \<open>What the bridge passes on of one field.\<close>

definition passed_field :: "nat \<Rightarrow> nat \<Rightarrow> bool \<Rightarrow> nat option \<Rightarrow> header_id \<times> bytes \<Rightarrow> wire_fields" where
  "passed_field lens st head_request body_len f =
     (case f of (i, v) \<Rightarrow>
        if canonical i = ContentLength \<and> handler_length_is_stale v lens st head_request body_len False then []
        else if canonical i = TransferEncoding \<or> canonical i = Connection \<or> \<not> writable i v then []
        else [(lower (header_as_str (canonical i)), v)])"

definition field_tokens :: "header_vec \<Rightarrow> bytes list" where
  "field_tokens hs = concat (map (\<lambda>(i, v). if canonical i = Connection then connection_tokens v else []) hs)"

lemma convert_response_fields_eq:
  assumes "http_lib_ok lib" and "plain_fields hs"
  shows "convert_response_fields lib lens st hr bl hs (out, srv, tokens) =
    (out @ concat (map (passed_field lens st hr bl) hs), srv \<or> list_ex (\<lambda>(i, v). canonical i = Server) hs,
     tokens @ field_tokens hs)"
  using assms(2)
proof (induction hs arbitrary: out srv tokens)
  case (Cons f hs)
  obtain i v where f: "f = (i, v)" by (cases f)
  with Cons.prems have p: "header_ok i" "plain_value v" "canonical i = Server \<Longrightarrow> valid_field_value v" "plain_fields hs"
    by (simp_all add: plain_fields_def)
  have srv: "canonical i = Server \<Longrightarrow> valid_field_name (header_as_str Server) \<and> list_all field_byte v"
    using p(2,3) well_known_name_ok [of Server] by (simp add: plain_value_def well_known_def)
  have lib: "hl_name lib (header_as_str (canonical i)) =
      (if valid_field_name (header_as_str (canonical i)) then Some (lower (header_as_str (canonical i))) else None)"
    "hl_value lib v = (if list_all field_byte v then Some v else None)"
    using assms(1) by (auto simp: http_lib_ok_def)
  note IH = Cons.IH [OF p(4)]
  show ?case
  proof (cases "canonical i \<in> {TransferEncoding, Connection}")
    case True
    then show ?thesis by (auto simp: f IH into_canonical_eq passed_field_def field_tokens_def)
  next
    case False
    then show ?thesis
      using srv writable_iff [OF p(1,2)]
      by (simp add: f IH into_canonical_eq Let_def lib passed_field_def field_tokens_def)
         auto
  qed
qed (simp add: field_tokens_def)

text \<open>The tokens a recipient reads in the Connection fields.\<close>

definition tokens_on :: "wire_fields \<Rightarrow> bytes list" where
  "tokens_on fs = concat (map (\<lambda>v. map trim_ows (split_commas v)) (wire_values ''connection'' fs))"

lemma tokens_on_append [simp]: "tokens_on (a @ b) = tokens_on a @ tokens_on b" "tokens_on [] = []"
  by (simp_all add: tokens_on_def)

lemma tokens_on_other: "wire_values ''connection'' fs = [] \<Longrightarrow> tokens_on fs = []"
  by (simp add: tokens_on_def)

lemma tokens_on_joined:
  assumes "\<forall>t \<in> set ts. list_all is_tchar t" and "ts \<noteq> []"
  shows "tokens_on [(''connection'', join_tokens ts)] = ts"
  using join_tokens_split [OF assms] by (simp add: tokens_on_def wire_values_other_name not_framing_names)

lemma connection_field_tokens:
  "connection_field v ka = Some t \<Longrightarrow> list_all is_tchar t \<and> tokens_on [(''connection'', t)] = [t]"
proof -
  assume "connection_field v ka = Some t"
  then have "t = ''close'' \<or> t = ''keep-alive''"
    by (cases v; cases ka) (auto simp: connection_field_def)
  then have "list_all is_tchar t" by (auto simp: is_tchar_def ascii_defs)
  with tokens_on_joined [of "[t]"] show ?thesis by simp
qed

lemma connection_tokens_all_tchar: "\<forall>t \<in> set (connection_tokens v). list_all is_tchar t"
  by (auto dest!: connection_tokens_tchar simp: connection_token_ok_def)

lemma field_tokens_tchar: "\<forall>t \<in> set (field_tokens hs). list_all is_tchar t"
  using connection_tokens_all_tchar by (fastforce simp: field_tokens_def split: if_splits)

lemma wire_values_lower: "wire_values n [(lower m, v)] = wire_values n [(m, v)]"
  by (simp add: wire_values_def eq_ignore_ascii_case_iff comp_def)

lemma wire_values_Nil_name: "lower n \<noteq> lower m \<Longrightarrow> wire_values n [(m, v)] = []"
  by (simp add: wire_values_def eq_ignore_ascii_case_iff)

lemma passed_field_values:
  "wire_values n (passed_field lens st hr bl (i, v)) =
     (if canonical i = ContentLength \<and> handler_length_is_stale v lens st hr bl False then []
      else if canonical i = TransferEncoding \<or> canonical i = Connection \<or> \<not> writable i v then []
      else wire_values n [(header_as_str (canonical i), v)])"
  unfolding passed_field_def by (simp only: prod.case if_distrib [of "wire_values n"] wire_values_lower wire_values_append)

lemma passed_as_kept:
  assumes "lower n \<notin> {''content-length'', ''transfer-encoding'', ''connection''}"
  shows "wire_values n (concat (map (passed_field lens st hr bl) hs)) = wire_values n (concat (map (kept_field sl ste) hs))"
proof (induction hs)
  case (Cons f hs)
  obtain i v where f: "f = (i, v)" by (cases f)
  have low: "lower ''content-length'' = ''content-length''" "lower ''transfer-encoding'' = ''transfer-encoding''"
    "lower ''connection'' = ''connection''" by code_simp+
  have "wire_values n (passed_field lens st hr bl (i, v)) = wire_values n (kept_field sl ste (i, v))"
    using assms low
    by (cases "canonical i \<in> {ContentLength, TransferEncoding, Connection}")
       (auto simp: passed_field_values kept_field_def connection_value_def wire_values_Nil_name)
  with Cons f show ?case by simp
qed simp

lemma passed_values:
  "wire_values ''content-length'' (concat (map (passed_field lens st hr bl) hs)) =
     filter (\<lambda>v. \<not> handler_length_is_stale v lens st hr bl False) (handler_values ContentLength hs)"
  "wire_values ''transfer-encoding'' (concat (map (passed_field lens st hr bl) hs)) = []"
  "wire_values ''connection'' (concat (map (passed_field lens st hr bl) hs)) = []"
proof (induction hs)
  case (Cons f hs)
  obtain i v where f: "f = (i, v)" by (cases f)
  have nm: "writable i v \<Longrightarrow> eq_ignore_ascii_case (header_as_str (canonical i)) (header_as_str k) \<longleftrightarrow> canonical i = k"
    if "well_known k" for k using canonical_name_iff that by blast
  have "wire_values ''content-length'' (passed_field lens st hr bl (i, v)) =
      filter (\<lambda>v. \<not> handler_length_is_stale v lens st hr bl False) (handler_values ContentLength [(i, v)])"
    "wire_values ''transfer-encoding'' (passed_field lens st hr bl (i, v)) = []"
    "wire_values ''connection'' (passed_field lens st hr bl (i, v)) = []"
    using nm [of ContentLength] nm [of TransferEncoding] nm [of Connection]
    by (auto simp: passed_field_values handler_values_def well_known_def wire_values_other_name)
  moreover have "handler_values ContentLength (f # hs) = handler_values ContentLength [(i, v)] @ handler_values ContentLength hs"
    by (simp add: handler_values_def f)
  ultimately show "wire_values ''content-length'' (concat (map (passed_field lens st hr bl) (f # hs))) =
     filter (\<lambda>v. \<not> handler_length_is_stale v lens st hr bl False) (handler_values ContentLength (f # hs))"
    "wire_values ''transfer-encoding'' (concat (map (passed_field lens st hr bl) (f # hs))) = []"
    "wire_values ''connection'' (concat (map (passed_field lens st hr bl) (f # hs))) = []"
    using Cons.IH by (simp_all add: f)
qed (simp_all add: handler_values_def)

lemma kept_tokens: "tokens_on (concat (map (kept_field sl ste) hs)) = field_tokens hs"
proof (induction hs)
  case (Cons f hs)
  obtain i v where f: "f = (i, v)" by (cases f)
  have "tokens_on (kept_field sl ste (i, v)) = (if canonical i = Connection then connection_tokens v else [])"
  proof (cases "canonical i = Connection")
    case True
    then show ?thesis
      using tokens_on_joined [OF connection_tokens_all_tchar [of v]] by (simp add: kept_field_def connection_value_def)
  next
    case False
    with canonical_name_iff [of i v Connection] show ?thesis
      by (auto simp: kept_field_def well_known_def wire_values_other_name intro!: tokens_on_other)
  qed
  with Cons f show ?case by (simp add: field_tokens_def)
qed (simp add: field_tokens_def)

lemma kept_same:
  assumes "lower n \<notin> {''content-length'', ''transfer-encoding'', ''connection''}"
  shows "wire_values n (concat (map (kept_field sl ste) hs)) = wire_values n (concat (map (kept_field sl' ste') hs))"
  using passed_as_kept [OF assms, of 0 0 False None hs] by metis

lemma lower_framing_names:
  "lower ''content-length'' = ''content-length''" "lower ''transfer-encoding'' = ''transfer-encoding''"
  "lower ''connection'' = ''connection''" "lower ''date'' = ''date''"
  by code_simp+

lemma framing_fields_other:
  assumes "lower n \<notin> {''content-length'', ''transfer-encoding''}"
  shows "wire_values n (framing_fields v body) = []"
  using assms lower_framing_names by (auto simp: framing_fields_def wire_values_Nil_name split: out_body.split)

lemma head_fields_other:
  assumes "lower n \<notin> {''content-length'', ''transfer-encoding'', ''connection'', ''date''}"
  shows "wire_values n (head_fields v r body date ka hr) = wire_values n (concat (map (kept_field False False) (resp_headers r)))"
proof -
  have "wire_values n [(m, x)] = []" if "m = ''date'' \<or> m = ''connection''" for m x
    using assms that lower_framing_names by (intro wire_values_Nil_name) auto
  then show ?thesis
    using assms framing_fields_other [of n v body] kept_same [of n _ _ "resp_headers r" False False]
    by (simp add: head_fields_def Let_def split: option.split)
qed

lemma head_fields_date:
  "wire_values ''date'' (head_fields v r body date ka hr) =
     (if handler_values Date (resp_headers r) = [] then [date] else handler_values Date (resp_headers r))"
proof -
  have "wire_values ''date'' [(''connection'', x)] = []" "wire_values ''date'' [(''date'', x)] = [x]" for x
    using wire_values_Nil_name [of "''date''" "''connection''"] not_framing_names(7) [of "''date''"] lower_framing_names
    by (simp_all add: wire_values_other_name)
  moreover have "wire_values ''date'' (framing_fields v body) = []"
    using lower_framing_names by (intro framing_fields_other) simp
  ultimately show ?thesis
    using kept_values [of Date _ _ "resp_headers r"]
    by (simp add: head_fields_def Let_def scan_eq well_known_def split: option.split)
qed

lemma head_fields_tokens:
  "tokens_on (head_fields v r body date ka hr) =
     field_tokens (resp_headers r)
     @ (if resp_status r \<noteq> 101 then (case connection_field v ka of Some t \<Rightarrow> [t] | None \<Rightarrow> []) else [])"
proof -
  have "tokens_on [(''date'', x)] = []" "tokens_on (framing_fields v body) = []" for x
    using wire_values_Nil_name [of "''connection''" "''date''"] framing_fields_other [of "''connection''"]
      lower_framing_names by (auto intro!: tokens_on_other)
  then show ?thesis
    using connection_field_tokens [of v ka] by (simp add: head_fields_def Let_def kept_tokens split: option.split)
qed

text \<open>The fields with the configured server name, and the one Connection field the bridge writes.\<close>

definition with_server :: "conn_config \<Rightarrow> header_vec \<Rightarrow> header_vec" where
  "with_server cfg hs =
     (case cfg_server_name cfg of
        Some name \<Rightarrow> if \<not> list_ex (\<lambda>(i, _). canonical i = Server) hs then hs @ [(Server, name)] else hs
      | None \<Rightarrow> hs)"

definition joined_connection :: "bytes list \<Rightarrow> bytes option \<Rightarrow> wire_fields" where
  "joined_connection ts own =
     (case own of
        Some t \<Rightarrow> [(''connection'', join_tokens (ts @ [t]))]
      | None \<Rightarrow> if ts = [] then [] else [(''connection'', join_tokens ts)])"

lemma with_server_values:
  "k \<noteq> Server \<Longrightarrow> handler_values k (with_server cfg hs) = handler_values k hs"
  "field_tokens (with_server cfg hs) = field_tokens hs"
  by (auto simp: with_server_def handler_values_def field_tokens_def split: option.split)

lemma joined_connection_tokens:
  assumes "own = (if st \<noteq> (101::nat) then connection_field v ka else None)"
  shows "tokens_on (joined_connection (field_tokens hs) own) =
      field_tokens hs @ (case own of Some t \<Rightarrow> [t] | None \<Rightarrow> [])"
proof (cases own)
  case None
  then show ?thesis using tokens_on_joined [OF field_tokens_tchar [of hs]] by (simp add: joined_connection_def)
next
  case (Some t)
  with assms have "list_all is_tchar t" using connection_field_tokens [of v ka t] by (simp split: if_splits)
  then have "\<forall>u \<in> set (field_tokens hs @ [t]). list_all is_tchar u" using field_tokens_tchar [of hs] by simp
  from tokens_on_joined [OF this] Some show ?thesis by (simp add: joined_connection_def)
qed

lemma token_bytes: "list_all is_tchar t \<Longrightarrow> list_all field_byte t"
  by (induction t) (simp_all add: tchar_field_byte)

lemma sep_tokens_bytes: "\<forall>t \<in> set ts. list_all is_tchar t \<Longrightarrow> list_all field_byte (sep_tokens ts)"
proof (induction ts)
  case (Cons t ts)
  have "field_byte (CHR '','')" "field_byte SP" by (simp_all add: field_byte_def)
  with Cons token_bytes [of t] show ?case by simp
qed simp

lemma join_tokens_bytes: "\<forall>t \<in> set ts. list_all is_tchar t \<Longrightarrow> list_all field_byte (join_tokens ts)"
  using sep_tokens_bytes token_bytes by (cases ts) simp_all

lemma length_count:
  assumes "plain_fields hs"
  shows "length (filter (\<lambda>(i, val). canonical i = ContentLength \<and> valid_field_value val) hs)
    = length (handler_values ContentLength hs)"
proof -
  have "canonical i = ContentLength \<and> valid_field_value v \<longleftrightarrow> writable i v \<and> canonical i = ContentLength"
    if "(i, v) \<in> set hs" for i v
  proof -
    have ok: "header_ok i" "plain_value v" using assms that by (auto simp: plain_fields_def list_all_iff)
    show ?thesis
      using writable_iff [OF ok] ok(2) field_bytes_valid [of v] well_known_name_ok [of ContentLength]
      by (auto simp: plain_value_def well_known_def)
  qed
  then show ?thesis unfolding handler_values_def length_map by (intro arg_cong [of _ _ length] filter_cong) auto
qed

lemma convert_response_eq:
  assumes "http_lib_ok lib" and "plain_fields (rsp_headers resp)"
    and "\<forall>name. cfg_server_name cfg = Some name \<longrightarrow> plain_value name"
    and "100 \<le> rsp_status resp" and "rsp_status resp \<le> 999"
    and "body = (if forbids_body_framing (rsp_status resp) then RespEmpty else rsp_body resp)"
    and "ka' = (ka \<and> \<not> list_ex (\<lambda>(i, v). canonical i = Connection \<and> value_has_token v ''close'') (rsp_headers resp))"
  shows "fst (convert_response lib cfg resp v c ka hr) =
    \<lparr>br_status = rsp_status resp, br_version = wire_version_of v,
     br_fields =
       concat (map (passed_field (length (handler_values ContentLength (rsp_headers resp))) (rsp_status resp) hr
           (body_len_of (out_body_of body))) (with_server cfg (rsp_headers resp)))
       @ joined_connection (field_tokens (rsp_headers resp))
           (if rsp_status resp \<noteq> 101 then connection_field v ka' else None),
     br_body = fst (out_body_new body c)\<rparr>"
proof -
  let ?hs = "rsp_headers resp" and ?st = "rsp_status resp"
  let ?own = "if ?st \<noteq> 101 then connection_field v ka' else None"
  let ?pass = "passed_field (length (handler_values ContentLength ?hs)) ?st hr (body_len_of (out_body_of body))"
  have val: "hl_value lib x = (if list_all field_byte x then Some x else None)" for x
    using assms(1) by (simp add: http_lib_ok_def)
  have len: "(case body of RespEmpty \<Rightarrow> Some 0 | RespFull b \<Rightarrow> Some (length b) | RespStream _ \<Rightarrow> None) = body_len_of (out_body_of body)"
    by (simp add: body_len_of_def out_body_of_def split: response_body.split)
  have srv: "?pass (Server, name) = (if list_all field_byte name then [(''server'', name)] else [])"
    if "cfg_server_name cfg = Some name" for name
    using writable_iff [of Server name] assms(3) that well_known_name_ok [of Server]
    by (simp add: passed_field_def well_known_def to_ascii_lowercase_def ascii_defs)
  have server: "(case cfg_server_name cfg of
        Some name \<Rightarrow>
          if \<not> list_ex (\<lambda>(i, v). canonical i = Server) ?hs
          then (case hl_value lib name of Some x \<Rightarrow> concat (map ?pass ?hs) @ [(''server'', x)] | None \<Rightarrow> concat (map ?pass ?hs))
          else concat (map ?pass ?hs)
      | None \<Rightarrow> concat (map ?pass ?hs)) = concat (map ?pass (with_server cfg ?hs))"
    by (simp add: with_server_def val srv split: option.split)
  have own: "list_all is_tchar t" if "?own = Some t" for t
    using that connection_field_tokens [of v ka' t] by (simp split: if_splits)
  have conn: "(if field_tokens ?hs = [] then (case ?own of Some t \<Rightarrow> out @ [(''connection'', t)] | None \<Rightarrow> out)
      else (let tokens = (case ?own of Some t \<Rightarrow> field_tokens ?hs @ [t] | None \<Rightarrow> field_tokens ?hs)
            in case hl_value lib (join_tokens tokens) of Some x \<Rightarrow> out @ [(''connection'', x)] | None \<Rightarrow> out))
      = out @ joined_connection (field_tokens ?hs) ?own" for out
    using own field_tokens_tchar [of ?hs] join_tokens_bytes [of "field_tokens ?hs"]
      join_tokens_bytes [of "field_tokens ?hs @ [t]" for t]
    by (cases ?own) (simp_all add: joined_connection_def val)
  obtain b c' where b: "out_body_new body c = (b, c')" by (cases "out_body_new body c")
  note defs = convert_response_def convert_response_fields_eq [OF assms(1,2), of _ _ _ _ "[]" False "[]"]
  show ?thesis
    using assms(4,5) b
    by (simp only: defs assms(6) [symmetric] assms(7) [symmetric] length_count [OF assms(2)] len Let_def
        if_True simp_thms append_Nil prod.case server conn [unfolded Let_def] fst_conv)
qed

text \<open>The response both backends settle on: the handler's, or a bare 500 for a status that is not final.\<close>

definition settled_response :: "head \<Rightarrow> response \<Rightarrow> response" where
  "settled_response h resp = (if is_final_status (rsp_status resp) (wants_upgrade h) then resp else response_new 500)"

lemma settled_status:
  "100 \<le> rsp_status (settled_response h resp)" "rsp_status (settled_response h resp) \<le> 999"
  by (auto simp: settled_response_def is_final_status_def response_new_def)

lemma settled_plain: "plain_fields (rsp_headers resp) \<Longrightarrow> plain_fields (rsp_headers (settled_response h resp))"
  by (simp add: settled_response_def response_new_def plain_fields_def)

definition native_plan :: "env \<Rightarrow> head \<Rightarrow> response \<Rightarrow> bool \<Rightarrow> response_plan" where
  "native_plan env h resp fully_read =
     plan_response env (head_version h) resp (is_keep_alive h \<and> fully_read) (head_method h = Head) (wants_upgrade h) fully_read"

definition native_fields :: "env \<Rightarrow> head \<Rightarrow> response \<Rightarrow> bool \<Rightarrow> bytes \<Rightarrow> wire_fields" where
  "native_fields env h resp fully_read date =
     (let p = native_plan env h resp fully_read in
      head_fields (head_version h) \<lparr>resp_status = rp_status p, resp_headers = rp_headers p\<rparr>
        (out_body_of (rp_body p)) date (rp_keep_alive p) (head_method h = Head))"

lemma native_plan_settled:
  assumes "p = native_plan env h resp fully" and "r = settled_response h resp"
  shows "rp_status p = rsp_status r" "rp_headers p = with_server (e_config env) (rsp_headers r)" "rp_body p = rsp_body r"
  using assms
  by (cases "is_final_status (rsp_status resp) (wants_upgrade h)";
      simp add: native_plan_def plan_response_def settled_response_def response_new_def with_server_def Let_def)+

text \<open>Whether the connection persists, as the bridge tells hyper.\<close>

definition bridge_keeps :: "head \<Rightarrow> response \<Rightarrow> bool \<Rightarrow> bool" where
  "bridge_keeps h resp fully_read =
     (let r = settled_response h resp;
          upgrading = (rsp_status r = 101 \<and> wants_upgrade h \<and> fully_read)
      in is_keep_alive h
         \<and> \<not> (\<not> upgrading \<and> (\<not> fully_read \<or> \<not> is_final_status (rsp_status resp) (wants_upgrade h)))
         \<and> \<not> (head_version h = Http10 \<and> (case rsp_body r of RespStream _ \<Rightarrow> True | _ \<Rightarrow> False)
              \<and> head_method h \<noteq> Head \<and> \<not> forbids_body_framing (rsp_status r)))"

lemma bridge_keeps_native:
  assumes "p = native_plan env h resp fully" and "r = settled_response h resp" and "rsp_status r \<noteq> 101"
  shows "(bridge_keeps h resp fully
      \<and> \<not> list_ex (\<lambda>(i, v). canonical i = Connection \<and> value_has_token v ''close'') (rsp_headers r)) = rp_keep_alive p"
  using assms
  by (auto simp: native_plan_def plan_response_def bridge_keeps_def settled_response_def response_new_def Let_def)

lemma bridge_respond_eq:
  assumes "bridge_respond lib cfg h resp fully now c = (br, up, c')"
  shows "\<exists>c0. br = fst (convert_response lib cfg (settled_response h resp) (head_version h) c0
        (bridge_keeps h resp fully) (head_method h = Head))
    \<and> up = (rsp_status (settled_response h resp) = 101 \<and> wants_upgrade h \<and> fully)"
proof -
  have s: "(if \<not> is_final_status (rsp_status resp) (wants_upgrade h) then response_new 500 else resp) = settled_response h resp"
    by (simp add: settled_response_def)
  have pair: "(case q of (r, c) \<Rightarrow> (r, u, c)) = (br, up, c') \<Longrightarrow> br = fst q \<and> up = u"
    for q :: "bridge_response \<times> phase_clock" and u by (cases q) simp
  from pair [OF assms [unfolded bridge_respond_def Let_def s]] show ?thesis
    unfolding bridge_keeps_def Let_def by blast
qed

lemma lengths_agree:
  assumes "body = (if forbids_body_framing st then RespEmpty else b)"
  shows "filter (\<lambda>v. \<not> handler_length_is_stale v (length lens) st hr (body_len_of (out_body_of body)) False) lens
    \<in> {[], fst (written_framing v st (out_body_of b) hr lens [])}"
proof -
  have stale: "handler_length_is_stale x n st hr (body_len_of (out_body_of body)) False =
      handler_length_is_stale x n st hr (body_len_of (out_body_of b)) False" for x n
    using assms by (simp add: handler_length_is_stale_def Let_def)
  consider "lens = []" | x where "lens = [x]" | "length lens > 1" by (cases lens; cases "tl lens") auto
  then show ?thesis
  proof cases
    case 3
    then have "handler_length_is_stale x (length lens) st hr bl False" for x bl
      by (simp add: handler_length_is_stale_def)
    then show ?thesis by simp
  qed (auto simp: stale written_framing_def stale_len_values_def stale_te_values_def)
qed

lemma bridge_respond_settled:
  assumes "http_lib_ok lib" and "plain_fields (rsp_headers resp)"
    and "\<forall>name. cfg_server_name (e_config env) = Some name \<longrightarrow> plain_value name"
    and "bridge_respond lib (e_config env) h resp fully now c = (br, up, c')"
    and "p = native_plan env h resp fully" and "r = settled_response h resp"
    and "body = (if forbids_body_framing (rsp_status r) then RespEmpty else rsp_body r)"
    and "own = (if rsp_status r \<noteq> 101 then connection_field (head_version h) (rp_keep_alive p) else None)"
  shows "\<exists>c0. br = \<lparr>br_status = rsp_status r, br_version = wire_version_of (head_version h),
      br_fields =
        concat (map (passed_field (length (handler_values ContentLength (rsp_headers r))) (rsp_status r)
          (head_method h = Head) (body_len_of (out_body_of body))) (with_server (e_config env) (rsp_headers r)))
        @ joined_connection (field_tokens (rsp_headers r)) own,
      br_body = fst (out_body_new body c0)\<rparr>"
    and "up = rp_upgrading p"
proof -
  from bridge_respond_eq [OF assms(4), folded assms(6)] obtain c0 where
    cr: "br = fst (convert_response lib (e_config env) r (head_version h) c0 (bridge_keeps h resp fully) (head_method h = Head))"
    and up: "up = (rsp_status r = 101 \<and> wants_upgrade h \<and> fully)" by blast
  show "\<exists>c0. br = \<lparr>br_status = rsp_status r, br_version = wire_version_of (head_version h),
      br_fields =
        concat (map (passed_field (length (handler_values ContentLength (rsp_headers r))) (rsp_status r)
          (head_method h = Head) (body_len_of (out_body_of body))) (with_server (e_config env) (rsp_headers r)))
        @ joined_connection (field_tokens (rsp_headers r)) own,
      br_body = fst (out_body_new body c0)\<rparr>"
    unfolding cr convert_response_eq [OF assms(1) settled_plain [OF assms(2), of h, folded assms(6)] assms(3)
        settled_status [of h resp, folded assms(6)] assms(7) refl]
    using bridge_keeps_native [OF assms(5,6)] assms(8) by auto
  show "up = rp_upgrading p"
    using up assms(5,6) by (auto simp: settled_response_def response_new_def native_plan_def plan_response_def
        is_final_status_def Let_def split: if_splits)
qed

lemma native_fields_settled:
  assumes "p = native_plan env h resp fully" and "r = settled_response h resp"
  shows "native_fields env h resp fully date =
    head_fields (head_version h) \<lparr>resp_status = rsp_status r, resp_headers = with_server (e_config env) (rsp_headers r)\<rparr>
      (out_body_of (rsp_body r)) date (rp_keep_alive p) (head_method h = Head)"
  unfolding native_fields_def Let_def assms(1) [symmetric] native_plan_settled [OF assms] ..

text \<open>C36. The hyper backend answers as the native one does, where the http crate can carry the answer: the
  crate takes the names and values it is documented to take, no value that the native writer would
  write (the handler's, or the configured server name) has a control byte other than tab in it, and
  a Server field of the handler has a value that can be written.  Then for the same response of the
  handler, to the same request, with its body read to its end or not, the bridge gives hyper a
  response with the status and version the native writer puts on the wire, the same body (none
  where the status forbids one), the same Connection tokens, so the same verdict on the connection,
  the same decision to upgrade, and the same values in the same order for every field name but
  Content-Length, Transfer-Encoding and Date.  Of these three, no Transfer-Encoding is given to
  hyper, which writes its own; a Date, or a Content-Length of a handler that sets no
  Transfer-Encoding, is either left for hyper to write or the native one.\<close>

theorem bridge_response_as_native:
  assumes "http_lib_ok lib" and "plain_fields (rsp_headers resp)"
    and "\<forall>name. cfg_server_name (e_config env) = Some name \<longrightarrow> plain_value name"
    and "bridge_respond lib (e_config env) h resp fully now c = (br, up, c')"
    and "p = native_plan env h resp fully" and "fs = native_fields env h resp fully date"
  shows "br_status br = rp_status p \<and> from_wire (br_version br) = Some (head_version h) \<and> up = rp_upgrading p
    \<and> ob_body (br_body br) = (if forbids_body_framing (rp_status p) then RespEmpty else rp_body p)
    \<and> tokens_on (br_fields br) = tokens_on fs
    \<and> (\<forall>n. lower n \<notin> {''content-length'', ''transfer-encoding'', ''connection'', ''date''} \<longrightarrow>
         wire_values n (br_fields br) = wire_values n fs)
    \<and> wire_values ''transfer-encoding'' (br_fields br) = []
    \<and> wire_values ''date'' (br_fields br) \<in> {[], wire_values ''date'' fs}
    \<and> (handler_values TransferEncoding (rsp_headers resp) = [] \<longrightarrow>
         wire_values ''content-length'' (br_fields br) \<in> {[], wire_values ''content-length'' fs})"
proof -
  define r where "r = settled_response h resp"
  define body where "body = (if forbids_body_framing (rsp_status r) then RespEmpty else rsp_body r)"
  let ?hs = "with_server (e_config env) (rsp_headers r)"
  let ?pass = "concat (map (passed_field (length (handler_values ContentLength (rsp_headers r))) (rsp_status r)
      (head_method h = Head) (body_len_of (out_body_of body))) ?hs)"
  define own where "own = (if rsp_status r \<noteq> 101 then connection_field (head_version h) (rp_keep_alive p) else None)"
  note pl = native_plan_settled [OF assms(5) r_def]
  from bridge_respond_settled(1) [OF assms(1-5) r_def body_def own_def] obtain c0 where
    br: "br = \<lparr>br_status = rsp_status r, br_version = wire_version_of (head_version h),
      br_fields = ?pass @ joined_connection (field_tokens (rsp_headers r)) own, br_body = fst (out_body_new body c0)\<rparr>"
    by blast
  note fs = assms(6) [unfolded native_fields_settled [OF assms(5) r_def]]
  have conn: "wire_values n (joined_connection ts own) = []" if "lower n \<noteq> ''connection''" for n ts
    using that lower_framing_names by (auto simp: joined_connection_def wire_values_Nil_name split: option.split)
  note bridge_respond_settled(2) [OF assms(1-5) r_def body_def own_def]
  moreover have "tokens_on (br_fields br) = tokens_on fs"
    using joined_connection_tokens [OF own_def, of "rsp_headers r"] passed_values(3) tokens_on_other
    by (simp add: br fs head_fields_tokens with_server_values own_def split: option.split)
  moreover have "wire_values n (br_fields br) = wire_values n fs"
    if "lower n \<notin> {''content-length'', ''transfer-encoding'', ''connection'', ''date''}" for n
    using that conn [of n] head_fields_other [OF that] passed_as_kept [of n] by (simp add: br fs)
  moreover have "wire_values ''date'' (br_fields br) = handler_values Date ?hs"
    using conn [of "''date''"] lower_framing_names passed_as_kept [of "''date''" _ _ _ _ ?hs False False]
      kept_values [of Date False False ?hs] by (simp add: br well_known_def)
  moreover have "wire_values ''transfer-encoding'' (br_fields br) = []"
    using conn [of "''transfer-encoding''"] lower_framing_names passed_values(2) by (simp add: br)
  moreover have "wire_values ''content-length'' (br_fields br) \<in> {[], wire_values ''content-length'' fs}"
    if "handler_values TransferEncoding (rsp_headers resp) = []"
  proof -
    have "handler_values TransferEncoding (rsp_headers r) = []"
      using that by (simp add: r_def settled_response_def response_new_def handler_values_def)
    then show ?thesis
      using conn [of "''content-length''"] lower_framing_names passed_values(1)
        lengths_agree [OF body_def, of "handler_values ContentLength (rsp_headers r)" "head_method h = Head" "head_version h"]
        arg_cong [OF head_fields_framing, of fst]
      by (simp add: br fs with_server_values)
  qed
  ultimately show ?thesis
    using pl by (auto simp: br fs head_fields_date body_def out_body_new_def Let_def from_wire_def wire_version_of_def
        split: version.split)
qed

definition sample_http_lib :: http_lib where
  "sample_http_lib =
     \<lparr>hl_name = \<lambda>n. if valid_field_name n then Some (lower n) else None,
      hl_value = \<lambda>v. if list_all field_byte v then Some v else None\<rparr>"

definition sample_bridge_env :: env where
  "sample_bridge_env =
     \<lparr>e_httparse = sample_httparse, e_date = \<lambda>_. sample_date, e_fires = \<lambda>now t. t \<le> now,
      e_service = \<lambda>_ _. \<lparr>h_acts = [], h_result = None, h_retention = Released\<rparr>,
      e_config = default_config\<lparr>cfg_server_name := Some ''h1''\<rparr>\<rparr>"

definition sample_answer :: response where
  "sample_answer =
     \<lparr>rsp_status = 200, rsp_headers = [(Connection, ''close, x''), (ContentLength, ''2''), (Vary, ''a'')],
      rsp_body = RespFull ''ok''\<rparr>"

theorem bridge_response_as_native_witness:
  "\<exists>br up c'. bridge_respond sample_http_lib (e_config sample_bridge_env) (sample_head Get ''/'' []) sample_answer True 3
       (clock_new PhHandler 0) = (br, up, c')
     \<and> br_status br = rp_status (native_plan sample_bridge_env (sample_head Get ''/'' []) sample_answer True)
     \<and> tokens_on (br_fields br) = tokens_on (native_fields sample_bridge_env (sample_head Get ''/'' []) sample_answer True sample_date)"
proof -
  obtain br up c' where b: "bridge_respond sample_http_lib (e_config sample_bridge_env) (sample_head Get ''/'' []) sample_answer True 3
      (clock_new PhHandler 0) = (br, up, c')" by (metis prod_cases3)
  have "http_lib_ok sample_http_lib" by (simp add: http_lib_ok_def sample_http_lib_def)
  moreover have "plain_fields (rsp_headers sample_answer)"
    by (simp add: sample_answer_def plain_fields_def plain_value_def field_byte_def header_ok_def)
  moreover have "\<forall>name. cfg_server_name (e_config sample_bridge_env) = Some name \<longrightarrow> plain_value name"
    by (simp add: sample_bridge_env_def plain_value_def field_byte_def)
  ultimately show ?thesis using bridge_response_as_native [OF _ _ _ b refl refl] b by blast
qed

end
