(* ===== verification/H1_Backend.thy ===== *)
theory H1_Backend
  imports H1_Bridge
begin

text \<open>
  The rest of \<^verbatim>\<open>HyperBackend::serve\<close> in \<^verbatim>\<open>src/src/backend/hyper/mod.rs\<close>: what hyper is set up with, the
  timeout response as it is written under a deadline of its own, and the handover of an upgraded
  transport with what hyper has read ahead.
\<close>

section \<open>Setting hyper up\<close>

definition MIN_HYPER_BUF :: nat where
  "MIN_HYPER_BUF = 8 * 1024"

record builder =
  bu_header_read_timeout :: "duration option"
  bu_max_buf_size :: nat
  bu_max_headers :: nat
  bu_half_close :: bool
  bu_pipeline_flush :: bool

text \<open>The setter of the buffer size panics below hyper's floor.\<close>

definition max_buf_size :: "nat \<Rightarrow> builder \<Rightarrow> builder option" where
  "max_buf_size n b = (if n < MIN_HYPER_BUF then None else Some (b\<lparr>bu_max_buf_size := n\<rparr>))"

definition hyper_builder :: "limits \<Rightarrow> builder \<Rightarrow> builder option" where
  "hyper_builder l b =
     map_option (\<lambda>b. b\<lparr>bu_max_headers := max_headers l, bu_half_close := False, bu_pipeline_flush := False\<rparr>)
       (max_buf_size (max (max_head_bytes l) MIN_HYPER_BUF) (b\<lparr>bu_header_read_timeout := None\<rparr>))"

text \<open>Whatever the limits, hyper can be set up, and it gives up on no head the crate would take.\<close>

lemma hyper_builder_total:
  "\<exists>b'. hyper_builder l b = Some b' \<and> max_head_bytes l \<le> bu_max_buf_size b' \<and> bu_max_headers b' = max_headers l
    \<and> bu_header_read_timeout b' = None \<and> \<not> bu_half_close b' \<and> \<not> bu_pipeline_flush b'"
  by (auto simp: hyper_builder_def max_buf_size_def)

section \<open>The timeout response\<close>

text \<open>
  Where \<^verbatim>\<open>write_error_close\<close> is: not polled yet, with so much left to write, or flushing.  Its results are
  ignored, so a write that fails goes on with the flush.
\<close>

datatype closing = CloseStart version nat | CloseWriting bytes | CloseFlushing

definition close_flush :: "instant \<Rightarrow> io_shared \<Rightarrow> closing option \<times> io_shared" where
  "close_flush now s =
     (case poll_flush_from now s of
        (Pending, s) \<Rightarrow> (Some CloseFlushing, s)
      | (Ready _, s) \<Rightarrow> (None, s))"

function close_write :: "bytes \<Rightarrow> instant \<Rightarrow> io_shared \<Rightarrow> closing option \<times> io_shared" where
  "close_write b now s =
     (if b = [] then close_flush now s
      else
        (case poll_write_from b now s of
           (Pending, s) \<Rightarrow> (Some (CloseWriting b), s)
         | (Ready (Inl e), s) \<Rightarrow> close_flush now s
         | (Ready (Inr n), s) \<Rightarrow> if n = 0 then close_flush now s else close_write (drop n b) now s))"
  by pat_completeness auto
termination
  by (relation "measure (\<lambda>(b, _). length b)") auto

declare close_write.simps [simp del]

definition close_poll ::
    "(int \<Rightarrow> bytes) \<Rightarrow> closing \<Rightarrow> instant \<Rightarrow> int \<Rightarrow> io_shared \<times> date_cache \<Rightarrow> closing option \<times> io_shared \<times> date_cache" where
  "close_poll fmt w now secs x =
     (case x of (s, date) \<Rightarrow>
        (case w of
           CloseStart v st \<Rightarrow>
             (let (out, date) = write_error_close fmt date secs v st;
                  (w, s) = close_write out now s
              in (w, s, date))
         | CloseWriting b \<Rightarrow> (let (w, s) = close_write b now s in (w, s, date))
         | CloseFlushing \<Rightarrow> (let (w, s) = close_flush now s in (w, s, date))))"

text \<open>The race with its deadline, poll by poll: \<open>Some False\<close> when the deadline has won.\<close>

fun close_race ::
    "(int \<Rightarrow> bytes) \<Rightarrow> (instant \<Rightarrow> instant \<Rightarrow> bool) \<Rightarrow> conn_deadline \<Rightarrow> closing \<Rightarrow> (instant \<times> int) list \<Rightarrow>
      io_shared \<times> date_cache \<Rightarrow> bool option \<times> io_shared \<times> date_cache" where
  "close_race fmt fires d w [] x = (None, x)"
| "close_race fmt fires d w ((now, secs) # polls) x =
     (case poll_expired fires now d of (expired, d) \<Rightarrow>
        if expired then (Some False, x)
        else
          (case close_poll fmt w now secs x of
             (None, x) \<Rightarrow> (Some True, x)
           | (Some w, x) \<Rightarrow> close_race fmt fires d w polls x))"

section \<open>The end of \<open>serve\<close>\<close>

record hyper_upgraded =
  hu_buffered :: bytes
  hu_io :: io_shared

text \<open>
  What \<^verbatim>\<open>serve\<close> returns, \<^verbatim>\<open>None\<close> as long as the polls do not suffice, with the transport and the date
  cache as they are left.  \<open>read_buf\<close> is what hyper gives back with the transport.
\<close>

definition hyper_serve_end ::
    "limits \<Rightarrow> (int \<Rightarrow> bytes) \<Rightarrow> (instant \<Rightarrow> instant \<Rightarrow> bool) \<Rightarrow> version \<Rightarrow> bool \<Rightarrow> bool \<Rightarrow> bytes \<Rightarrow> raced \<Rightarrow> instant \<Rightarrow>
      (instant \<times> int) list \<Rightarrow> conn_deadline \<Rightarrow> io_shared \<times> date_cache \<Rightarrow>
      (rebuilt + hyper_upgraded option) option \<times> io_shared \<times> date_cache" where
  "hyper_serve_end l fmt fires ver_of_req sent_101 slot_filled read_buf r now polls d x =
     (case hyper_served (is_clock (fst x)) ver_of_req sent_101 slot_filled r of
        SilentClose \<Rightarrow> (Some (Inr None), x)
      | TimeoutResponse v st \<Rightarrow>
          (case close_race fmt fires (deadline_arm d now (write_timeout l)) (CloseStart v st) polls x of
             (ended, x) \<Rightarrow> (map_option (\<lambda>_. Inr None) ended, x))
      | HandedOver \<Rightarrow>
          (let s = (fst x)\<lparr>is_clock := clock_detach (is_clock (fst x))\<rparr>
           in (Some (Inr (Some \<lparr>hu_buffered = read_buf, hu_io = s\<rparr>)), s, snd x))
      | EndedWith e \<Rightarrow> (Some (Inl e), x))"

section \<open>What the timeout response writes\<close>

text \<open>A transport that may stall but neither fails nor refuses a write.\<close>

fun takes_write :: "write_event \<Rightarrow> bool" where
  "takes_write WrPending = True"
| "takes_write (WrAccept n) = (0 < n)"
| "takes_write (WrError e) = False"

definition takes_writes :: "io_shared \<Rightarrow> bool" where
  "takes_writes s \<longleftrightarrow> list_all takes_write (wr (is_io s))"

lemma poll_write_from_sent:
  assumes "poll_write_from b now s = (r, s')"
  shows "to_read s' = to_read s
    \<and> sent (is_io s') = sent (is_io s) @ take (case r of Ready (Inr n) \<Rightarrow> n | _ \<Rightarrow> 0) b
    \<and> (takes_writes s \<longrightarrow> takes_writes s' \<and> (b \<noteq> [] \<longrightarrow> (\<forall>e. r \<noteq> Ready (Inl e)) \<and> r \<noteq> Ready (Inr 0)))"
proof -
  obtain q t where q: "poll_write b (is_io s) = (q, t)" by (cases "poll_write b (is_io s)")
  from poll_write_frame [OF q] q assms show ?thesis
    by (auto simp: poll_write_from_def to_read_def takes_writes_def poll_write_def
        split: pollable.splits sum.splits list.splits write_event.splits)
qed

lemma poll_flush_from_sent:
  assumes "poll_flush_from now s = (r, s')"
  shows "to_read s' = to_read s \<and> sent (is_io s') = sent (is_io s) \<and> takes_writes s' = takes_writes s"
proof -
  obtain q t where q: "poll_flush (is_io s) = (q, t)" by (cases "poll_flush (is_io s)")
  from poll_flush_frame [OF q] q assms show ?thesis
    by (auto simp: poll_flush_from_def to_read_def takes_writes_def split: pollable.splits sum.splits)
qed

text \<open>
  \<open>closes b s w s'\<close>: of the bytes \<open>b\<close> a part has been written and the rest, if the future is still writing,
  is left; on a transport that takes writes nothing is left once it flushes or is done.
\<close>

definition closes :: "bytes \<Rightarrow> io_shared \<Rightarrow> closing option \<Rightarrow> io_shared \<Rightarrow> bool" where
  "closes b s w s' \<longleftrightarrow>
     (\<exists>x y. b = x @ y \<and> sent (is_io s') = sent (is_io s) @ x \<and> to_read s' = to_read s
        \<and> (w = Some (CloseWriting y) \<or> (w = None \<or> w = Some CloseFlushing) \<and> (takes_writes s \<longrightarrow> y = []))
        \<and> (takes_writes s \<longrightarrow> takes_writes s'))"

lemma close_flush_closes: "close_flush now s = (w, s') \<Longrightarrow> closes [] s w s'"
  using poll_flush_from_sent [of now s] by (auto simp: close_flush_def closes_def split: prod.splits pollable.splits)

lemma closes_step:
  assumes "closes b s1 w s'" and "sent (is_io s1) = sent (is_io s) @ a" and "to_read s1 = to_read s"
    and "takes_writes s \<longrightarrow> takes_writes s1"
  shows "closes (a @ b) s w s'"
  using assms unfolding closes_def by (metis append.assoc)

lemma close_write_closes: "close_write b now s = (w, s') \<Longrightarrow> closes b s w s'"
proof (induction b now s rule: close_write.induct)
  case (1 b now s)
  show ?case
  proof (cases "b = []")
    case True
    with 1(2) close_flush_closes show ?thesis by (simp add: close_write.simps [of "[]"])
  next
    case False
    obtain r s1 where p: "poll_write_from b now s = (r, s1)" by (cases "poll_write_from b now s")
    note f = poll_write_from_sent [OF p]
    consider "r = Pending" | "(\<exists>e. r = Ready (Inl e)) \<or> r = Ready (Inr 0)" | n where "r = Ready (Inr (Suc n))"
      by (metis not0_implies_Suc pollable.exhaust sum.exhaust)
    then show ?thesis
    proof cases
      case 1
      with f False p \<open>close_write b now s = (w, s')\<close> show ?thesis
        unfolding closes_def by (intro exI [of _ "[]"] exI [of _ b]) (auto simp: close_write.simps [of b])
    next
      case 2
      with False p \<open>close_write b now s = (w, s')\<close> have "close_flush now s1 = (w, s')"
        by (auto simp: close_write.simps [of b])
      from close_flush_closes [OF this] this have "closes [] s1 w s'" "w = None \<or> w = Some CloseFlushing"
        by (auto simp: close_flush_def split: prod.splits pollable.splits)
      with 2 f False show ?thesis unfolding closes_def by (intro exI [of _ "[]"] exI [of _ b]) auto
    next
      case (3 n)
      with False p \<open>close_write b now s = (w, s')\<close> have c: "close_write (drop (Suc n) b) now s1 = (w, s')"
        by (simp add: close_write.simps [of b])
      from "1.IH" [OF False p [symmetric] _ _ _ c, of "Inr (Suc n)"] 3 have "closes (drop (Suc n) b) s1 w s'" by simp
      from closes_step [OF this, of s "take (Suc n) b"] f 3 show ?thesis by simp
    qed
  qed
qed

text \<open>The bytes a future still has to write.\<close>

definition close_rest :: "closing \<Rightarrow> bytes" where
  "close_rest w = (case w of CloseWriting b \<Rightarrow> b | _ \<Rightarrow> [])"

lemma close_poll_closes:
  assumes "close_poll fmt w now secs (s, date) = (w', s', date')" and "\<forall>v st. w \<noteq> CloseStart v st"
  shows "closes (close_rest w) s w' s' \<and> (\<forall>v st. w' \<noteq> Some (CloseStart v st))"
proof -
  have "closes (close_rest w) s w' s'"
    using assms close_write_closes close_flush_closes
    by (auto simp: close_poll_def close_rest_def split: closing.splits prod.splits)
  then show ?thesis by (auto simp: closes_def)
qed

lemma close_race_sent:
  assumes "close_race fmt fires d w polls (s, date) = (e, s', date')" and "\<forall>v st. w \<noteq> CloseStart v st"
  shows "\<exists>x y. close_rest w = x @ y \<and> sent (is_io s') = sent (is_io s) @ x \<and> to_read s' = to_read s
    \<and> (takes_writes s \<and> e = Some True \<longrightarrow> y = [])"
  using assms
proof (induction polls arbitrary: d w s date)
  case (Cons p polls)
  obtain now secs where p: "p = (now, secs)" by (cases p)
  obtain q d1 where q: "poll_expired fires now d = (q, d1)" by (cases "poll_expired fires now d")
  obtain w1 s1 date1 where c: "close_poll fmt w now secs (s, date) = (w1, s1, date1)"
    by (cases "close_poll fmt w now secs (s, date)") auto
  from close_poll_closes [OF c Cons.prems(2)] obtain x y where
    cl: "close_rest w = x @ y" "sent (is_io s1) = sent (is_io s) @ x" "to_read s1 = to_read s"
    "w1 = Some (CloseWriting y) \<or> (w1 = None \<or> w1 = Some CloseFlushing) \<and> (takes_writes s \<longrightarrow> y = [])"
    "takes_writes s \<longrightarrow> takes_writes s1" and nw: "\<forall>v st. w1 \<noteq> Some (CloseStart v st)"
    unfolding closes_def by blast
  consider "q" | "\<not> q" "w1 = None" | w2 where "\<not> q" "w1 = Some w2" by (cases w1) auto
  then show ?case
  proof cases
    case 1
    with Cons.prems p q show ?thesis by (intro exI [of _ "[]"] exI [of _ "close_rest w"]) auto
  next
    case 2
    with Cons.prems p q c have "s' = s1" by simp
    with cl 2 show ?thesis by (intro exI [of _ x] exI [of _ y]) auto
  next
    case (3 w2)
    with Cons.prems p q c have "close_race fmt fires d1 w2 polls (s1, date1) = (e, s', date')" by simp
    from Cons.IH [OF this] nw 3 obtain x2 y2 where
      r: "close_rest w2 = x2 @ y2" "sent (is_io s') = sent (is_io s1) @ x2" "to_read s' = to_read s1"
      "takes_writes s1 \<and> e = Some True \<longrightarrow> y2 = []" by auto
    show ?thesis
    proof (cases "w2 = CloseFlushing")
      case True
      with r cl 3 show ?thesis by (intro exI [of _ x] exI [of _ y]) (auto simp: close_rest_def)
    next
      case False
      with cl(4) 3 have "w2 = CloseWriting y" by auto
      with r cl show ?thesis by (intro exI [of _ "x @ x2"] exI [of _ y2]) (auto simp: close_rest_def)
    qed
  qed
qed auto

lemma close_race_start:
  assumes "close_race fmt fires d (CloseStart v st) polls (s, date) = (e, s', date')"
  shows "\<exists>secs x y. fst (write_error_close fmt date secs v st) = x @ y \<and> sent (is_io s') = sent (is_io s) @ x
    \<and> to_read s' = to_read s \<and> (takes_writes s \<and> e = Some True \<longrightarrow> y = [])"
proof (cases polls)
  case Nil
  with assms show ?thesis by auto
next
  case (Cons p ps)
  obtain now secs where p: "p = (now, secs)" by (cases p)
  obtain q d1 where q: "poll_expired fires now d = (q, d1)" by (cases "poll_expired fires now d")
  obtain out date1 where o: "write_error_close fmt date secs v st = (out, date1)" by (cases "write_error_close fmt date secs v st")
  show ?thesis
  proof (cases q)
    case True
    with assms Cons p q show ?thesis by auto
  next
    case False
    have "close_poll fmt (CloseStart v st) now secs (s, date) = close_poll fmt (CloseWriting out) now secs (s, date1)"
      by (simp add: close_poll_def o split: prod.splits)
    with assms Cons p q False have "close_race fmt fires d (CloseWriting out) ((now, secs) # ps) (s, date1) = (e, s', date')"
      by simp
    from close_race_sent [OF this] o show ?thesis by (auto simp: close_rest_def intro!: exI [of _ secs])
  qed
qed

lemma close_race_deadline:
  assumes "deadline_ok d" and "dl_target d = Some t"
  shows "(\<forall>now s. fires now s \<longrightarrow> s \<le> now) \<Longrightarrow> fst (close_race fmt fires d w polls x) = Some False \<Longrightarrow>
      \<exists>(now, secs) \<in> set polls. t \<le> now"
    and "\<exists>(now, secs) \<in> set polls. \<forall>s. s \<le> t \<longrightarrow> fires now s \<Longrightarrow> fst (close_race fmt fires d w polls x) \<noteq> None"
proof -
  have "((\<forall>now s. fires now s \<longrightarrow> s \<le> now) \<and> fst (close_race fmt fires d w polls x) = Some False \<longrightarrow>
      (\<exists>(now, secs) \<in> set polls. t \<le> now))
    \<and> ((\<exists>(now, secs) \<in> set polls. \<forall>s. s \<le> t \<longrightarrow> fires now s) \<longrightarrow> fst (close_race fmt fires d w polls x) \<noteq> None)"
    using assms
  proof (induction polls arbitrary: d w x)
    case (Cons p polls)
    obtain now secs where p: "p = (now, secs)" by (cases p)
    obtain q d1 where q: "poll_expired fires now d = (q, d1)" by (cases "poll_expired fires now d")
    note e = poll_expired_target [OF Cons.prems q]
    obtain w1 x1 where c: "close_poll fmt w now secs x = (w1, x1)" by (cases "close_poll fmt w now secs x")
    show ?case
    proof (cases q)
      case True
      with e(4) p q show ?thesis by auto
    next
      case False
      have "\<not> (\<forall>s. s \<le> t \<longrightarrow> fires now s)" using e(5) False by blast
      with p q c False Cons.IH [OF e(3,1), of "the w1" x1] show ?thesis by (cases w1) auto
    qed
  qed simp
  then show "(\<forall>now s. fires now s \<longrightarrow> s \<le> now) \<Longrightarrow> fst (close_race fmt fires d w polls x) = Some False \<Longrightarrow>
      \<exists>(now, secs) \<in> set polls. t \<le> now"
    and "\<exists>(now, secs) \<in> set polls. \<forall>s. s \<le> t \<longrightarrow> fires now s \<Longrightarrow> fst (close_race fmt fires d w polls x) \<noteq> None"
    by blast+
qed

text \<open>C40. A peer that does not read cannot hold a timed-out connection: the \<^verbatim>\<open>408\<close> of a hyper connection is
  written under \<^verbatim>\<open>write_timeout\<close>, so the first poll at which that time, rounded up to a tick, is over ends
  \<^verbatim>\<open>serve\<close>, without an error; what is on the wire is the response or a beginning of it, and all of it
  if the transport takes writes and every poll came before that time.\<close>

theorem timeout_close_bounded:
  assumes "\<forall>now t. fires now t \<longrightarrow> t \<le> now" and "0 < dl_tick d" and "dl_tick d < 2 ^ 64"
    and "write_timeout l + dl_tick d \<le> 2 ^ 64" and "now0 + write_timeout l + dl_tick d < instant_range"
    and "hyper_served (is_clock s) v sent_101 slot r = TimeoutResponse ver st"
    and "hyper_serve_end l fmt fires v sent_101 slot read_buf r now0 polls d (s, date) = (res, s', date')"
  shows "res \<in> {None, Some (Inr None)}
    \<and> ((\<exists>(now, secs) \<in> set polls. \<forall>t. t \<le> now0 + write_timeout l + dl_tick d \<longrightarrow> fires now t) \<longrightarrow> res \<noteq> None)
    \<and> (\<exists>secs x y. fst (write_error_close fmt date secs ver st) = x @ y \<and> sent (is_io s') = sent (is_io s) @ x
        \<and> to_read s' = to_read s
        \<and> (takes_writes s \<and> res \<noteq> None \<and> (\<forall>(now, secs) \<in> set polls. now < now0 + write_timeout l) \<longrightarrow> y = []))"
proof -
  let ?d = "deadline_arm d now0 (write_timeout l)"
  obtain t where t: "dl_target ?d = Some t" "now0 + write_timeout l \<le> t" "t < now0 + write_timeout l + dl_tick d"
    using deadline_arm_target [OF assms(2-5)] by blast
  obtain e where e: "close_race fmt fires ?d (CloseStart ver st) polls (s, date) = (e, s', date')"
    and res: "res = map_option (\<lambda>_. Inr None) e"
    using assms(6,7) by (auto simp: hyper_serve_end_def split: prod.splits)
  note dl = close_race_deadline [OF deadline_arm_ok t(1), where fires = fires and fmt = fmt and w = "CloseStart ver st"
    and polls = polls and x = "(s, date)", unfolded e fst_conv]
  have lt: "e \<noteq> Some False" if "\<forall>(now, secs) \<in> set polls. now < now0 + write_timeout l"
    using dl(1) assms(1) that t(2) by fastforce
  have ends: "res \<noteq> None" if "\<exists>(now, secs) \<in> set polls. \<forall>t. t \<le> now0 + write_timeout l + dl_tick d \<longrightarrow> fires now t"
    using dl(2) that t(3) res by fastforce
  from close_race_start [OF e] obtain secs x y where x: "fst (write_error_close fmt date secs ver st) = x @ y"
    "sent (is_io s') = sent (is_io s) @ x" "to_read s' = to_read s" "takes_writes s \<and> e = Some True \<longrightarrow> y = []" by blast
  have "y = []" if "takes_writes s" "res \<noteq> None" "\<forall>(now, secs) \<in> set polls. now < now0 + write_timeout l"
    using lt [OF that(3)] that res x(4) by (cases e) auto
  then have "\<exists>secs x y. fst (write_error_close fmt date secs ver st) = x @ y \<and> sent (is_io s') = sent (is_io s) @ x
        \<and> to_read s' = to_read s
        \<and> (takes_writes s \<and> res \<noteq> None \<and> (\<forall>(now, secs) \<in> set polls. now < now0 + write_timeout l) \<longrightarrow> y = [])"
    using x(1-3) by blast
  moreover have "res \<in> {None, Some (Inr None)}" using res by (cases e) simp_all
  ultimately show ?thesis using ends by blast
qed

theorem timeout_close_bounded_witness:
  "fst (hyper_serve_end default_limits (\<lambda>_. []) (\<lambda>now t. t \<le> now) Http11 False False [] (RaceExpired PhHead) 0
      [(5, 0), (from_secs 40, 0)] (deadline_new 1 0)
      (io_shared_new \<lparr>rd = [], wr = [WrPending, WrPending], fl = [], sent = []\<rparr> [] (clock_new PhHead 0), date_cache_new))
    = Some (Inr None)"
proof -
  let ?s = "io_shared_new \<lparr>rd = [], wr = [WrPending, WrPending], fl = [], sent = []\<rparr> [] (clock_new PhHead 0)"
  let ?e = "hyper_serve_end default_limits (\<lambda>_. []) (\<lambda>now t. t \<le> now) Http11 False False [] (RaceExpired PhHead) 0
      [(5, 0), (from_secs 40, 0)] (deadline_new 1 0) (?s, date_cache_new)"
  have "hyper_served (is_clock ?s) Http11 False False (RaceExpired PhHead) = TimeoutResponse Http11 408"
    by (simp add: hyper_served_def io_shared_new_def clock_new_def)
  moreover obtain res s' date' where e: "?e = (res, s', date')" by (cases ?e) auto
  ultimately have "res \<in> {None, Some (Inr None)}" "res \<noteq> None"
    using timeout_close_bounded [of "\<lambda>now t. t \<le> now" "deadline_new 1 0" default_limits 0 ?s Http11 False False "RaceExpired PhHead"
        Http11 408 "\<lambda>_. []" "[]" "[(5, 0), (from_secs 40, 0)]" date_cache_new res s' date']
    by (simp_all add: default_limits_def deadline_new_def from_secs_def instant_range_def)
  then show ?thesis using e by simp
qed

section \<open>The transport handed over\<close>

text \<open>What hyper does with the transport before: reads into so much room, writes and flushes.\<close>

datatype io_op = OpRead nat | OpWrite bytes | OpFlush

text \<open>
  The bytes hyper has read, and the transport after; \<^verbatim>\<open>None\<close> when a read failed or found the end, after
  which hyper reads no more.
\<close>

fun hyper_ops :: "(instant \<times> io_op) list \<Rightarrow> io_shared \<Rightarrow> (bytes \<times> io_shared) option" where
  "hyper_ops [] s = Some ([], s)"
| "hyper_ops ((now, OpRead n) # ops) s =
     (case poll_read_cursor n now s of
        (Pending, s) \<Rightarrow> hyper_ops ops s
      | (Ready (Inl e), s) \<Rightarrow> None
      | (Ready (Inr b), s) \<Rightarrow> if b = [] then None else map_option (\<lambda>(got, s). (b @ got, s)) (hyper_ops ops s))"
| "hyper_ops ((now, OpWrite b) # ops) s = hyper_ops ops (snd (poll_write_from b now s))"
| "hyper_ops ((now, OpFlush) # ops) s = hyper_ops ops (snd (poll_flush_from now s))"

lemma hyper_ops_read: "hyper_ops ops s = Some (got, s') \<Longrightarrow> to_read s = got @ to_read s'"
proof (induction ops s arbitrary: got s' rule: hyper_ops.induct)
  case (2 now n ops s)
  obtain r s1 where p: "poll_read_cursor n now s = (r, s1)" by (cases "poll_read_cursor n now s")
  from poll_read_cursor_stream [OF p] 2 p show ?case by (auto split: pollable.splits sum.splits if_splits prod.splits)
next
  case (3 now b ops s)
  then show ?case using poll_write_from_sent [of b now s] by (cases "poll_write_from b now s") auto
next
  case (4 now ops s)
  then show ?case using poll_flush_from_sent [of now s] by (cases "poll_flush_from now s") auto
qed simp

text \<open>A clock that is detached is left alone by the transport.\<close>

lemma detached_notes:
  assumes "pc_detached c"
  shows "note_read b now c = c" "note_write n now c = c" "clock_note_flush now c = c"
  using assms by (simp_all add: note_read_def set_phase_def note_write_def clock_note_write_def clock_note_flush_def)

lemma detached_polls:
  assumes "pc_detached (is_clock s)"
  shows "is_clock (snd (poll_read_cursor n now s)) = is_clock s"
    and "is_clock (snd (poll_write_from b now s)) = is_clock s"
    and "is_clock (snd (poll_flush_from now s)) = is_clock s"
proof -
  have "is_clock (snd (poll_read_into m now s)) = is_clock s" for m
    using detached_notes(1) [OF assms] by (simp add: poll_read_into_def Let_def split: prod.split pollable.split sum.split)
  then show "is_clock (snd (poll_read_cursor n now s)) = is_clock s" by (simp add: poll_read_cursor_def Let_def)
  show "is_clock (snd (poll_write_from b now s)) = is_clock s"
    using detached_notes(2) [OF assms] by (simp add: poll_write_from_def split: prod.split pollable.split sum.split)
  show "is_clock (snd (poll_flush_from now s)) = is_clock s"
    using detached_notes(3) [OF assms] by (simp add: poll_flush_from_def split: prod.split pollable.split sum.split)
qed

lemma detached_ops: "hyper_ops ops s = Some (got, s') \<Longrightarrow> pc_detached (is_clock s) \<Longrightarrow> is_clock s' = is_clock s"
proof (induction ops arbitrary: s got)
  case (Cons p ops)
  obtain now op where p: "p = (now, op)" by (cases p)
  note d = detached_polls [OF Cons.prems(2)]
  show ?case
  proof (cases op)
    case (OpRead n)
    obtain r s1 where q: "poll_read_cursor n now s = (r, s1)" by (cases "poll_read_cursor n now s")
    with d(1) [of n now] have c: "is_clock s1 = is_clock s" by simp
    from Cons.prems(1) p OpRead q obtain got1 where "hyper_ops ops s1 = Some (got1, s')"
      by (auto split: pollable.splits sum.splits if_splits)
    from Cons.IH [OF this] c Cons.prems(2) show ?thesis by simp
  next
    case (OpWrite b)
    with Cons.prems p Cons.IH [of "snd (poll_write_from b now s)" got] d(2) show ?thesis by simp
  next
    case OpFlush
    with Cons.prems p Cons.IH [of "snd (poll_flush_from now s)" got] d(3) show ?thesis by simp
  qed
qed simp

text \<open>C39. An upgrade over hyper hands over a clean stream too: the bytes dispatch had read, then those of the
  transport, are what hyper has consumed, then what it had read ahead and gives back, then what is
  still to be read from the transport handed over; none is lost, repeated or out of order, whatever
  the reads and writes were, nothing more is written, and the reads and writes of the consumer, which
  continue that stream, no longer drive the clock of the watchdog.\<close>

theorem hyper_upgrade_hands_over:
  assumes "hyper_ops ops (io_shared_new t buffered c) = Some (consumed @ read_buf, s)"
    and "hyper_serve_end l fmt fires v sent_101 slot read_buf r now polls d (s, date) = (Some (Inr (Some u)), s', date')"
  shows "buffered @ stream_of (rd t) = consumed @ hu_buffered u @ to_read (hu_io u)
    \<and> hu_buffered u = read_buf \<and> sent (is_io (hu_io u)) = sent (is_io s) \<and> sent_101 \<and> slot
    \<and> (\<forall>ops' got s2. hyper_ops ops' (hu_io u) = Some (got, s2) \<longrightarrow>
         to_read (hu_io u) = got @ to_read s2 \<and> is_clock s2 = is_clock (hu_io u))"
proof -
  have u: "hu_buffered u = read_buf" "hu_io u = s\<lparr>is_clock := clock_detach (is_clock s)\<rparr>" "sent_101 \<and> slot"
    using assms(2) by (auto simp: hyper_serve_end_def hyper_served_def Let_def
        split: raced.splits option.splits if_splits prod.splits)
  have "pc_detached (is_clock (hu_io u))" by (simp add: u clock_detach_def)
  moreover have "to_read (io_shared_new t buffered c) = (consumed @ read_buf) @ to_read (hu_io u)"
    using hyper_ops_read [OF assms(1)] by (simp add: u to_read_def)
  moreover have "to_read (io_shared_new t buffered c) = buffered @ stream_of (rd t)"
    "sent (is_io (hu_io u)) = sent (is_io s)" by (simp_all add: u to_read_def io_shared_new_def)
  ultimately show ?thesis using u(1,3) hyper_ops_read detached_ops by (metis append.assoc)
qed

theorem hyper_upgrade_hands_over_witness:
  "\<exists>u s' date'. hyper_serve_end default_limits (\<lambda>_. []) (\<lambda>now t. False) Http11 True True ''ws'' RaceClosed 0 [] (deadline_new 1 0)
      (\<lparr>is_io = \<lparr>rd = [], wr = [], fl = [], sent = []\<rparr>, is_buffered = [], is_clock = clock_new PhHead 0\<rparr>, date_cache_new)
      = (Some (Inr (Some u)), s', date') \<and> ''Gws'' = ''G'' @ hu_buffered u @ to_read (hu_io u)"
proof -
  let ?t = "\<lparr>rd = [RdData ''Gws''], wr = [], fl = [], sent = []\<rparr>"
  let ?s = "\<lparr>is_io = \<lparr>rd = [], wr = [], fl = [], sent = []\<rparr>, is_buffered = [], is_clock = clock_new PhHead 0\<rparr>"
  let ?c = "(clock_new PhHead 0)"
  have "hyper_ops [(0, OpRead 10)] (io_shared_new ?t [] ?c) = Some (''G'' @ ''ws'', ?s)"
    by (simp add: poll_read_cursor_def poll_read_into_def poll_read_upto_def poll_read_def io_shared_new_def MAX_SCRATCH_def
        note_read_def clock_new_def)
  moreover obtain u s' date' where e: "hyper_serve_end default_limits (\<lambda>_. []) (\<lambda>now t. False) Http11 True True ''ws'' RaceClosed 0 []
      (deadline_new 1 0) (?s, date_cache_new) = (Some (Inr (Some u)), s', date')"
    by (simp add: hyper_serve_end_def hyper_served_def Let_def)
  ultimately have "[] @ stream_of (rd ?t) = ''G'' @ hu_buffered u @ to_read (hu_io u)"
    using hyper_upgrade_hands_over [of "[(0, OpRead 10)]" ?t "[]" ?c "''G''" "''ws''" ?s] by metis
  with e show ?thesis by auto
qed

end
