(* ===== verification/Spec2Isabelle.thy ===== *)
theory Spec2Isabelle
  imports H1_Parse H1_Framing H1_Drain H1_Write H1_Session H1_Fleet H1_Backend
begin

text \<open>
  Verification of \<^verbatim>\<open>armature-h1\<close>, a thread-per-core HTTP/1.1 server (Rust, \<^verbatim>\<open>src/src\<close>).

  \<^bold>\<open>The program.\<close>  A server (\<^verbatim>\<open>server.rs\<close>) binds one listener per worker and runs an accept loop on each.
  A worker counts its connections in shared counters, keeps an accepted connection or hands it to a
  less loaded worker, and spawns a task for each.  The task dispatches (\<^verbatim>\<open>tls.rs\<close>, \<^verbatim>\<open>server.rs\<close>): HTTP/2
  goes to a fallback, everything else to a backend (\<^verbatim>\<open>backend/mod.rs\<close>).  The native backend is the
  connection loop of \<^verbatim>\<open>conn.rs\<close>: it reads a head (\<^verbatim>\<open>parse.rs\<close>), decides how the body is framed
  (\<^verbatim>\<open>framing.rs\<close>), calls the service with a request whose body is read on demand (\<^verbatim>\<open>service.rs\<close>,
  \<^verbatim>\<open>chunked.rs\<close>), and writes the response (\<^verbatim>\<open>write.rs\<close>) under deadlines (\<^verbatim>\<open>deadline.rs\<close>).  The hyper
  backend (\<^verbatim>\<open>backend/hyper\<close>) lets hyper parse and write and reproduces the limits, the deadlines and the
  response rules of the native one around it.

  \<^bold>\<open>Theories, from the bytes up.\<close>

  \<^item> \<^verbatim>\<open>H1_Prelude\<close>: bytes, ASCII classes, \<^verbatim>\<open>memchr\<close> and \<^verbatim>\<open>memmem\<close> as the first match, \<^verbatim>\<open>u64\<close> arithmetic, UTF-8.
    \<^verbatim>\<open>H1_Digits\<close>: the locale \<^verbatim>\<open>positional\<close> of digit strings in a base, interpreted for the decimal
    lengths of \<^verbatim>\<open>framing.rs\<close> and the hexadecimal sizes of \<^verbatim>\<open>chunked.rs\<close>.
  \<^item> \<^verbatim>\<open>H1_Bytestr\<close>, \<^verbatim>\<open>H1_Method\<close>, \<^verbatim>\<open>H1_Header\<close>, \<^verbatim>\<open>H1_Head\<close>, \<^verbatim>\<open>H1_Limits\<close>: the data of \<^verbatim>\<open>bytestr.rs\<close>, \<^verbatim>\<open>method.rs\<close>,
    \<^verbatim>\<open>header.rs\<close>, \<^verbatim>\<open>head.rs\<close> and \<^verbatim>\<open>limits.rs\<close>.  Interning decides equality of field names; the cached
    offsets of a head are those of its target.
  \<^item> \<^verbatim>\<open>H1_Parse\<close> (\<^verbatim>\<open>parse.rs\<close>): the strict prescan, the tokenizer call in two tiers, target validation.  A
    parsed head is well-formed, buffering is bounded, and the vectorized passes are the byte-by-byte
    rules.
  \<^item> \<^verbatim>\<open>H1_Framing\<close> (\<^verbatim>\<open>framing.rs\<close>): Host, authority and length rules.  The decision table refines a
    declarative account of when a request has which body; a length next to a coding is refused; an
    absolute or CONNECT target agrees with Host.
  \<^item> \<^verbatim>\<open>H1_Chunked\<close>, \<^verbatim>\<open>H1_Drain\<close> (\<^verbatim>\<open>chunked.rs\<close>): the incremental decoder.  What it accepts is a message
    of the chunked grammar within the limits.  The packetization does not change what is decoded; it
    changes whether a body is refused only for a line of exactly the allowed length with a read
    ending at its CR.
  \<^item> \<^verbatim>\<open>H1_Write\<close> (\<^verbatim>\<open>write.rs\<close>): the response head and chunks.  No header splits a response.  A
    written head is field lines in exactly one way (\<^verbatim>\<open>written_fields_unique\<close>), and in these the framing is
    that of the body and persistence reads back as decided.  The date cache is transparent.
  \<^item> \<^verbatim>\<open>H1_Body\<close> (\<^verbatim>\<open>service.rs\<close>): bodies over the interface \<^verbatim>\<open>BodyIo\<close>, which is the locale \<^verbatim>\<open>body_transport\<close>;
    \<^verbatim>\<open>H1_Io\<close>, \<^verbatim>\<open>H1_Conn\<close> (\<^verbatim>\<open>conn.rs\<close>): the connection's state, which interprets it, and every step of
    \<^verbatim>\<open>Connection::serve\<close>; \<^verbatim>\<open>H1_Deadline\<close> (\<^verbatim>\<open>deadline.rs\<close>): the lazily re-pointed timer.
  \<^item> \<^verbatim>\<open>H1_Serve\<close>, \<^verbatim>\<open>H1_Session\<close>: what the serve loop does.  It always returns, and refines a session: the
    requests of the stream one after the other, each answered once, whole and in order; a refused
    request closes; an upgrade hands over exactly the bytes after its request.
    A response whose length fits \<^verbatim>\<open>u64\<close> and that streams no empty chunk is delimited by its head.
  \<^item> \<^verbatim>\<open>H1_Dispatch\<close> (\<^verbatim>\<open>tls.rs\<close>, \<^verbatim>\<open>server.rs\<close>): preface detection and dispatch, which lose no byte.
  \<^item> \<^verbatim>\<open>H1_Balance\<close>, \<^verbatim>\<open>H1_Server\<close> (\<^verbatim>\<open>server.rs\<close>): the connection counts, sequentially and as atomic steps of
    threads that interleave; configuration, binding, startup; the iterations of the accept loop, the
    handover between workers and the drain at shutdown, which lose no connection.
  \<^item> \<^verbatim>\<open>H1_Fleet\<close> (\<^verbatim>\<open>server.rs\<close>): binding a listener, and all workers of a server as one step relation, from startup to the drains.  The
    count of a worker in its loop is exactly what it has, every connection accepted is accounted for, and
    shutdown ends.  A turn of a worker, and its drain, is one step.  The caps hold but for the one connection
    a worker may hold with no room for it, which it serves above its cap at shutdown.
  \<^item> \<^verbatim>\<open>H1_Phase\<close> (\<^verbatim>\<open>backend/hyper/mod.rs\<close>): the phase clock, the watchdog by its polls, how a connection
    ends, and the steps hyper may take in between as a relation on the clock.  A timeout response is
    never spliced into another, and no phase is cut short.
  \<^item> \<^verbatim>\<open>H1_Hyper\<close> (\<^verbatim>\<open>backend/hyper/io.rs\<close>, \<^verbatim>\<open>backend/hyper/body.rs\<close>, \<^verbatim>\<open>service.rs\<close>): the transport hyper reads, which
    loses no byte; bodies over hyper's frames, a second interpretation of \<^verbatim>\<open>body_transport\<close>, which are read
    whole or fail; response bodies.
  \<^item> \<^verbatim>\<open>H1_Bridge\<close> (\<^verbatim>\<open>backend/hyper/bridge.rs\<close>): requests and responses between hyper and the crate.  Of the
    requests the native reader parses and hyper hands on unchanged, the bridge takes those the native loop
    takes; and it answers as the native writer does where the crate \<^verbatim>\<open>http\<close> can carry the fields.
  \<^item> \<^verbatim>\<open>H1_Backend\<close> (\<^verbatim>\<open>backend/hyper/mod.rs\<close>): the settings of hyper and the end of \<^verbatim>\<open>HyperBackend::serve\<close>.  The
    timeout response is bounded in time, and an upgrade hands over exactly the bytes hyper has not consumed.

  \<^bold>\<open>Conventions.\<close>  \<^verbatim>\<open>Result\<close> is a sum with the error on the left, a panic is \<^verbatim>\<open>None\<close> of an outer option.
  \<^verbatim>\<open>u64\<close>, \<^verbatim>\<open>usize\<close> and \<^verbatim>\<open>u16\<close> are naturals with checked, saturating and wrapping operations written out
  (the xorshift sampler works on 64-bit words); byte strings and small vectors are lists.  What is
  not code of the crate is a parameter: the tokenizer \<^verbatim>\<open>httparse\<close>, the date formatter and the
  constructors of the crate \<^verbatim>\<open>http\<close> are functions; the transport, the timer, the clock, the service and the operating system are scripts of what they
  answer, call by call, so that a theorem over all scripts is one over all their behaviours.  A
  script that has run out answers as the end of the stream, or as a clock that no longer moves.

  \<^bold>\<open>Loops.\<close>  Loops over a script or a buffer are functions with a termination proof.  The loops that
  end only by a protocol invariant are partial functions into \<^verbatim>\<open>option\<close>, and the theorems about them
  say that they return: \<^verbatim>\<open>body_loop\<close>, \<^verbatim>\<open>collect_loop\<close>, \<^verbatim>\<open>serve\<close>, \<^verbatim>\<open>route\<close>, \<^verbatim>\<open>raw_loop\<close> and
  \<^verbatim>\<open>raw_read\<close>.  There is no fuel.

  \<^bold>\<open>Not modelled.\<close>  Tracing, \<^verbatim>\<open>Debug\<close> and \<^verbatim>\<open>Display\<close>, \<^verbatim>\<open>debug_assert\<close>, \<^verbatim>\<open>RefCell\<close> borrows, padding, buffer
  capacities, core pinning, the options of accepted sockets, the peer address, which is only passed through; the
  internals of rustls, tokio, httparse and hyper; the default consumers \<^verbatim>\<open>CloseH2\<close> and \<^verbatim>\<open>CloseUpgrade\<close>,
  which drop what they are given; \<^verbatim>\<open>lib.rs\<close>, which re-exports; benches, examples, fuzz targets and tests.
\<close>

section \<open>The writer against the decoder\<close>

lemma foldl_write_chunk:
  "foldl write_chunk out xs = out @ concat (map (\<lambda>x. hex_digits (length x) @ CRLF @ x @ CRLF) xs)"
  by (induction xs arbitrary: out) (simp_all add: write_chunk_eq)

lemma run_chunks:
  assumes "decoder_ok d" and "state d = StSize" and "trailers d = None" and "\<forall>x \<in> set xs. x \<noteq> []"
    and "decoded d + length (concat xs) \<le> max_body d" and "trailer_bytes d + 2 \<le> max_trailer d"
  shows "run d (concat (map (\<lambda>x. hex_digits (length x) @ CRLF @ x @ CRLF) xs) @ ''0'' @ CRLF @ CRLF @ rest)
    = (concat xs, [], Finished,
       d\<lparr>decoded := decoded d + length (concat xs), state := StDone, trailer_bytes := trailer_bytes d + 2\<rparr>, rest)"
  using assms
proof (induction xs arbitrary: d)
  case Nil
  then show ?case
    using run_last_chunk [OF Nil(1-3), of "''0''" rest] sample_size_lines(2)
    by (simp add: MAX_SIZE_DIGITS_def)
next
  case (Cons x xs)
  let ?d = "d\<lparr>decoded := decoded d + length x\<rparr>"
  have "length x < u64_range"
    using Cons.prems(5) decoder_okD(2) [OF Cons.prems(1)] by simp
  note line = hex_digits_line [OF this]
  have "length (hex_digits (length x)) \<le> MAX_SIZE_DIGITS + 256" using line(2) by simp
  from run_chunk [OF Cons.prems(1,2) line(3) this line(1)] Cons.prems(4,5)
  have step: "run d (hex_digits (length x) @ CRLF @ x @ CRLF @ r) = add_out x [] (run ?d r)" for r
    by simp
  have "decoder_ok ?d"
    using Cons.prems(1,2,3,5) by (simp add: decoder_ok_def)
  from Cons.IH [OF this] Cons.prems step show ?case by (simp add: add.assoc)
qed

text \<open>What is written chunk by chunk and then closed is decoded to there, whatever follows.\<close>

lemma drain_written:
  assumes "limits_ok l" and "2 \<le> max_head_bytes l" and "list_all (\<lambda>x. x \<noteq> []) xs"
    and "length (concat xs) \<le> max_body_bytes l"
  shows "\<exists>d'. drain (chunked_new l) (foldl write_chunk [] xs @ ''0'' @ CRLF @ CRLF @ rest) = (concat xs, [], Finished, d', rest)
    \<and> is_done d' \<and> decoded_len d' = length (concat xs)"
proof -
  have "run (chunked_new l)
      (concat (map (\<lambda>x. hex_digits (length x) @ CRLF @ x @ CRLF) xs) @ ''0'' @ CRLF @ CRLF @ rest)
    = (concat xs, [], Finished, (chunked_new l)\<lparr>decoded := length (concat xs), state := StDone,
        trailer_bytes := 2\<rparr>, rest)"
    using run_chunks [OF chunked_new_ok [OF assms(1)], of xs rest] assms(2-)
    by (simp add: chunked_new_def list_all_iff)
  then show ?thesis
    by (simp add: drain_eq_run foldl_write_chunk is_done_def decoded_len_def)
qed

text \<open>C18. What the response writer frames, the request decoder unframes: any sequence of non-empty
  chunks that fits the body limit, written chunk by chunk and closed with the last chunk, decodes
  to exactly their concatenation, ends, and leaves every byte after it untouched.\<close>

theorem chunked_roundtrip:
  assumes "limits_ok l" and "2 \<le> max_head_bytes l" and "list_all (\<lambda>x. x \<noteq> []) xs"
    and "length (concat xs) \<le> max_body_bytes l"
  shows "\<exists>d'. drain (chunked_new l) (write_last_chunk (foldl write_chunk [] xs) [] @ rest)
      = (concat xs, [], Finished, d', rest) \<and> is_done d' \<and> decoded_len d' = length (concat xs)"
  using drain_written [OF assms, of rest] by (simp add: write_last_chunk_Nil)

theorem chunked_roundtrip_witness:
  "\<exists>d'. drain (chunked_new default_limits)
        (write_last_chunk (foldl write_chunk [] [''ab'', ''c'']) [] @ ''GET '')
      = (''abc'', [], Finished, d', ''GET '')"
proof -
  have "2 \<le> max_head_bytes default_limits" by (simp add: default_limits_def)
  moreover have "length (concat [''ab'', ''c'']) \<le> max_body_bytes default_limits"
    by (simp add: default_limits_def)
  ultimately show ?thesis
    using chunked_roundtrip [OF default_limits_ok, of "[''ab'', ''c'']" "''GET ''"] by auto
qed

text \<open>C25. An empty chunk in a stream ends the message: \<^verbatim>\<open>write_chunk\<close> on no data appends exactly the
  bytes of \<^verbatim>\<open>write_last_chunk\<close> without trailers, so a recipient of a streamed response that yields
  the non-empty chunks \<open>xs\<close>, an empty one and then \<open>ys\<close> reads \<open>xs\<close> as the whole body and finds the
  framed \<open>ys\<close> where the next message should begin.\<close>

theorem empty_chunk_ends_body:
  assumes "limits_ok l" and "2 \<le> max_head_bytes l" and "list_all (\<lambda>x. x \<noteq> []) xs"
    and "length (concat xs) \<le> max_body_bytes l"
  shows "\<exists>d'. drain (chunked_new l) (write_last_chunk (foldl write_chunk [] (xs @ [] # ys)) [] @ rest)
    = (concat xs, [], Finished, d', write_last_chunk (foldl write_chunk [] ys) [] @ rest) \<and> is_done d'"
proof -
  have empty: "write_chunk out [] = out @ ''0'' @ CRLF @ CRLF" for out
    by (simp add: write_chunk_eq hex_digits.simps hex_byte_def)
  have "foldl write_chunk out ys = out @ foldl write_chunk [] ys" for out
    by (simp add: foldl_write_chunk)
  from this [of "foldl write_chunk [] xs @ ''0'' @ CRLF @ CRLF"]
    drain_written [OF assms, of "foldl write_chunk [] ys @ ''0'' @ CRLF @ CRLF @ rest"]
  show ?thesis by (auto simp: write_last_chunk_Nil empty)
qed

theorem empty_chunk_ends_body_witness:
  "\<exists>d'. drain (chunked_new default_limits)
        (write_last_chunk (foldl write_chunk [] [''ab'', [], ''c'']) [] @ [])
      = (''ab'', [], Finished, d', write_last_chunk (foldl write_chunk [] [''c'']) [])"
proof -
  have "2 \<le> max_head_bytes default_limits" by (simp add: default_limits_def)
  moreover have "length (concat [''ab'']) \<le> max_body_bytes default_limits" by (simp add: default_limits_def)
  ultimately show ?thesis
    using empty_chunk_ends_body [OF default_limits_ok, of "[''ab'']" "[''c'']" "[]"] by auto
qed

end
